(* ===== verification/Prelude.thy ===== *)
theory Prelude
  imports Main "HOL-Library.Word"
begin

text \<open>
  Shared vocabulary of the cppim development.

  \<^item> Bytes are \<open>char\<close> values (the source stores every buffer as \<^verbatim>\<open>std::vector<char>\<close>), strings are
    byte lists, and a \<^verbatim>\<open>w\<close>-bit machine integer is a \<open>w word\<close> read with \<open>unat\<close> or \<open>sint\<close>.
  \<^item> A failing \<^verbatim>\<open>assert\<close>, a C++ exception and an access outside a container are values of the
    type \<open>fault\<close>; an operation that can fail returns \<open>fault + 'a\<close>, sequenced with \<open>rbind\<close>.
  \<^item> The object representation of an integer (what \<^verbatim>\<open>memcpy\<close> copies) is little endian, as on
    the x86-64 hosts the build files target; \<open>mem_bytes\<close> and \<open>of_mem_bytes\<close> are its two directions.
  \<^item> The pieces of the C++ library that several components call (\<^verbatim>\<open>std::find\<close>,
    \<^verbatim>\<open>std::search\<close>, \<^verbatim>\<open>std::to_string\<close>, \<^verbatim>\<open>strtol\<close>-style parsing) are defined here, with the
    round trips the components rely on.
\<close>

unbundle bit_operations_syntax

named_theorems result_simps \<open>sequencing of fallible operations\<close>

type_synonym byte = char

subsection \<open>Faults and fallible results\<close>

datatype fault =
    AssertionFailed      \<comment> \<open>\<^verbatim>\<open>assert\<close> of the Debug build\<close>
  | LengthError          \<comment> \<open>\<^verbatim>\<open>std::length_error\<close> of a container constructor\<close>
  | OutOfRange           \<comment> \<open>\<^verbatim>\<open>std::out_of_range\<close>\<close>
  | InvalidArgument      \<comment> \<open>\<^verbatim>\<open>std::invalid_argument\<close>\<close>
  | BadFunctionCall      \<comment> \<open>calling an empty \<^verbatim>\<open>std::function\<close>\<close>
  | OutOfBounds          \<comment> \<open>a read outside the storage of a vector\<close>
  | EndDereference       \<comment> \<open>dereferencing the end iterator of a map\<close>
  | NullDereference      \<comment> \<open>dereferencing a null pointer\<close>
  | SystemError          \<comment> \<open>\<^verbatim>\<open>asio::system_error\<close>\<close>
  | Terminated           \<comment> \<open>\<^verbatim>\<open>std::terminate\<close>\<close>
  | Deadlock             \<comment> \<open>locking a mutex that is never released\<close>
  | UseAfterFree         \<comment> \<open>access to an object that has been deleted\<close>
  | Uninitialised        \<comment> \<open>using a variable that was never set\<close>

type_synonym 'a result = "fault + 'a"

definition rbind :: "'a result \<Rightarrow> ('a \<Rightarrow> 'b result) \<Rightarrow> 'b result" where
  "rbind m f = (case m of Inl e \<Rightarrow> Inl e | Inr x \<Rightarrow> f x)"

definition assert_that :: "bool \<Rightarrow> unit result" where
  "assert_that p = (if p then Inr () else Inl AssertionFailed)"

lemma rbind_Inl [simp, result_simps]: "rbind (Inl e) f = Inl e"
  by (simp add: rbind_def)

lemma rbind_Inr [simp, result_simps]: "rbind (Inr x) f = f x"
  by (simp add: rbind_def)

lemma rbind_eq_Inr [result_simps]: "rbind m f = Inr y \<longleftrightarrow> (\<exists>x. m = Inr x \<and> f x = Inr y)"
  by (cases m) (auto simp: rbind_def)

lemma rbind_assoc [result_simps]: "rbind (rbind m f) g = rbind m (\<lambda>x. rbind (f x) g)"
  by (cases m) auto

lemma rbind_split:
  "P (rbind m f) \<longleftrightarrow> (\<forall>e. m = Inl e \<longrightarrow> P (Inl e)) \<and> (\<forall>x. m = Inr x \<longrightarrow> P (f x))"
  by (cases m) auto

lemma rbind_cong [fundef_cong]:
  "m = m' \<Longrightarrow> (\<And>x. m' = Inr x \<Longrightarrow> f x = g x) \<Longrightarrow> rbind m f = rbind m' g"
  by (cases m') auto

lemma assert_that_simps [simp, result_simps]:
  "assert_that True = Inr ()" "assert_that False = Inl AssertionFailed"
  by (simp_all add: assert_that_def)

lemma assert_that_eq_Inr [result_simps]: "assert_that p = Inr u \<longleftrightarrow> p"
  by (auto simp: assert_that_def)

subsection \<open>Overwriting a slice of a vector\<close>

definition overwrite :: "nat \<Rightarrow> 'a list \<Rightarrow> 'a list \<Rightarrow> 'a list" where
  "overwrite i d xs = take i xs @ d @ drop (i + length d) xs"

lemma length_overwrite [simp]:
  "i + length d \<le> length xs \<Longrightarrow> length (overwrite i d xs) = length xs"
  by (simp add: overwrite_def)

lemma take_overwrite: "i + length d \<le> length xs \<Longrightarrow> k \<le> i \<Longrightarrow> take k (overwrite i d xs) = take k xs"
  by (simp add: overwrite_def min_def)

lemma slice_overwrite:
  "i + length d \<le> length xs \<Longrightarrow> take (length d) (drop i (overwrite i d xs)) = d"
  by (simp add: overwrite_def min_def)

lemma slice_before_overwrite:
  assumes "r \<le> i" "i + length d \<le> length xs"
  shows "take (i + length d - r) (drop r (overwrite i d xs)) = take (i - r) (drop r xs) @ d"
  using assms by (simp add: overwrite_def drop_take)

lemma slice_after_overwrite:
  assumes "i + length d \<le> r" "r \<le> length xs"
  shows "drop r (overwrite i d xs) = drop r xs"
  using assms by (simp add: overwrite_def)

subsection \<open>Object representation of integers\<close>

fun nat_of_le :: "byte list \<Rightarrow> nat" where
  "nat_of_le [] = 0"
| "nat_of_le (b # bs) = of_char b + 256 * nat_of_le bs"

fun le_of_nat :: "nat \<Rightarrow> nat \<Rightarrow> byte list" where
  "le_of_nat 0 x = []"
| "le_of_nat (Suc n) x = char_of x # le_of_nat n (x div 256)"

lemma length_le_of_nat [simp]: "length (le_of_nat n x) = n"
  by (induction n arbitrary: x) auto

lemma of_char_lt_256: "(of_char c :: nat) < 256"
  by (metis mod_less_divisor of_char_of char_of_char zero_less_numeral)

lemma nat_of_le_bound: "nat_of_le bs < 256 ^ length bs"
proof (induction bs)
  case (Cons b bs)
  have "of_char b + 256 * nat_of_le bs < 256 * (nat_of_le bs + 1)"
    using of_char_lt_256 [of b] by simp
  also have "\<dots> \<le> 256 * 256 ^ length bs" using Cons.IH by simp
  finally show ?case by simp
qed simp

lemma nat_of_le_of_nat: "nat_of_le (le_of_nat n x) = x mod 256 ^ n"
proof (induction n arbitrary: x)
  case (Suc n)
  then show ?case by (simp add: of_char_of mod_mult2_eq)
qed simp

lemma le_of_nat_of_le: "le_of_nat (length bs) (nat_of_le bs) = bs"
proof (induction bs)
  case (Cons b bs)
  have "char_of (of_char b + 256 * nat_of_le bs) = b"
  proof -
    have "(of_char b + 256 * nat_of_le bs) mod 256 = (of_char b :: nat)"
      using of_char_lt_256 [of b] by simp
    then show ?thesis using char_of_mod_256 [of "of_char b + 256 * nat_of_le bs"] char_of_char [of b]
      by simp
  qed
  moreover have "(of_char b + 256 * nat_of_le bs) div 256 = nat_of_le bs"
    using of_char_lt_256 [of b] by simp
  ultimately show ?case using Cons.IH by simp
qed simp

definition mem_bytes :: "'a::len word \<Rightarrow> byte list" where
  "mem_bytes w = le_of_nat (LENGTH('a) div 8) (unat w)"

definition of_mem_bytes :: "byte list \<Rightarrow> 'a::len word" where
  "of_mem_bytes bs = word_of_nat (nat_of_le bs)"

lemma length_mem_bytes [simp]: "length (mem_bytes (w :: 'a::len word)) = LENGTH('a) div 8"
  by (simp add: mem_bytes_def)

lemma of_mem_bytes_mem_bytes:
  assumes "8 dvd LENGTH('a)"
  shows "of_mem_bytes (mem_bytes w) = (w :: 'a::len word)"
proof -
  have "(256::nat) ^ (LENGTH('a) div 8) = 2 ^ (8 * (LENGTH('a) div 8))"
    by (simp add: power_mult)
  also have "\<dots> = 2 ^ LENGTH('a)" using assms by simp
  finally have "unat w mod 256 ^ (LENGTH('a) div 8) = unat w"
    using unsigned_less [of w] by simp
  then show ?thesis by (simp add: of_mem_bytes_def mem_bytes_def nat_of_le_of_nat)
qed

lemma mem_bytes_of_mem_bytes:
  assumes "8 dvd LENGTH('a)" "length bs = LENGTH('a) div 8"
  shows "mem_bytes (of_mem_bytes bs :: 'a::len word) = bs"
proof -
  have "(256::nat) ^ length bs = 2 ^ (8 * length bs)" by (simp add: power_mult)
  also have "\<dots> = 2 ^ LENGTH('a)" using assms by simp
  finally have "nat_of_le bs < 2 ^ LENGTH('a)" using nat_of_le_bound [of bs] by simp
  then have "unat (of_mem_bytes bs :: 'a word) = nat_of_le bs"
    by (simp add: of_mem_bytes_def unsigned_of_nat take_bit_nat_eq_self)
  then show ?thesis using assms(2) le_of_nat_of_le [of bs] by (simp add: mem_bytes_def)
qed

subsection \<open>Searching: \<^verbatim>\<open>std::find\<close>, \<^verbatim>\<open>std::search\<close>\<close>

text \<open>Both return an iterator; here the offset from the first element, the length for ``not found''.\<close>

definition std_find :: "'a \<Rightarrow> 'a list \<Rightarrow> nat" where
  "std_find c xs = length (takeWhile (\<lambda>x. x \<noteq> c) xs)"

fun std_search :: "'a list \<Rightarrow> 'a list \<Rightarrow> nat" where
  "std_search p [] = 0"
| "std_search p (x # xs) = (if take (length p) (x # xs) = p then 0 else Suc (std_search p xs))"

lemma std_find_le [simp]: "std_find c xs \<le> length xs"
  by (simp add: std_find_def length_takeWhile_le)

lemma std_find_append: "c \<notin> set xs \<Longrightarrow> std_find c (xs @ c # ys) = length xs"
  by (induction xs) (auto simp: std_find_def)

lemma std_find_notin: "std_find c xs = length xs \<longleftrightarrow> c \<notin> set xs"
  by (induction xs) (auto simp: std_find_def)

lemma std_find_nth: "std_find c xs < length xs \<Longrightarrow> xs ! std_find c xs = c"
  by (induction xs) (auto simp: std_find_def)

lemma std_find_take: "c \<notin> set (take (std_find c xs) xs)"
proof (induction xs)
  case (Cons x xs)
  then show ?case by (auto simp: std_find_def)
qed (simp add: std_find_def)

lemma std_search_le: "std_search p xs \<le> length xs"
  by (induction xs) auto

lemma std_search_found:
  "p \<noteq> [] \<Longrightarrow> std_search p xs < length xs \<Longrightarrow> take (length p) (drop (std_search p xs) xs) = p"
proof (induction xs)
  case (Cons x xs)
  show ?case
  proof (cases "take (length p) (x # xs) = p")
    case True
    then show ?thesis by simp
  next
    case False
    with Cons show ?thesis by simp
  qed
qed simp

lemma std_search_first:
  "i < std_search p xs \<Longrightarrow> take (length p) (drop i xs) \<noteq> p"
proof (induction xs arbitrary: i)
  case (Cons x xs)
  then show ?case by (cases i) (auto split: if_splits)
qed simp

lemma std_search_found_room:
  assumes "p \<noteq> []" "std_search p xs < length xs"
  shows "std_search p xs + length p \<le> length xs"
proof -
  have "length (take (length p) (drop (std_search p xs) xs)) = length p"
    using std_search_found [OF assms] by simp
  then show ?thesis using assms by (simp add: min_def split: if_splits)
qed

subsection \<open>Digits and decimal notation\<close>

definition digit_val :: "char \<Rightarrow> nat option" where
  "digit_val c = (let n = of_char c :: nat in
     if 48 \<le> n \<and> n \<le> 57 then Some (n - 48)
     else if 97 \<le> n \<and> n \<le> 122 then Some (n - 87)
     else if 65 \<le> n \<and> n \<le> 90 then Some (n - 55)
     else None)"

definition is_base_digit :: "nat \<Rightarrow> char \<Rightarrow> bool" where
  "is_base_digit b c = (case digit_val c of None \<Rightarrow> False | Some d \<Rightarrow> d < b)"

definition base_value :: "nat \<Rightarrow> string \<Rightarrow> nat" where
  "base_value b ds = foldl (\<lambda>a c. a * b + (case digit_val c of None \<Rightarrow> 0 | Some d \<Rightarrow> d)) 0 ds"

text \<open>\<^verbatim>\<open>std::to_string\<close> of an unsigned value.\<close>

fun dec_of_nat :: "nat \<Rightarrow> string" where
  "dec_of_nat n = (if n < 10 then [char_of (48 + n)] else dec_of_nat (n div 10) @ [char_of (48 + n mod 10)])"

declare dec_of_nat.simps [simp del]

definition dec_of_int :: "int \<Rightarrow> string" where
  "dec_of_int i = (if i < 0 then CHR ''-'' # dec_of_nat (nat (- i)) else dec_of_nat (nat i))"

lemma digit_val_dec: "d < 10 \<Longrightarrow> digit_val (char_of (48 + d)) = Some d"
  by (simp add: digit_val_def of_char_of)

lemma is_base_digit_dec: "d < 10 \<Longrightarrow> is_base_digit 10 (char_of (48 + d :: nat))"
  by (simp add: is_base_digit_def digit_val_dec)

lemma dec_of_nat_digits: "list_all (is_base_digit 10) (dec_of_nat n)"
proof (induction n rule: dec_of_nat.induct)
  case (1 n)
  then show ?case
    by (cases "n < 10") (simp_all add: dec_of_nat.simps [of n] is_base_digit_dec)
qed

lemma dec_of_nat_nonempty: "dec_of_nat n \<noteq> []"
  by (subst dec_of_nat.simps) simp

lemma base_value_append:
  "base_value b (xs @ [c]) = base_value b xs * b + (case digit_val c of None \<Rightarrow> 0 | Some d \<Rightarrow> d)"
  by (simp add: base_value_def)

lemma base_value_dec_of_nat: "base_value 10 (dec_of_nat n) = n"
proof (induction n rule: dec_of_nat.induct)
  case (1 n)
  show ?case
  proof (cases "n < 10")
    case True
    then show ?thesis by (simp add: dec_of_nat.simps [of n] base_value_def digit_val_dec)
  next
    case False
    with 1 have "base_value 10 (dec_of_nat (n div 10)) = n div 10" by simp
    with False show ?thesis
      by (simp add: dec_of_nat.simps [of n] base_value_append digit_val_dec)
  qed
qed

lemma length_dec_of_nat: "n < 10 ^ k \<Longrightarrow> 0 < k \<Longrightarrow> length (dec_of_nat n) \<le> k"
proof (induction k arbitrary: n)
  case (Suc k)
  show ?case
  proof (cases "n < 10")
    case True
    then show ?thesis by (subst dec_of_nat.simps) simp
  next
    case False
    then have "0 < k" using Suc.prems(1) by (cases k) auto
    moreover have "n div 10 < 10 ^ k" using Suc.prems(1) by (simp add: less_mult_imp_div_less mult.commute)
    ultimately have "length (dec_of_nat (n div 10)) \<le> k" using Suc.IH by blast
    then show ?thesis using False by (subst dec_of_nat.simps) simp
  qed
qed simp

lemma dec_of_nat_inj: "dec_of_nat m = dec_of_nat n \<Longrightarrow> m = n"
  by (metis base_value_dec_of_nat)

lemma dec_of_nat_no_leading_zero: "0 < n \<Longrightarrow> hd (dec_of_nat n) \<noteq> CHR ''0''"
proof (induction n rule: dec_of_nat.induct)
  case (1 n)
  show ?case
  proof (cases "n < 10")
    case True
    then have "digit_val (char_of (48 + n)) = Some n" by (rule digit_val_dec)
    moreover have "digit_val CHR ''0'' = Some 0" by (simp add: digit_val_def)
    ultimately have "char_of (48 + n) \<noteq> CHR ''0''" using "1.prems" by auto
    with True show ?thesis by (simp add: dec_of_nat.simps [of n])
  next
    case False
    with 1 have "hd (dec_of_nat (n div 10)) \<noteq> CHR ''0''" by simp
    with False show ?thesis
      by (simp add: dec_of_nat.simps [of n] dec_of_nat_nonempty hd_append)
  qed
qed

subsection \<open>C number parsing\<close>

text \<open>\<^verbatim>\<open>isspace\<close> of the C locale, and the common front of \<^verbatim>\<open>strtol\<close> and its relatives: blanks, a
  sign, then the longest run of digits of the base.\<close>

definition c_isspace :: "char \<Rightarrow> bool" where
  "c_isspace c = (let n = of_char c :: nat in n = 32 \<or> (9 \<le> n \<and> n \<le> 13))"

definition c_sign :: "string \<Rightarrow> bool \<times> string" where
  "c_sign s = (case s of [] \<Rightarrow> (False, [])
     | c # cs \<Rightarrow> if c = CHR ''-'' then (True, cs) else if c = CHR ''+'' then (False, cs) else (False, s))"

definition parse_int :: "string \<Rightarrow> int option" where
  "parse_int s =
     (let (neg, r) = c_sign (dropWhile c_isspace s);
          ds = takeWhile (is_base_digit 10) r
      in if ds = [] then None
         else Some (if neg then - int (base_value 10 ds) else int (base_value 10 ds)))"

text \<open>\<^verbatim>\<open>std::stoi\<close> throws when there is no number and when it does not fit an \<^verbatim>\<open>int\<close>.\<close>

definition stoi :: "string \<Rightarrow> int result" where
  "stoi s = (case parse_int s of None \<Rightarrow> Inl InvalidArgument
     | Some i \<Rightarrow> if - (2 ^ 31) \<le> i \<and> i < 2 ^ 31 then Inr i else Inl OutOfRange)"

text \<open>\<^verbatim>\<open>atoi\<close> is \<^verbatim>\<open>(int) strtol(s, NULL, 10)\<close>: \<^verbatim>\<open>strtol\<close> saturates at 64 bits, the cast keeps the
  low 32, and no number at all reads as 0.\<close>

definition atoi :: "string \<Rightarrow> int" where
  "atoi s = (case parse_int s of None \<Rightarrow> 0
     | Some i \<Rightarrow> sint (word_of_int (max (- (2 ^ 63)) (min (2 ^ 63 - 1) i)) :: 32 word))"

text \<open>\<^verbatim>\<open>strtoull(s, nullptr, 0)\<close>: base 16 after \<^verbatim>\<open>0x\<close>, base 8 after \<^verbatim>\<open>0\<close>, base 10 otherwise; a
  leading minus negates modulo \<open>2 ^ 64\<close> and an overflow saturates.\<close>

definition strtoull0 :: "string \<Rightarrow> 64 word" where
  "strtoull0 s =
     (let (neg, r) = c_sign (dropWhile c_isspace s);
          (b, ds) = (if take 1 r = ''0'' \<and> (take 1 (drop 1 r) = ''x'' \<or> take 1 (drop 1 r) = ''X'')
                        \<and> takeWhile (is_base_digit 16) (drop 2 r) \<noteq> []
                     then (16, takeWhile (is_base_digit 16) (drop 2 r))
                     else if take 1 r = ''0'' then (8, takeWhile (is_base_digit 8) r)
                     else (10, takeWhile (is_base_digit 10) r));
          v = base_value b ds
      in if 2 ^ 64 \<le> v then - 1 else if neg then - word_of_nat v else word_of_nat v)"

lemma is_base_digit_not_space:
  assumes "is_base_digit 10 c"
  shows "\<not> c_isspace c" "c \<noteq> CHR ''-''" "c \<noteq> CHR ''+''"
  using assms by (auto simp: is_base_digit_def digit_val_def c_isspace_def Let_def split: if_splits)

lemma front_of_dec:
  "c_sign (dropWhile c_isspace (dec_of_nat n)) = (False, dec_of_nat n)"
proof -
  obtain c cs where n: "dec_of_nat n = c # cs"
    using dec_of_nat_nonempty [of n] by (cases "dec_of_nat n") auto
  then have "is_base_digit 10 c" using dec_of_nat_digits [of n] by simp
  from is_base_digit_not_space [OF this] n show ?thesis by (simp add: c_sign_def)
qed

lemma takeWhile_dec_of_nat: "takeWhile (is_base_digit 10) (dec_of_nat n) = dec_of_nat n"
  using dec_of_nat_digits [of n] by (simp add: list_all_iff takeWhile_eq_all_conv)

lemma parse_int_dec: "parse_int (dec_of_nat n) = Some (int n)"
  by (simp add: parse_int_def front_of_dec takeWhile_dec_of_nat dec_of_nat_nonempty base_value_dec_of_nat)

lemma stoi_dec: "n < 2 ^ 31 \<Longrightarrow> stoi (dec_of_nat n) = Inr (int n)"
  by (simp add: stoi_def parse_int_dec)

lemma atoi_dec: "n < 2 ^ 31 \<Longrightarrow> atoi (dec_of_nat n) = int n"
  by (simp add: atoi_def parse_int_dec signed_of_nat signed_take_bit_int_eq_self)

lemma strtoull0_dec:
  assumes "n < 2 ^ 64"
  shows "strtoull0 (dec_of_nat n) = word_of_nat n"
proof (cases "n = 0")
  case True
  have zero: "dec_of_nat 0 = ''0''" by code_simp
  have "is_base_digit 8 CHR ''0''" "\<not> c_isspace CHR ''0''" "base_value 8 ''0'' = 0" by code_simp+
  then show ?thesis using True by (simp add: strtoull0_def zero c_sign_def)
next
  case False
  then have "hd (dec_of_nat n) \<noteq> CHR ''0''" by (simp add: dec_of_nat_no_leading_zero)
  then have "take 1 (dec_of_nat n) \<noteq> ''0''"
    using dec_of_nat_nonempty [of n] by (cases "dec_of_nat n") auto
  then show ?thesis using assms
    by (simp add: strtoull0_def front_of_dec takeWhile_dec_of_nat base_value_dec_of_nat)
qed

end
