(* ===== verification/Loops.thy ===== *)
theory Loops
  imports Prelude
begin

text \<open>
  The event loops (\<^verbatim>\<open>src/net/Loop.cc\<close>) and their manager (\<^verbatim>\<open>src/net/LoopMgr.cc\<close>).

  A \<^verbatim>\<open>Loop\<close> owns an \<^verbatim>\<open>asio::io_service\<close> and the thread that runs it. What the program relies on of
  the service is that posted handlers are run by that thread, one at a time, in the order they were
  posted, until the service is stopped: the service is the queue of posted handlers and its stop flag.
  The manager hands out loops round robin; its counter is the 64-bit \<^verbatim>\<open>size_t\<close> of the source.
\<close>

subsection \<open>One loop\<close>

record 'h Loop =
  test_name :: string
  posts :: "'h list"          \<comment> \<open>handlers posted to \<^verbatim>\<open>ios_\<close>\<close>
  ios_stopped :: bool
  joinable :: bool            \<comment> \<open>\<^verbatim>\<open>thread_\<close> refers to a running thread\<close>

definition mkLoop :: "string \<Rightarrow> 'h Loop" where
  "mkLoop str = \<lparr>test_name = str, posts = [], ios_stopped = False, joinable = False\<rparr>"

text \<open>Assigning to a joinable \<^verbatim>\<open>std::thread\<close> calls \<^verbatim>\<open>std::terminate\<close>.\<close>

definition loop_start :: "'h Loop \<Rightarrow> 'h Loop result" where
  "loop_start l = (if joinable l then Inl Terminated else Inr (l\<lparr>joinable := True\<rparr>))"

definition loop_stop :: "'h Loop \<Rightarrow> 'h Loop" where
  "loop_stop l = (let l = l\<lparr>ios_stopped := True\<rparr> in if joinable l then l\<lparr>joinable := False\<rparr> else l)"

definition runInLoop :: "'h \<Rightarrow> 'h Loop \<Rightarrow> 'h Loop" where
  "runInLoop cb l = l\<lparr>posts := posts l @ [cb]\<rparr>"

text \<open>\<^verbatim>\<open>Loop::run\<close>, one handler: the thread takes the oldest posted handler, or waits.\<close>

definition loop_run :: "'h Loop \<Rightarrow> ('h \<times> 'h Loop) option" where
  "loop_run l = (if joinable l \<and> \<not> ios_stopped l then
     (case posts l of [] \<Rightarrow> None | h # hs \<Rightarrow> Some (h, l\<lparr>posts := hs\<rparr>)) else None)"

fun run_all :: "nat \<Rightarrow> 'h Loop \<Rightarrow> 'h list \<times> 'h Loop" where
  "run_all 0 l = ([], l)"
| "run_all (Suc k) l = (case loop_run l of None \<Rightarrow> ([], l)
     | Some (h, l') \<Rightarrow> (let (hs, l'') = run_all k l' in (h # hs, l'')))"

lemma run_all_posted:
  assumes "joinable l" "\<not> ios_stopped l" "length (posts l) \<le> k"
  shows "run_all k l = (posts l, l\<lparr>posts := []\<rparr>)"
  using assms
proof (induction k arbitrary: l)
  case 0
  then show ?case by simp
next
  case (Suc k)
  then show ?case by (cases "posts l") (simp_all add: loop_run_def)
qed

lemma run_all_fold:
  assumes "joinable l" "\<not> ios_stopped l" "posts l = []" "length hs \<le> k"
  shows "fst (run_all k (fold runInLoop hs l)) = hs"
proof -
  have "joinable (fold runInLoop hs l) \<and> \<not> ios_stopped (fold runInLoop hs l)
      \<and> posts (fold runInLoop hs l) = posts l @ hs"
    using assms(1,2) by (induction hs arbitrary: l) (simp_all add: runInLoop_def)
  then show ?thesis using assms(3,4) run_all_posted [of "fold runInLoop hs l" k] by simp
qed

subsection \<open>The manager\<close>

record LoopMgr =
  loops :: "nat list"         \<comment> \<open>the loops, named by their position at construction\<close>
  next_index :: "64 word"     \<comment> \<open>\<^verbatim>\<open>next_\<close>\<close>

definition mkLoopMgr :: "nat \<Rightarrow> LoopMgr" where
  "mkLoopMgr thrnum = \<lparr>loops = [0..<thrnum], next_index = 0\<rparr>"

definition findNextLoop :: "LoopMgr \<Rightarrow> (nat \<times> LoopMgr) result" where
  "findNextLoop g = (
     let n = next_index g + 1;
         n = (if unat n = length (loops g) then 0 else n);
         g = g\<lparr>next_index := n\<rparr>
     in if unat n < length (loops g) then Inr (loops g ! unat n, g) else Inl OutOfBounds)"

fun start_loops :: "'h Loop list \<Rightarrow> 'h Loop list result" where
  "start_loops [] = Inr []"
| "start_loops (l # ls) = rbind (loop_start l) (\<lambda>l'. rbind (start_loops ls) (\<lambda>ls'. Inr (l' # ls')))"

definition stop_loops :: "'h Loop list \<Rightarrow> 'h Loop list" where
  "stop_loops ls = map loop_stop ls"

fun findNextLoops :: "nat \<Rightarrow> LoopMgr \<Rightarrow> (nat list \<times> LoopMgr) result" where
  "findNextLoops 0 g = Inr ([], g)"
| "findNextLoops (Suc k) g = rbind (findNextLoop g) (\<lambda>(l, g'). rbind (findNextLoops k g') (\<lambda>(ls, g''). Inr (l # ls, g'')))"

definition mgr_inv :: "LoopMgr \<Rightarrow> bool" where
  "mgr_inv g = (unat (next_index g) < length (loops g) \<and> length (loops g) < 2 ^ 64)"

lemma mgr_inv_mkLoopMgr: "0 < n \<Longrightarrow> n < 2 ^ 64 \<Longrightarrow> mgr_inv (mkLoopMgr n)"
  by (simp add: mgr_inv_def mkLoopMgr_def)

lemma findNextLoop_step:
  assumes "mgr_inv g"
  shows "\<exists>g'. findNextLoop g = Inr (loops g ! (Suc (unat (next_index g)) mod length (loops g)), g') \<and> mgr_inv g'
     \<and> loops g' = loops g \<and> unat (next_index g') = Suc (unat (next_index g)) mod length (loops g)"
proof -
  have lt: "Suc (unat (next_index g)) < 2 ^ 64" using assms by (simp add: mgr_inv_def)
  then have "unat (next_index g + 1) = Suc (unat (next_index g))"
    by (simp add: unat_word_ariths(1))
  then show ?thesis using assms by (auto simp: findNextLoop_def Let_def mgr_inv_def mod_if)
qed

lemma findNextLoops_from:
  assumes "mgr_inv g"
  shows "\<exists>g'. findNextLoops k g = Inr (map (\<lambda>i. loops g ! ((unat (next_index g) + i + 1) mod length (loops g))) [0..<k], g')
    \<and> mgr_inv g'"
  using assms
proof (induction k arbitrary: g)
  case 0
  then show ?case by simp
next
  case (Suc k)
  from findNextLoop_step [OF Suc.prems] obtain g1 where
    g1: "findNextLoop g = Inr (loops g ! (Suc (unat (next_index g)) mod length (loops g)), g1)" "mgr_inv g1"
      "loops g1 = loops g" "unat (next_index g1) = Suc (unat (next_index g)) mod length (loops g)" by blast
  from Suc.IH [OF g1(2)] obtain g2 where
    g2: "findNextLoops k g1 = Inr (map (\<lambda>i. loops g1 ! ((unat (next_index g1) + i + 1) mod length (loops g1))) [0..<k], g2)"
      "mgr_inv g2" by blast
  have "(Suc (unat (next_index g)) mod length (loops g) + i + 1) mod length (loops g)
      = (unat (next_index g) + Suc i + 1) mod length (loops g)" for i
    using mod_add_left_eq [of "Suc (unat (next_index g))" "length (loops g)" "i + 1"] by simp
  then show ?case using g1 g2 by (simp add: upt_conv_Cons map_Suc_upt [symmetric] del: upt_Suc)
qed

text \<open>C39: \<^verbatim>\<open>LoopMgr::findNextLoop\<close> is round robin: on a manager of \<open>n > 0\<close> loops the first \<open>k\<close> calls
  return the loops \<open>1, 2, ..., n - 1, 0, 1, ...\<close>, and never index outside the vector.\<close>

theorem findNextLoop_round_robin:
  assumes "0 < n" "n < 2 ^ 64"
  shows "\<exists>g. findNextLoops k (mkLoopMgr n) = Inr (map (\<lambda>i. (i + 1) mod n) [0..<k], g)"
proof -
  have eq: "(unat (next_index (mkLoopMgr n)) + i + 1) mod length (loops (mkLoopMgr n)) = (i + 1) mod n" for i
    by (simp add: mkLoopMgr_def)
  have nth: "loops (mkLoopMgr n) ! ((i + 1) mod n) = (i + 1) mod n" for i
    using assms(1) by (simp add: mkLoopMgr_def)
  show ?thesis using findNextLoops_from [OF mgr_inv_mkLoopMgr [OF assms], of k] unfolding eq nth by blast
qed

theorem findNextLoop_round_robin_witness:
  "\<exists>g. findNextLoops 4 (mkLoopMgr 3) = Inr ([1, 2, 0, 1], g)"
  using findNextLoop_round_robin [of 3 4] by (simp add: upt_rec flip: numeral_2_eq_2)

lemma findNextLoop_no_loops: "findNextLoop (mkLoopMgr 0) = Inl OutOfBounds"
  by (simp add: findNextLoop_def mkLoopMgr_def)

lemma start_loops_fresh:
  "(\<forall>l \<in> set ls. \<not> joinable l) \<Longrightarrow> start_loops ls = Inr (map (\<lambda>l. l\<lparr>joinable := True\<rparr>) ls)"
  by (induction ls) (simp_all add: loop_start_def)

lemma start_loops_twice: "ls \<noteq> [] \<Longrightarrow> joinable (hd ls) \<Longrightarrow> start_loops ls = Inl Terminated"
  by (cases ls) (simp_all add: loop_start_def)

end
