(* ===== verification/Common.thy ===== *)
theory Common
  imports Prelude
begin

text \<open>
  The helpers of \<^verbatim>\<open>src/common\<close>: tokenising (\<^verbatim>\<open>util.hpp\<close>) and the byte order conversions
  (\<^verbatim>\<open>EndianTransfer.h\<close>). Tokenising is shown to be the inverse of joining with the separator, the
  conversions to be involutions whose object representation is big endian.
\<close>

subsection \<open>\<^verbatim>\<open>common::split\<close>\<close>

text \<open>The loop over the characters keeps the token being read and the tokens finished so far.\<close>

fun split_loop :: "string \<Rightarrow> string \<Rightarrow> string \<Rightarrow> string list \<Rightarrow> string \<times> string list" where
  "split_loop sep [] s tokens = (s, tokens)"
| "split_loop sep (ch # src) s tokens =
     (if ch \<in> set sep then split_loop sep src [] (tokens @ [s])
      else split_loop sep src (s @ [ch]) tokens)"

definition split :: "string \<Rightarrow> string \<Rightarrow> string list" where
  "split src sep =
     (let (s, tokens) = split_loop sep src [] []
      in if s \<noteq> [] \<or> tokens \<noteq> [] then tokens @ [s] else tokens)"

fun join :: "string \<Rightarrow> string list \<Rightarrow> string" where
  "join sep [] = []"
| "join sep [t] = t"
| "join sep (t # u # ts) = t @ sep @ join sep (u # ts)"

lemma join_snoc: "ts \<noteq> [] \<Longrightarrow> join sep (ts @ [t]) = join sep ts @ sep @ t"
proof (induction sep ts rule: join.induct)
  case (3 sep t u ts)
  then show ?case by simp
qed auto

lemma split_loop_join:
  "split_loop [c] src s tokens = (s', tokens') \<Longrightarrow>
     join [c] (tokens' @ [s']) = join [c] (tokens @ [s]) @ src"
proof (induction src arbitrary: s tokens)
  case (Cons ch src)
  show ?case
  proof (cases "ch = c")
    case True
    with Cons have "join [c] (tokens' @ [s']) = join [c] (tokens @ [s] @ [[]]) @ src" by force
    with True show ?thesis using join_snoc [of "tokens @ [s]" "[c]" "[]"] by simp
  next
    case False
    with Cons have "join [c] (tokens' @ [s']) = join [c] (tokens @ [s @ [ch]]) @ src" by force
    moreover have "join [c] (tokens @ [s @ [ch]]) = join [c] (tokens @ [s]) @ [ch]"
      by (cases "tokens = []") (simp_all add: join_snoc)
    ultimately show ?thesis by simp
  qed
qed simp

lemma split_loop_free:
  "split_loop sep src s tokens = (s', tokens') \<Longrightarrow> set s \<inter> set sep = {} \<Longrightarrow>
     (\<forall>t \<in> set tokens. set t \<inter> set sep = {}) \<Longrightarrow>
     set s' \<inter> set sep = {} \<and> (\<forall>t \<in> set tokens'. set t \<inter> set sep = {})"
proof (induction src arbitrary: s tokens)
  case (Cons ch src)
  show ?case
  proof (cases "ch \<in> set sep")
    case True
    with Cons.prems have "split_loop sep src [] (tokens @ [s]) = (s', tokens')" by simp
    from Cons.IH [OF this] show ?thesis using Cons.prems(2,3) by auto
  next
    case False
    with Cons.prems have "split_loop sep src (s @ [ch]) tokens = (s', tokens')" by simp
    from Cons.IH [OF this] show ?thesis using False Cons.prems(2,3) by auto
  qed
qed simp

lemma split_tokens_free: "t \<in> set (split src sep) \<Longrightarrow> set t \<inter> set sep = {}"
  using split_loop_free [of sep src "[]" "[]"]
  by (cases "split_loop sep src [] []") (auto simp: split_def split: if_splits)

lemma join_split: "join [c] (split src [c]) = src"
proof -
  obtain s tokens where l: "split_loop [c] src [] [] = (s, tokens)" by fastforce
  from split_loop_join [OF l] have "join [c] (tokens @ [s]) = src" by simp
  then show ?thesis by (auto simp: split_def l)
qed

lemma split_loop_word:
  "set w \<inter> set sep = {} \<Longrightarrow> split_loop sep (w @ src) s tokens = split_loop sep src (s @ w) tokens"
  by (induction w arbitrary: s) auto

lemma split_loop_join_tokens:
  "\<forall>t \<in> set (t # ts). c \<notin> set t \<Longrightarrow>
     split_loop [c] (join [c] (t # ts)) [] tokens = (last (t # ts), tokens @ butlast (t # ts))"
proof (induction ts arbitrary: t tokens)
  case Nil
  then show ?case using split_loop_word [of t "[c]" "[]" "[]" tokens] by simp
next
  case (Cons u ts)
  have "split_loop [c] (t @ c # join [c] (u # ts)) [] tokens
        = split_loop [c] (join [c] (u # ts)) [] (tokens @ [t])"
    using Cons.prems split_loop_word [of t "[c]" "c # join [c] (u # ts)" "[]" tokens] by simp
  with Cons show ?case by simp
qed

lemma split_join:
  assumes "ts \<noteq> []" "ts \<noteq> [[]]" "\<forall>t \<in> set ts. c \<notin> set t"
  shows "split (join [c] ts) [c] = ts"
proof -
  obtain t us where ts: "ts = t # us" using assms(1) by (cases ts) auto
  have "split_loop [c] (join [c] ts) [] [] = (last ts, butlast ts)"
    using split_loop_join_tokens [of t us c "[]"] assms(3) by (simp add: ts)
  moreover have "last ts \<noteq> [] \<or> butlast ts \<noteq> []"
    using assms(2) ts by (cases us) auto
  ultimately show ?thesis using assms(1) by (simp add: split_def)
qed

subsection \<open>Byte order\<close>

text \<open>On a little-endian host \<^verbatim>\<open>htobe64\<close> and \<^verbatim>\<open>be64toh\<close> (and their narrower versions) reverse the
  bytes of the object representation.\<close>

definition byte_swap :: "'a::len word \<Rightarrow> 'a word" where
  "byte_swap w = of_mem_bytes (rev (mem_bytes w))"

definition hostToNetwork64 :: "64 word \<Rightarrow> 64 word" where
  "hostToNetwork64 host64 = byte_swap host64"

definition hostToNetwork32 :: "32 word \<Rightarrow> 32 word" where
  "hostToNetwork32 host32 = byte_swap host32"

definition hostToNetwork16 :: "16 word \<Rightarrow> 16 word" where
  "hostToNetwork16 host16 = byte_swap host16"

definition networkToHost64 :: "64 word \<Rightarrow> 64 word" where
  "networkToHost64 net64 = byte_swap net64"

definition networkToHost32 :: "32 word \<Rightarrow> 32 word" where
  "networkToHost32 net32 = byte_swap net32"

definition networkToHost16 :: "16 word \<Rightarrow> 16 word" where
  "networkToHost16 net16 = byte_swap net16"

text \<open>The specification of the wire: most significant byte first.\<close>

definition be_bytes :: "'a::len word \<Rightarrow> byte list" where
  "be_bytes w = rev (mem_bytes w)"

lemma length_be_bytes [simp]: "length (be_bytes (w :: 'a::len word)) = LENGTH('a) div 8"
  by (simp add: be_bytes_def)

lemma mem_bytes_byte_swap: "8 dvd LENGTH('a) \<Longrightarrow> mem_bytes (byte_swap w) = be_bytes (w :: 'a::len word)"
  by (simp add: byte_swap_def be_bytes_def mem_bytes_of_mem_bytes)

lemma byte_swap_of_be: "8 dvd LENGTH('a) \<Longrightarrow> byte_swap (of_mem_bytes (be_bytes w)) = (w :: 'a::len word)"
  by (simp add: byte_swap_def be_bytes_def mem_bytes_of_mem_bytes of_mem_bytes_mem_bytes)

lemmas to_network_bytes [simp] =
  mem_bytes_byte_swap [where 'a = 64, folded hostToNetwork64_def, simplified]
  mem_bytes_byte_swap [where 'a = 32, folded hostToNetwork32_def, simplified]
  mem_bytes_byte_swap [where 'a = 16, folded hostToNetwork16_def, simplified]

lemmas of_network_bytes [simp] =
  byte_swap_of_be [where 'a = 64, folded networkToHost64_def, simplified]
  byte_swap_of_be [where 'a = 32, folded networkToHost32_def, simplified]
  byte_swap_of_be [where 'a = 16, folded networkToHost16_def, simplified]

lemma be_bytes_inj: "8 dvd LENGTH('a) \<Longrightarrow> be_bytes v = be_bytes w \<Longrightarrow> v = (w :: 'a::len word)"
  by (metis byte_swap_of_be)

end
