(* ===== verification/ByteQueue.thy ===== *)
theory ByteQueue
  imports Prelude
begin

text \<open>
  The contract a byte buffer offers its clients, as a locale: an invariant, the bytes it holds, and
  the effect of appending and retrieving on them. The clients' facts about runs of operations
  (several appends in a row, append then retrieve) are proved once here; \<^verbatim>\<open>common/Buffer.h\<close> is shown
  to satisfy the contract in \<open>BufferModel\<close>.
\<close>

text \<open>A run of \<^verbatim>\<open>output->append(..)\<close> calls.\<close>

fun append_all :: "('d \<Rightarrow> 'b \<Rightarrow> 'b result) \<Rightarrow> 'd list \<Rightarrow> 'b \<Rightarrow> 'b result" where
  "append_all app [] b = Inr b"
| "append_all app (d # ds) b = rbind (app d b) (append_all app ds)"

lemma append_all_append:
  "append_all app (xs @ ys) b = rbind (append_all app xs b) (append_all app ys)"
  by (induction xs arbitrary: b) (auto simp: rbind_def split: sum.splits)

locale byte_queue =
  fixes inv :: "'b \<Rightarrow> bool"
    and bytes :: "'b \<Rightarrow> byte list"
    and app :: "byte list \<Rightarrow> 'b \<Rightarrow> 'b result"
    and ret :: "nat \<Rightarrow> 'b \<Rightarrow> 'b result"
  assumes app_spec: "inv b \<Longrightarrow> \<exists>b'. app d b = Inr b' \<and> inv b' \<and> bytes b' = bytes b @ d"
    and ret_spec: "inv b \<Longrightarrow> n \<le> length (bytes b) \<Longrightarrow>
      \<exists>b'. ret n b = Inr b' \<and> inv b' \<and> bytes b' = drop n (bytes b)"
    and ret_fault: "inv b \<Longrightarrow> length (bytes b) < n \<Longrightarrow> ret n b = Inl AssertionFailed"
begin

lemma append_all_spec:
  "inv b \<Longrightarrow> \<exists>b'. append_all app ds b = Inr b' \<and> inv b' \<and> bytes b' = bytes b @ concat ds"
proof (induction ds arbitrary: b)
  case Nil
  then show ?case by simp
next
  case (Cons d ds)
  from app_spec [OF Cons.prems] obtain b1
    where b1: "app d b = Inr b1" "inv b1" "bytes b1 = bytes b @ d" by blast
  from Cons.IH [OF b1(2)] b1 show ?case by auto
qed

lemma append_then_retrieve:
  assumes "inv b" "bytes b = []"
  shows "\<exists>b1 b2. app (d @ rest) b = Inr b1 \<and> ret (length d) b1 = Inr b2 \<and> inv b2 \<and> bytes b2 = rest"
proof -
  from app_spec [OF assms(1), of "d @ rest"] obtain b1
    where b1: "app (d @ rest) b = Inr b1" "inv b1" "bytes b1 = d @ rest" using assms(2) by auto
  from ret_spec [OF b1(2), of "length d"] b1 show ?thesis by auto
qed

lemma ret_append:
  assumes "inv b" "m + n \<le> length (bytes b)"
  shows "\<exists>b1 b2. ret m b = Inr b1 \<and> ret n b1 = Inr b2 \<and> inv b2 \<and> bytes b2 = drop (m + n) (bytes b)"
proof -
  from ret_spec [OF assms(1), of m] assms(2) obtain b1
    where b1: "ret m b = Inr b1" "inv b1" "bytes b1 = drop m (bytes b)" by auto
  moreover from b1 assms(2) have "n \<le> length (bytes b1)" by simp
  from ret_spec [OF b1(2) this] obtain b2
    where "ret n b1 = Inr b2" "inv b2" "bytes b2 = drop n (bytes b1)" by blast
  ultimately show ?thesis by (auto simp: add.commute)
qed

lemma ret_defined_iff: "inv b \<Longrightarrow> (\<exists>b'. ret n b = Inr b') \<longleftrightarrow> n \<le> length (bytes b)"
  using ret_spec ret_fault by (metis Inl_Inr_False leI)

end

end
