(* ===== verification/BufferModel.thy ===== *)
theory BufferModel
  imports Common ByteQueue
begin

text \<open>
  \<^verbatim>\<open>common/Buffer.h\<close>: the byte buffer under every connection. The record \<open>Buffer\<close> has the vector and
  the two indices of the class; a pointer into the buffer is its offset from \<^verbatim>\<open>begin()\<close>. Sizes are
  natural numbers: every subtraction of the source is guarded by an assertion that is part of the
  model, and no vector reaches \<open>2 ^ 64\<close> bytes.

  \<open>content\<close> is the abstraction: the bytes between the two indices. The lemmas say that, on it, the
  class is a byte queue (\<open>append_bytes\<close> adds at the end, \<open>retrieve\<close> drops from the front, \<open>prepend\<close>
  pushes in front), that the index invariant is kept, and that the assertions inside
  \<^verbatim>\<open>makeSpace\<close> and \<^verbatim>\<open>ensureWritableBytes\<close> cannot fail. The locale \<open>byte_queue\<close> states that contract
  for the clients.
\<close>

named_theorems buffer_defs \<open>definitions of the buffer operations\<close>

subsection \<open>State\<close>

abbreviation NUL :: byte where "NUL \<equiv> CHR 0x00"

definition kCheapPrepend :: nat where [simp]: "kCheapPrepend = 8"
definition kInitialSize :: nat where [simp]: "kInitialSize = 1024"

definition kCRLF :: "byte list" where "kCRLF = [CHR 0x0D, CHR 0x0A]"

record Buffer =
  store :: "byte list"
  readerIndex :: nat
  writerIndex :: nat

definition mkBuffer :: "nat \<Rightarrow> Buffer" where
  "mkBuffer initialSize =
     \<lparr>store = replicate (kCheapPrepend + initialSize) NUL,
      readerIndex = kCheapPrepend, writerIndex = kCheapPrepend\<rparr>"

definition swap_buffers :: "Buffer \<Rightarrow> Buffer \<Rightarrow> Buffer \<times> Buffer" where
  "swap_buffers b rhs =
     (b\<lparr>store := store rhs, readerIndex := readerIndex rhs, writerIndex := writerIndex rhs\<rparr>,
      rhs\<lparr>store := store b, readerIndex := readerIndex b, writerIndex := writerIndex b\<rparr>)"

definition readableBytes :: "Buffer \<Rightarrow> nat" where
  "readableBytes b = writerIndex b - readerIndex b"

definition writableBytes :: "Buffer \<Rightarrow> nat" where
  "writableBytes b = length (store b) - writerIndex b"

definition prependableBytes :: "Buffer \<Rightarrow> nat" where
  "prependableBytes b = readerIndex b"

definition peek :: "Buffer \<Rightarrow> nat" where
  "peek b = readerIndex b"

definition beginWrite :: "Buffer \<Rightarrow> nat" where
  "beginWrite b = writerIndex b"

text \<open>Reading \<open>n\<close> bytes at an offset of the storage, and the readable bytes.\<close>

definition bytes_at :: "Buffer \<Rightarrow> nat \<Rightarrow> nat \<Rightarrow> byte list" where
  "bytes_at b off n = take n (drop off (store b))"

definition content :: "Buffer \<Rightarrow> byte list" where
  "content b = bytes_at b (readerIndex b) (readableBytes b)"

definition buf_inv :: "Buffer \<Rightarrow> bool" where
  "buf_inv b \<longleftrightarrow> readerIndex b \<le> writerIndex b \<and> writerIndex b \<le> length (store b)
     \<and> kCheapPrepend \<le> length (store b)"

subsection \<open>Searching\<close>

definition findCRLF_from :: "nat \<Rightarrow> Buffer \<Rightarrow> nat option result" where
  "findCRLF_from start b =
     rbind (assert_that (peek b \<le> start)) (\<lambda>_.
     rbind (assert_that (start \<le> beginWrite b)) (\<lambda>_.
       let crlf = start + std_search kCRLF (bytes_at b start (beginWrite b - start))
       in Inr (if crlf = beginWrite b then None else Some crlf)))"

definition findCRLF :: "Buffer \<Rightarrow> nat option" where
  "findCRLF b =
     (let crlf = peek b + std_search kCRLF (bytes_at b (peek b) (beginWrite b - peek b))
      in if crlf = beginWrite b then None else Some crlf)"

definition memchr :: "byte \<Rightarrow> byte list \<Rightarrow> nat option" where
  "memchr c xs = (if std_find c xs = length xs then None else Some (std_find c xs))"

definition findEOL :: "Buffer \<Rightarrow> nat option" where
  "findEOL b = map_option (\<lambda>i. peek b + i) (memchr (CHR 0x0A) (bytes_at b (peek b) (readableBytes b)))"

definition findEOL_from :: "nat \<Rightarrow> Buffer \<Rightarrow> nat option result" where
  "findEOL_from start b =
     rbind (assert_that (peek b \<le> start)) (\<lambda>_.
     rbind (assert_that (start \<le> beginWrite b)) (\<lambda>_.
       Inr (map_option (\<lambda>i. start + i) (memchr (CHR 0x0A) (bytes_at b start (beginWrite b - start))))))"

subsection \<open>Consuming\<close>

definition retrieveAll :: "Buffer \<Rightarrow> Buffer" where
  "retrieveAll b = b\<lparr>readerIndex := kCheapPrepend, writerIndex := kCheapPrepend\<rparr>"

definition retrieve :: "nat \<Rightarrow> Buffer \<Rightarrow> Buffer result" where
  "retrieve len b =
     rbind (assert_that (len \<le> readableBytes b)) (\<lambda>_.
       if len < readableBytes b then Inr (b\<lparr>readerIndex := readerIndex b + len\<rparr>)
       else Inr (retrieveAll b))"

definition retrieveUntil :: "nat \<Rightarrow> Buffer \<Rightarrow> Buffer result" where
  "retrieveUntil e b =
     rbind (assert_that (peek b \<le> e)) (\<lambda>_.
     rbind (assert_that (e \<le> beginWrite b)) (\<lambda>_. retrieve (e - peek b) b))"

definition retrieveInt64 :: "Buffer \<Rightarrow> Buffer result" where "retrieveInt64 b = retrieve 8 b"
definition retrieveInt32 :: "Buffer \<Rightarrow> Buffer result" where "retrieveInt32 b = retrieve 4 b"
definition retrieveInt16 :: "Buffer \<Rightarrow> Buffer result" where "retrieveInt16 b = retrieve 2 b"
definition retrieveInt8 :: "Buffer \<Rightarrow> Buffer result" where "retrieveInt8 b = retrieve 1 b"

definition retrieveAsString :: "nat \<Rightarrow> Buffer \<Rightarrow> (string \<times> Buffer) result" where
  "retrieveAsString len b =
     rbind (assert_that (len \<le> readableBytes b)) (\<lambda>_.
       let res = bytes_at b (peek b) len
       in rbind (retrieve len b) (\<lambda>b'. Inr (res, b')))"

definition retrieveAllAsString :: "Buffer \<Rightarrow> (string \<times> Buffer) result" where
  "retrieveAllAsString b = retrieveAsString (readableBytes b) b"

subsection \<open>Appending\<close>

definition resize :: "nat \<Rightarrow> byte list \<Rightarrow> byte list" where
  "resize n xs = take n xs @ replicate (n - length xs) NUL"

definition makeSpace :: "nat \<Rightarrow> Buffer \<Rightarrow> Buffer result" where
  "makeSpace len b =
     (if writableBytes b + prependableBytes b < len + kCheapPrepend
      then Inr (b\<lparr>store := resize (writerIndex b + len) (store b)\<rparr>)
      else rbind (assert_that (kCheapPrepend < readerIndex b)) (\<lambda>_.
        let readable = readableBytes b;
            b' = b\<lparr>store := overwrite kCheapPrepend (bytes_at b (readerIndex b) readable) (store b),
                   readerIndex := kCheapPrepend,
                   writerIndex := kCheapPrepend + readable\<rparr>
        in rbind (assert_that (readable = readableBytes b')) (\<lambda>_. Inr b')))"

definition ensureWritableBytes :: "nat \<Rightarrow> Buffer \<Rightarrow> Buffer result" where
  "ensureWritableBytes len b =
     rbind (if writableBytes b < len then makeSpace len b else Inr b) (\<lambda>b'.
     rbind (assert_that (len \<le> writableBytes b')) (\<lambda>_. Inr b'))"

definition hasWritten :: "nat \<Rightarrow> Buffer \<Rightarrow> Buffer result" where
  "hasWritten len b =
     rbind (assert_that (len \<le> writableBytes b)) (\<lambda>_. Inr (b\<lparr>writerIndex := writerIndex b + len\<rparr>))"

definition unwrite :: "nat \<Rightarrow> Buffer \<Rightarrow> Buffer result" where
  "unwrite len b =
     rbind (assert_that (len \<le> readableBytes b)) (\<lambda>_. Inr (b\<lparr>writerIndex := writerIndex b - len\<rparr>))"

text \<open>\<^verbatim>\<open>std::copy(data, data + len, beginWrite())\<close>\<close>

definition copy_to_write :: "byte list \<Rightarrow> Buffer \<Rightarrow> Buffer" where
  "copy_to_write d b = b\<lparr>store := overwrite (beginWrite b) d (store b)\<rparr>"

definition append_bytes :: "byte list \<Rightarrow> Buffer \<Rightarrow> Buffer result" where
  "append_bytes d b =
     rbind (ensureWritableBytes (length d) b) (\<lambda>b'. hasWritten (length d) (copy_to_write d b'))"

text \<open>The overload for a C string stops at the first NUL, the one for \<^verbatim>\<open>std::string\<close> does not.\<close>

definition append_cstr :: "string \<Rightarrow> Buffer \<Rightarrow> Buffer result" where
  "append_cstr s b = append_bytes (takeWhile (\<lambda>c. c \<noteq> NUL) s) b"

definition append_string :: "string \<Rightarrow> Buffer \<Rightarrow> Buffer result" where
  "append_string s b = append_bytes s b"

definition appendInt64 :: "64 word \<Rightarrow> Buffer \<Rightarrow> Buffer result" where
  "appendInt64 x b = append_bytes (mem_bytes (hostToNetwork64 x)) b"
definition appendInt32 :: "32 word \<Rightarrow> Buffer \<Rightarrow> Buffer result" where
  "appendInt32 x b = append_bytes (mem_bytes (hostToNetwork32 x)) b"
definition appendInt16 :: "16 word \<Rightarrow> Buffer \<Rightarrow> Buffer result" where
  "appendInt16 x b = append_bytes (mem_bytes (hostToNetwork16 x)) b"
definition appendInt8 :: "8 word \<Rightarrow> Buffer \<Rightarrow> Buffer result" where
  "appendInt8 x b = append_bytes (mem_bytes x) b"

definition prepend :: "byte list \<Rightarrow> Buffer \<Rightarrow> Buffer result" where
  "prepend d b =
     rbind (assert_that (length d \<le> prependableBytes b)) (\<lambda>_.
       let r = readerIndex b - length d
       in Inr (b\<lparr>store := overwrite r d (store b), readerIndex := r\<rparr>))"

definition prependInt64 :: "64 word \<Rightarrow> Buffer \<Rightarrow> Buffer result" where
  "prependInt64 x b = prepend (mem_bytes (hostToNetwork64 x)) b"
definition prependInt32 :: "32 word \<Rightarrow> Buffer \<Rightarrow> Buffer result" where
  "prependInt32 x b = prepend (mem_bytes (hostToNetwork32 x)) b"
definition prependInt16 :: "16 word \<Rightarrow> Buffer \<Rightarrow> Buffer result" where
  "prependInt16 x b = prepend (mem_bytes (hostToNetwork16 x)) b"
definition prependInt8 :: "8 word \<Rightarrow> Buffer \<Rightarrow> Buffer result" where
  "prependInt8 x b = prepend (mem_bytes x) b"

subsection \<open>Reading integers\<close>

definition peekInt64 :: "Buffer \<Rightarrow> 64 word result" where
  "peekInt64 b = rbind (assert_that (8 \<le> readableBytes b)) (\<lambda>_.
     Inr (networkToHost64 (of_mem_bytes (bytes_at b (peek b) 8))))"
definition peekInt32 :: "Buffer \<Rightarrow> 32 word result" where
  "peekInt32 b = rbind (assert_that (4 \<le> readableBytes b)) (\<lambda>_.
     Inr (networkToHost32 (of_mem_bytes (bytes_at b (peek b) 4))))"
definition peekInt16 :: "Buffer \<Rightarrow> 16 word result" where
  "peekInt16 b = rbind (assert_that (2 \<le> readableBytes b)) (\<lambda>_.
     Inr (networkToHost16 (of_mem_bytes (bytes_at b (peek b) 2))))"
definition peekInt8 :: "Buffer \<Rightarrow> 8 word result" where
  "peekInt8 b = rbind (assert_that (1 \<le> readableBytes b)) (\<lambda>_.
     Inr (of_mem_bytes (bytes_at b (peek b) 1)))"

definition readInt64 :: "Buffer \<Rightarrow> (64 word \<times> Buffer) result" where
  "readInt64 b = rbind (peekInt64 b) (\<lambda>x. rbind (retrieveInt64 b) (\<lambda>b'. Inr (x, b')))"
definition readInt32 :: "Buffer \<Rightarrow> (32 word \<times> Buffer) result" where
  "readInt32 b = rbind (peekInt32 b) (\<lambda>x. rbind (retrieveInt32 b) (\<lambda>b'. Inr (x, b')))"
definition readInt16 :: "Buffer \<Rightarrow> (16 word \<times> Buffer) result" where
  "readInt16 b = rbind (peekInt16 b) (\<lambda>x. rbind (retrieveInt16 b) (\<lambda>b'. Inr (x, b')))"
definition readInt8 :: "Buffer \<Rightarrow> (8 word \<times> Buffer) result" where
  "readInt8 b = rbind (peekInt8 b) (\<lambda>x. rbind (retrieveInt8 b) (\<lambda>b'. Inr (x, b')))"

lemmas buffer_index_defs [buffer_defs] =
  readableBytes_def writableBytes_def prependableBytes_def peek_def beginWrite_def
  bytes_at_def content_def buf_inv_def


subsection \<open>Invariant and abstraction\<close>

text \<open>Headroom: the cheap-prepend area in front of the readable bytes is still free. It holds until
  the first \<open>prepend\<close>.\<close>

definition headroom_inv :: "Buffer \<Rightarrow> bool" where
  "headroom_inv b \<longleftrightarrow> buf_inv b \<and> kCheapPrepend \<le> readerIndex b"

lemma length_content [simp]: "buf_inv b \<Longrightarrow> length (content b) = readableBytes b"
  by (auto simp: buffer_defs)

lemma headroom_inv_mkBuffer [simp]: "headroom_inv (mkBuffer n)"
  by (simp add: headroom_inv_def mkBuffer_def buf_inv_def)

lemma buf_inv_mkBuffer [simp]: "buf_inv (mkBuffer n)"
  using headroom_inv_mkBuffer by (simp add: headroom_inv_def)

lemma content_mkBuffer [simp]: "content (mkBuffer n) = []"
  by (simp add: mkBuffer_def buffer_defs)

lemma writable_mkBuffer [simp]: "writableBytes (mkBuffer n) = n"
  by (simp add: mkBuffer_def buffer_defs)

lemma retrieve_Inr:
  assumes "buf_inv b" "n \<le> readableBytes b"
  obtains b' where "retrieve n b = Inr b'" "buf_inv b'" "content b' = drop n (content b)"
    "headroom_inv b \<longrightarrow> headroom_inv b'" "store b' = store b"
proof (cases "n < readableBytes b")
  case True
  let ?b = "b\<lparr>readerIndex := readerIndex b + n\<rparr>"
  have "retrieve n b = Inr ?b" using assms True by (simp add: retrieve_def)
  moreover have "buf_inv ?b" using assms True by (auto simp: buffer_defs)
  moreover have "content ?b = drop n (content b)" using assms True
    by (simp add: buffer_defs drop_take add.commute)
  ultimately show thesis using that by (simp add: headroom_inv_def)
next
  case False
  then have "n = readableBytes b" using assms by simp
  then have "retrieve n b = Inr (retrieveAll b)" by (simp add: retrieve_def)
  moreover have "buf_inv (retrieveAll b)" using assms by (auto simp: buffer_defs retrieveAll_def)
  moreover have "content (retrieveAll b) = drop n (content b)"
    using \<open>n = readableBytes b\<close> assms(1) by (simp add: buffer_defs retrieveAll_def)
  ultimately show thesis using that by (simp add: headroom_inv_def retrieveAll_def)
qed

lemma retrieve_writable:
  assumes "headroom_inv b" "retrieve n b = Inr b'"
  shows "writableBytes b \<le> writableBytes b'"
  using assms
  by (auto simp: retrieve_def result_simps retrieveAll_def headroom_inv_def buffer_defs split: if_splits)

lemma retrieve_fault_iff: "retrieve n b = Inl e \<longleftrightarrow> e = AssertionFailed \<and> readableBytes b < n"
  by (auto simp: retrieve_def assert_that_def)

text \<open>\<^verbatim>\<open>makeSpace\<close> is only called when there is not enough room, and then neither its assertions nor the
  one of \<^verbatim>\<open>ensureWritableBytes\<close> can fail: the branch that moves the data is taken only if more than
  \<^verbatim>\<open>kCheapPrepend\<close> bytes have been consumed.\<close>

lemma makeSpace_Inr:
  assumes "buf_inv b" "writableBytes b < n"
  obtains b' where "makeSpace n b = Inr b'" "buf_inv b'" "content b' = content b"
    "n \<le> writableBytes b'" "headroom_inv b \<longrightarrow> headroom_inv b'"
proof (cases "writableBytes b + prependableBytes b < n + kCheapPrepend")
  case True
  let ?b = "b\<lparr>store := resize (writerIndex b + n) (store b)\<rparr>"
  have len: "length (store b) \<le> writerIndex b + n" using assms by (auto simp: buffer_defs)
  have "makeSpace n b = Inr ?b" using True by (simp add: makeSpace_def)
  moreover have "buf_inv ?b" using assms len by (auto simp: buffer_defs resize_def)
  moreover have "content ?b = content b" using assms len by (simp add: buffer_defs resize_def)
  moreover have "n \<le> writableBytes ?b" using len by (simp add: buffer_defs resize_def)
  ultimately show thesis using that by (simp add: headroom_inv_def)
next
  case False
  have moved: "kCheapPrepend < readerIndex b" using False assms by (simp add: buffer_defs)
  let ?c = "bytes_at b (readerIndex b) (readableBytes b)"
  let ?b = "b\<lparr>store := overwrite kCheapPrepend ?c (store b), readerIndex := kCheapPrepend,
              writerIndex := kCheapPrepend + readableBytes b\<rparr>"
  have clen: "length ?c = readableBytes b" using assms by (auto simp: buffer_defs)
  have room: "kCheapPrepend + length ?c \<le> length (store b)"
    using assms moved clen by (auto simp: buffer_defs)
  have "makeSpace n b = Inr ?b"
    using False moved by (simp add: makeSpace_def Let_def) (simp add: readableBytes_def)
  moreover have "buf_inv ?b" using room clen assms by (simp add: buf_inv_def)
  moreover have "content ?b = content b"
    using slice_overwrite [OF room] clen by (simp add: content_def bytes_at_def readableBytes_def)
  moreover have "n \<le> writableBytes ?b"
    using False assms moved room clen by (auto simp: buffer_defs)
  ultimately show thesis using that by (simp add: headroom_inv_def)
qed

lemma ensureWritable_Inr:
  assumes "buf_inv b"
  obtains b' where "ensureWritableBytes n b = Inr b'" "buf_inv b'" "content b' = content b"
    "n \<le> writableBytes b'" "headroom_inv b \<longrightarrow> headroom_inv b'"
proof (cases "writableBytes b < n")
  case True
  from makeSpace_Inr [OF assms True] obtain b' where "makeSpace n b = Inr b'" "buf_inv b'"
    "content b' = content b" "n \<le> writableBytes b'" "headroom_inv b \<longrightarrow> headroom_inv b'" .
  with True show thesis by (intro that) (simp_all add: ensureWritableBytes_def)
next
  case False
  with assms show thesis using that [of b] by (simp add: ensureWritableBytes_def assert_that_def)
qed

lemma write_Inr:
  assumes "buf_inv b" "length d \<le> writableBytes b"
  obtains b' where "hasWritten (length d) (copy_to_write d b) = Inr b'" "buf_inv b'"
    "content b' = content b @ d" "headroom_inv b \<longrightarrow> headroom_inv b'"
    "writableBytes b' = writableBytes b - length d"
proof
  let ?w = "copy_to_write d b"
  let ?b = "?w\<lparr>writerIndex := writerIndex b + length d\<rparr>"
  have room: "writerIndex b + length d \<le> length (store b)" using assms by (auto simp: buffer_defs)
  then show "hasWritten (length d) ?w = Inr ?b"
    by (auto simp: hasWritten_def copy_to_write_def buffer_defs assert_that_def)
  show "buf_inv ?b" using assms room by (simp add: copy_to_write_def buffer_defs)
  show "content ?b = content b @ d"
    using assms room slice_before_overwrite [of "readerIndex b" "writerIndex b" d "store b"]
    by (simp add: copy_to_write_def buffer_defs)
  then show "headroom_inv b \<longrightarrow> headroom_inv ?b" using \<open>buf_inv ?b\<close>
    by (simp add: headroom_inv_def copy_to_write_def)
  show "writableBytes ?b = writableBytes b - length d" using room
    by (simp add: copy_to_write_def buffer_defs)
qed

lemma append_Inr:
  assumes "buf_inv b"
  obtains b' where "append_bytes d b = Inr b'" "buf_inv b'" "content b' = content b @ d"
    "headroom_inv b \<longrightarrow> headroom_inv b'"
proof -
  from ensureWritable_Inr [OF assms] obtain b1 where b1: "ensureWritableBytes (length d) b = Inr b1"
    "buf_inv b1" "content b1 = content b" "length d \<le> writableBytes b1"
    "headroom_inv b \<longrightarrow> headroom_inv b1" .
  from write_Inr [OF b1(2,4)] obtain b2 where "hasWritten (length d) (copy_to_write d b1) = Inr b2"
    "buf_inv b2" "content b2 = content b1 @ d" "headroom_inv b1 \<longrightarrow> headroom_inv b2" .
  with b1 show thesis using that [of b2] by (simp add: append_bytes_def)
qed

lemma prepend_Inr:
  assumes "buf_inv b" "length d \<le> readerIndex b"
  obtains b' where "prepend d b = Inr b'" "buf_inv b'" "content b' = d @ content b"
proof
  let ?r = "readerIndex b - length d"
  let ?b = "b\<lparr>store := overwrite ?r d (store b), readerIndex := ?r\<rparr>"
  have room: "?r + length d \<le> length (store b)" using assms by (simp add: buffer_defs)
  show "prepend d b = Inr ?b" using assms by (simp add: prepend_def buffer_defs Let_def)
  show "buf_inv ?b" using assms room by (auto simp: buf_inv_def)
  have len: "length (overwrite ?r d (store b)) = length (store b)" using room by simp
  have "drop ?r (overwrite ?r d (store b)) = d @ drop (readerIndex b) (store b)"
    using assms room by (simp add: overwrite_def min_def)
  moreover have "writerIndex b - ?r - length d = writerIndex b - readerIndex b" using assms by simp
  moreover have "length d \<le> writerIndex b - ?r" using assms by (auto simp: buf_inv_def)
  ultimately show "content ?b = d @ content b" using len
    by (simp add: content_def bytes_at_def readableBytes_def)
qed

interpretation bq: byte_queue buf_inv content append_bytes retrieve
proof
  fix b d assume "buf_inv b"
  then show "\<exists>b'. append_bytes d b = Inr b' \<and> buf_inv b' \<and> content b' = content b @ d"
    using append_Inr by metis
next
  fix b n assume "buf_inv b" "n \<le> length (content b)"
  then show "\<exists>b'. retrieve n b = Inr b' \<and> buf_inv b' \<and> content b' = drop n (content b)"
    using retrieve_Inr by (metis length_content)
next
  fix b n assume "buf_inv b" "length (content b) < n"
  then show "retrieve n b = Inl AssertionFailed" by (simp add: retrieve_fault_iff)
qed

interpretation hq: byte_queue headroom_inv content append_bytes retrieve
proof
  fix b d assume "headroom_inv b"
  then show "\<exists>b'. append_bytes d b = Inr b' \<and> headroom_inv b' \<and> content b' = content b @ d"
    using append_Inr [of b d] by (metis headroom_inv_def)
next
  fix b n assume "headroom_inv b" "n \<le> length (content b)"
  then show "\<exists>b'. retrieve n b = Inr b' \<and> headroom_inv b' \<and> content b' = drop n (content b)"
    using retrieve_Inr [of b n] by (metis headroom_inv_def length_content)
next
  fix b n assume "headroom_inv b" "length (content b) < n"
  then show "retrieve n b = Inl AssertionFailed"
    using bq.ret_fault by (simp add: headroom_inv_def)
qed


subsection \<open>Integers on the wire\<close>

lemma bytes_at_peek:
  assumes "buf_inv b" "content b = d @ rest"
  shows "bytes_at b (peek b) (length d) = d"
proof -
  have "length d \<le> readableBytes b" using assms length_content [OF assms(1)] by simp
  then have "bytes_at b (peek b) (length d) = take (length d) (content b)"
    by (simp add: content_def bytes_at_def peek_def min_def)
  then show ?thesis using assms(2) by simp
qed

lemma bytes_at_inside:
  assumes "buf_inv b" "content b = pre @ d @ rest" "off = peek b + length pre" "n = length d"
  shows "bytes_at b off n = d"
proof -
  have "length pre + length d \<le> readableBytes b" using assms(2) length_content [OF assms(1)] by simp
  then have "bytes_at b off n = take n (drop (length pre) (content b))"
    using assms(3,4) by (simp add: content_def bytes_at_def peek_def drop_take min_def add.commute)
  then show ?thesis using assms(2,4) by simp
qed

lemma readable_store: "buf_inv b \<Longrightarrow> peek b + readableBytes b \<le> length (store b)"
  by (simp add: buffer_defs)

lemma readable_ge: "buf_inv b \<Longrightarrow> content b = d @ rest \<Longrightarrow> length d \<le> readableBytes b"
  using length_content [of b] by simp

lemma peekInt64_be: "buf_inv b \<Longrightarrow> content b = be_bytes x @ rest \<Longrightarrow> peekInt64 b = Inr x"
  using readable_ge [of b "be_bytes x" rest] bytes_at_peek [of b "be_bytes x" rest]
  by (simp add: peekInt64_def)

lemma peekInt32_be: "buf_inv b \<Longrightarrow> content b = be_bytes x @ rest \<Longrightarrow> peekInt32 b = Inr x"
  using readable_ge [of b "be_bytes x" rest] bytes_at_peek [of b "be_bytes x" rest]
  by (simp add: peekInt32_def)

lemma peekInt16_be: "buf_inv b \<Longrightarrow> content b = be_bytes x @ rest \<Longrightarrow> peekInt16 b = Inr x"
  using readable_ge [of b "be_bytes x" rest] bytes_at_peek [of b "be_bytes x" rest]
  by (simp add: peekInt16_def)

lemma mem_bytes_8: "mem_bytes (x :: 8 word) = be_bytes x"
  by (simp add: be_bytes_def mem_bytes_def)

lemma peekInt8_be:
  assumes "buf_inv b" "content b = be_bytes x @ rest"
  shows "peekInt8 b = Inr x"
  using readable_ge [OF assms] bytes_at_peek [OF assms] of_mem_bytes_mem_bytes [of x]
  by (simp add: peekInt8_def mem_bytes_8)

lemmas append_int_defs =
  appendInt64_def appendInt32_def appendInt16_def appendInt8_def mem_bytes_8 to_network_bytes

lemmas read_int_defs =
  readInt64_def readInt32_def readInt16_def readInt8_def
  retrieveInt64_def retrieveInt32_def retrieveInt16_def retrieveInt8_def

lemma retrieve_prefix:
  assumes "buf_inv b" "content b = d @ rest" "n = length d"
  obtains b' where "retrieve n b = Inr b'" "buf_inv b'" "content b' = rest"
    "headroom_inv b \<longrightarrow> headroom_inv b'" "store b' = store b"
  using retrieve_Inr [OF assms(1), of n] readable_ge [OF assms(1,2)] assms(2,3) by auto

subsection \<open>Line ends\<close>

lemma bytes_at_content: "bytes_at b (peek b) (beginWrite b - peek b) = content b"
  by (simp add: content_def peek_def beginWrite_def readableBytes_def)

lemma findCRLF_content:
  assumes "buf_inv b"
  shows "findCRLF b = (if std_search kCRLF (content b) = length (content b) then None
                       else Some (peek b + std_search kCRLF (content b)))"
proof -
  have "peek b + length (content b) = beginWrite b"
    using assms by (simp add: peek_def beginWrite_def readableBytes_def buf_inv_def)
  then have "(peek b + i = beginWrite b) = (i = length (content b))" for i by linarith
  then show ?thesis by (simp add: findCRLF_def bytes_at_content Let_def)
qed

lemma findEOL_content:
  assumes "buf_inv b"
  shows "findEOL b = map_option (\<lambda>i. peek b + i) (memchr (CHR 0x0A) (content b))"
  by (simp add: findEOL_def content_def peek_def)


subsection \<open>Refinement of a byte queue\<close>

text \<open>Any run of the mutating operations, on the class and on a plain byte list. The two agree on the
  bytes and on where an assertion stops the run.\<close>

datatype buf_op = OpAppend "byte list" | OpRetrieve nat | OpEnsure nat | OpUnwrite nat | OpRetrieveAll

fun buf_step :: "buf_op \<Rightarrow> Buffer \<Rightarrow> Buffer result" where
  "buf_step (OpAppend d) b = append_bytes d b"
| "buf_step (OpRetrieve n) b = retrieve n b"
| "buf_step (OpEnsure n) b = ensureWritableBytes n b"
| "buf_step (OpUnwrite n) b = unwrite n b"
| "buf_step OpRetrieveAll b = Inr (retrieveAll b)"

fun queue_step :: "buf_op \<Rightarrow> byte list \<Rightarrow> byte list result" where
  "queue_step (OpAppend d) q = Inr (q @ d)"
| "queue_step (OpRetrieve n) q = (if n \<le> length q then Inr (drop n q) else Inl AssertionFailed)"
| "queue_step (OpEnsure n) q = Inr q"
| "queue_step (OpUnwrite n) q = (if n \<le> length q then Inr (take (length q - n) q) else Inl AssertionFailed)"
| "queue_step OpRetrieveAll q = Inr []"

fun run_ops :: "('op \<Rightarrow> 's \<Rightarrow> 's result) \<Rightarrow> 'op list \<Rightarrow> 's \<Rightarrow> 's result" where
  "run_ops step [] s = Inr s"
| "run_ops step (x # xs) s = rbind (step x s) (run_ops step xs)"

definition same_outcome :: "Buffer result \<Rightarrow> byte list result \<Rightarrow> bool" where
  "same_outcome r q = (case r of Inl e \<Rightarrow> q = Inl e | Inr b \<Rightarrow> buf_inv b \<and> q = Inr (content b))"

lemma unwrite_outcome: "buf_inv b \<Longrightarrow> same_outcome (unwrite n b) (queue_step (OpUnwrite n) (content b))"
  by (auto simp: unwrite_def same_outcome_def assert_that_def) (auto simp: buffer_defs min_def add.commute)

lemma buf_step_outcome: "buf_inv b \<Longrightarrow> same_outcome (buf_step x b) (queue_step x (content b))"
proof (cases x)
  case (OpAppend d)
  assume "buf_inv b"
  from bq.app_spec [OF this, of d] OpAppend show ?thesis by (auto simp: same_outcome_def)
next
  case (OpRetrieve n)
  assume b: "buf_inv b"
  show ?thesis
  proof (cases "n \<le> length (content b)")
    case True
    from bq.ret_spec [OF b True] obtain b' where "retrieve n b = Inr b'" "buf_inv b'"
      "content b' = drop n (content b)" by blast
    with True OpRetrieve show ?thesis by (simp add: same_outcome_def)
  next
    case False
    then have "retrieve n b = Inl AssertionFailed" using bq.ret_fault [OF b, of n] by linarith
    with False OpRetrieve show ?thesis by (simp add: same_outcome_def)
  qed
next
  case (OpEnsure n)
  assume "buf_inv b"
  from ensureWritable_Inr [OF this, of n] obtain b' where "ensureWritableBytes n b = Inr b'"
    "buf_inv b'" "content b' = content b" .
  with OpEnsure show ?thesis by (simp add: same_outcome_def)
next
  case (OpUnwrite n)
  assume "buf_inv b"
  with OpUnwrite show ?thesis using unwrite_outcome [of b n] by simp
next
  case OpRetrieveAll
  assume "buf_inv b"
  with OpRetrieveAll show ?thesis by (simp add: same_outcome_def retrieveAll_def buffer_defs)
qed

text \<open>C6: every sequence of appends, retrieves, room requests, unwrites and resets behaves on
  \<^verbatim>\<open>Buffer\<close> as on an abstract byte queue: the same bytes are readable afterwards, the run is stopped by
  an assertion exactly when the queue is too short, and the index invariant is kept. In particular the
  assertions inside \<^verbatim>\<open>makeSpace\<close>, \<^verbatim>\<open>ensureWritableBytes\<close> and \<^verbatim>\<open>hasWritten\<close> never fail.\<close>

theorem buffer_refines_byte_queue:
  "buf_inv b \<Longrightarrow> same_outcome (run_ops buf_step ops b) (run_ops queue_step ops (content b))"
proof (induction ops arbitrary: b)
  case Nil
  then show ?case by (simp add: same_outcome_def)
next
  case (Cons x ops)
  from buf_step_outcome [OF Cons.prems, of x] show ?case
    by (cases "buf_step x b") (auto simp: same_outcome_def intro: Cons.IH [unfolded same_outcome_def])
qed

theorem buffer_refines_byte_queue_witness:
  "same_outcome (run_ops buf_step [OpAppend ''hello'', OpRetrieve 2, OpEnsure 5, OpUnwrite 1] (mkBuffer 4))
     (Inr ''ll'')"
  using buffer_refines_byte_queue [of "mkBuffer 4" "[OpAppend ''hello'', OpRetrieve 2, OpEnsure 5, OpUnwrite 1]"]
  by simp

text \<open>integers written in network order at every width are read back unchanged and in order, and
  reading them consumes exactly the bytes that were written.\<close>

theorem buffer_int_roundtrip:
  assumes "buf_inv b" "content b = []"
  shows "\<exists>b1 b2 b3 b4 c1 c2 c3 c4.
    appendInt64 x b = Inr b1 \<and> appendInt32 y b1 = Inr b2 \<and> appendInt16 z b2 = Inr b3 \<and>
    appendInt8 u b3 = Inr b4 \<and> readableBytes b4 = 15 \<and>
    readInt64 b4 = Inr (x, c1) \<and> readInt32 c1 = Inr (y, c2) \<and> readInt16 c2 = Inr (z, c3) \<and>
    readInt8 c3 = Inr (u, c4) \<and> buf_inv c4 \<and> content c4 = []"
proof -
  from append_Inr [OF assms(1), of "be_bytes x"] assms(2) obtain b1
    where b1: "append_bytes (be_bytes x) b = Inr b1" "buf_inv b1" "content b1 = be_bytes x" by auto
  from append_Inr [OF b1(2), of "be_bytes y"] b1(3) obtain b2
    where b2: "append_bytes (be_bytes y) b1 = Inr b2" "buf_inv b2" "content b2 = be_bytes x @ be_bytes y" by auto
  from append_Inr [OF b2(2), of "be_bytes z"] b2(3) obtain b3
    where b3: "append_bytes (be_bytes z) b2 = Inr b3" "buf_inv b3"
      "content b3 = be_bytes x @ be_bytes y @ be_bytes z" by auto
  from append_Inr [OF b3(2), of "be_bytes u"] b3(3) obtain b4
    where b4: "append_bytes (be_bytes u) b3 = Inr b4" "buf_inv b4"
      "content b4 = be_bytes x @ be_bytes y @ be_bytes z @ be_bytes u" by auto
  obtain c1 where c1: "retrieve 8 b4 = Inr c1" "buf_inv c1" "content c1 = be_bytes y @ be_bytes z @ be_bytes u"
    using retrieve_prefix [OF b4(2,3), of 8] by auto
  obtain c2 where c2: "retrieve 4 c1 = Inr c2" "buf_inv c2" "content c2 = be_bytes z @ be_bytes u"
    using retrieve_prefix [OF c1(2,3), of 4] by auto
  obtain c3 where c3: "retrieve 2 c2 = Inr c3" "buf_inv c3" "content c3 = be_bytes u @ []"
    using retrieve_prefix [OF c2(2,3), of 2] by auto
  obtain c4 where c4: "retrieve 1 c3 = Inr c4" "buf_inv c4" "content c4 = []"
    using retrieve_prefix [OF c3(2,3), of 1] by auto
  have "readableBytes b4 = 15" using length_content [OF b4(2)] b4(3) by simp
  then show ?thesis
    using b1 b2 b3 b4 c1 c2 c3 c4 peekInt64_be [OF b4(2,3)] peekInt32_be [OF c1(2,3)]
      peekInt16_be [OF c2(2,3)] peekInt8_be [OF c3(2,3)]
    by (simp add: append_int_defs read_int_defs)
qed

theorem buffer_int_roundtrip_witness:
  "\<exists>b1 b2 b3 b4 c1 c2 c3 c4.
    appendInt64 5 (mkBuffer 0) = Inr b1 \<and> appendInt32 (-1) b1 = Inr b2 \<and> appendInt16 7 b2 = Inr b3 \<and>
    appendInt8 255 b3 = Inr b4 \<and> readableBytes b4 = 15 \<and>
    readInt64 b4 = Inr (5, c1) \<and> readInt32 c1 = Inr (-1, c2) \<and> readInt16 c2 = Inr (7, c3) \<and>
    readInt8 c3 = Inr (255, c4) \<and> buf_inv c4 \<and> content c4 = []"
  by (rule buffer_int_roundtrip) simp_all

text \<open>C32: \<^verbatim>\<open>findCRLF\<close> returns the first line end of the readable bytes, and null exactly when there is
  none: the two bytes at the result are CR LF, lie inside the readable region, and no earlier position
  of that region holds them.\<close>

theorem findCRLF_first_line_end:
  assumes "buf_inv b"
  shows "case findCRLF b of
      None \<Rightarrow> \<forall>i. take 2 (drop i (content b)) \<noteq> kCRLF
    | Some p \<Rightarrow> peek b \<le> p \<and> p + 2 \<le> beginWrite b \<and> bytes_at b p 2 = kCRLF
        \<and> (\<forall>i < p - peek b. take 2 (drop i (content b)) \<noteq> kCRLF)"
proof -
  let ?c = "content b" let ?s = "std_search kCRLF (content b)"
  have two: "length kCRLF = 2" "kCRLF \<noteq> []" by (simp_all add: kCRLF_def)
  show ?thesis
  proof (cases "?s = length ?c")
    case True
    have "take 2 (drop i ?c) \<noteq> kCRLF" for i
      using std_search_first [of i kCRLF ?c, unfolded two(1)] True two(2)
      by (cases "i < length ?c") auto
    then show ?thesis using assms True by (simp add: findCRLF_content)
  next
    case False
    then have lt: "?s < length ?c" using std_search_le [of kCRLF ?c] by simp
    have room: "?s + 2 \<le> readableBytes b"
      using std_search_found_room [OF two(2) lt] two(1) assms by simp
    have "take 2 (drop ?s ?c) = bytes_at b (peek b + ?s) 2"
      using room by (simp add: content_def bytes_at_def peek_def drop_take min_def add.commute)
    then have "bytes_at b (peek b + ?s) 2 = kCRLF"
      using std_search_found [OF two(2) lt] two(1) by simp
    moreover have "\<forall>i < ?s. take 2 (drop i ?c) \<noteq> kCRLF"
      using std_search_first [of _ kCRLF ?c] two(1) by metis
    moreover have "peek b + ?s + 2 \<le> beginWrite b"
      using room assms by (simp add: buffer_defs)
    ultimately show ?thesis using assms False by (simp add: findCRLF_content)
  qed
qed

theorem findCRLF_first_line_end_witness:
  "findCRLF (mkBuffer 0\<lparr>store := replicate 8 NUL @ ''ab'' @ kCRLF, writerIndex := 12\<rparr>) = Some 10
   \<and> bytes_at (mkBuffer 0\<lparr>store := replicate 8 NUL @ ''ab'' @ kCRLF, writerIndex := 12\<rparr>) 10 2 = kCRLF"
proof -
  let ?b = "mkBuffer 0\<lparr>store := replicate 8 NUL @ ''ab'' @ kCRLF, writerIndex := 12\<rparr>"
  have inv: "buf_inv ?b" by (simp add: buf_inv_def mkBuffer_def kCRLF_def)
  have f: "findCRLF ?b = Some 10" by code_simp
  from findCRLF_first_line_end [OF inv] f show ?thesis by simp
qed

end
