(* ===== verification/Framing.thy ===== *)
theory Framing
  imports ByteQueue "HOL-Library.Sublist"
begin

text \<open>
  What a length-prefixed protocol decoder promises over a byte queue, and what follows for a stream.
  TCP delivers the bytes of the frames in pieces of arbitrary size; both codecs of the program
  (\<^verbatim>\<open>RpcCodec::onMessage\<close> and \<^verbatim>\<open>ClientCodec::onMessage\<close>) are called after every piece. The locale
  \<open>framed_stream\<close> asks for three laws of one call (a complete frame at the front is delivered and
  consumed, an incomplete one and an empty buffer are left alone) and gives, once for both codecs, that
  the frames are delivered exactly once, in order, however the stream is cut.
\<close>

subsection \<open>Cutting a concatenation of frames\<close>

lemma frames_prefix_split:
  assumes "concat (map f ms) = p @ q"
  obtains k r where "k \<le> length ms" "p = concat (map f (take k ms)) @ r"
    "r @ q = concat (map f (drop k ms))"
    "r = [] \<or> (k < length ms \<and> strict_prefix r (f (ms ! k)))"
proof -
  have "\<exists>k r. k \<le> length ms \<and> p = concat (map f (take k ms)) @ r
      \<and> r @ q = concat (map f (drop k ms)) \<and> (r = [] \<or> (k < length ms \<and> strict_prefix r (f (ms ! k))))"
    using assms
  proof (induction ms arbitrary: p)
    case Nil
    then show ?case by simp
  next
    case (Cons m ms)
    then have eq: "f m @ concat (map f ms) = p @ q" by simp
    show ?case
    proof (cases "length p < length (f m)")
      case True
      then obtain s where "f m = p @ s" "s \<noteq> []" using eq
        by (auto simp: append_eq_append_conv2)
      then have "strict_prefix p (f m)" by (auto simp: strict_prefix_def)
      with eq show ?thesis by (intro exI [of _ 0] exI [of _ p]) simp
    next
      case False
      then obtain p' where p': "p = f m @ p'" "concat (map f ms) = p' @ q" using eq
        by (auto simp: append_eq_append_conv2)
      from Cons.IH [OF p'(2)] obtain k r where
        "k \<le> length ms" "p' = concat (map f (take k ms)) @ r" "r @ q = concat (map f (drop k ms))"
        "r = [] \<or> (k < length ms \<and> strict_prefix r (f (ms ! k)))" by blast
      with p'(1) show ?thesis by (intro exI [of _ "Suc k"] exI [of _ r]) auto
    qed
  qed
  then show thesis using that by blast
qed

subsection \<open>Feeding a decoder piece by piece\<close>

fun feed :: "(byte list \<Rightarrow> 'b \<Rightarrow> 'b result) \<Rightarrow> ('b \<Rightarrow> ('m list \<times> 'b) result) \<Rightarrow>
    byte list list \<Rightarrow> 'b \<Rightarrow> ('m list \<times> 'b) result" where
  "feed app dec [] b = Inr ([], b)"
| "feed app dec (d # ds) b =
     rbind (app d b) (\<lambda>b1. rbind (dec b1) (\<lambda>(ms, b2).
     rbind (feed app dec ds b2) (\<lambda>(ms', b3). Inr (ms @ ms', b3))))"

locale framed_stream = byte_queue inv bytes app ret
  for inv :: "'b \<Rightarrow> bool" and bytes :: "'b \<Rightarrow> byte list"
    and app :: "byte list \<Rightarrow> 'b \<Rightarrow> 'b result" and ret :: "nat \<Rightarrow> 'b \<Rightarrow> 'b result" +
  fixes dec :: "'b \<Rightarrow> ('m list \<times> 'b) result"
    and enc :: "'f \<Rightarrow> byte list"
    and deliver :: "'f \<Rightarrow> 'm"
    and valid :: "'f \<Rightarrow> bool"
  assumes dec_frame: "inv b \<Longrightarrow> valid m \<Longrightarrow> bytes b = enc m @ rest \<Longrightarrow>
      \<exists>b'. inv b' \<and> bytes b' = rest \<and>
        dec b = rbind (dec b') (\<lambda>(ms, b''). Inr (deliver m # ms, b''))"
    and dec_partial: "inv b \<Longrightarrow> valid m \<Longrightarrow> strict_prefix (bytes b) (enc m) \<Longrightarrow> dec b = Inr ([], b)"
    and dec_empty: "inv b \<Longrightarrow> bytes b = [] \<Longrightarrow> dec b = Inr ([], b)"
begin

lemma dec_frames:
  assumes "inv b" "\<forall>m \<in> set ms. valid m" "bytes b = concat (map enc ms) @ r"
    "r = [] \<or> (valid m \<and> strict_prefix r (enc m))"
  shows "\<exists>b'. dec b = Inr (map deliver ms, b') \<and> inv b' \<and> bytes b' = r"
  using assms(1-3)
proof (induction ms arbitrary: b)
  case Nil
  then show ?case using assms(4) dec_empty [of b] dec_partial [of b m] by auto
next
  case (Cons x ms)
  then have x: "valid x" and xb: "bytes b = enc x @ concat (map enc ms) @ r" by simp_all
  from dec_frame [OF Cons.prems(1) x xb] obtain b1 where b1: "inv b1"
    "bytes b1 = concat (map enc ms) @ r"
    "dec b = rbind (dec b1) (\<lambda>(ms, b''). Inr (deliver x # ms, b''))" by blast
  from Cons.IH [OF b1(1)] Cons.prems(2) b1(2) obtain b2 where
    "dec b1 = Inr (map deliver ms, b2)" "inv b2" "bytes b2 = r" by auto
  with b1(3) show ?case by simp
qed

text \<open>A prefix of the stream is decoded into the frames it completes; at most a proper prefix of the next
  frame is left.\<close>

lemma dec_progress:
  assumes "inv b" "\<forall>m \<in> set ms. valid m" "bytes b @ rest = concat (map enc ms)"
  shows "\<exists>k b'. dec b = Inr (map deliver (take k ms), b') \<and> inv b' \<and> bytes b' @ rest = concat (map enc (drop k ms))
    \<and> (bytes b' = [] \<or> (drop k ms \<noteq> [] \<and> strict_prefix (bytes b') (enc (hd (drop k ms)))))"
proof -
  from assms(3) [symmetric] obtain k r where k: "k \<le> length ms" "bytes b = concat (map enc (take k ms)) @ r"
    "r @ rest = concat (map enc (drop k ms))" "r = [] \<or> (k < length ms \<and> strict_prefix r (enc (ms ! k)))"
    by (rule frames_prefix_split)
  have rv: "r = [] \<or> (valid (ms ! k) \<and> strict_prefix r (enc (ms ! k)))" using k(4) assms(2) by auto
  have "\<forall>m \<in> set (take k ms). valid m" using assms(2) by (meson in_set_takeD)
  from dec_frames [OF assms(1) this k(2) rv] obtain b' where
    "dec b = Inr (map deliver (take k ms), b')" "inv b'" "bytes b' = r" by blast
  then show ?thesis using k by (intro exI [of _ k]) (auto simp: hd_drop_conv_nth)
qed

lemma enc_nonempty:
  assumes "inv b" "bytes b = []" "valid m"
  shows "enc m \<noteq> []"
proof
  assume "enc m = []"
  then obtain b' where b': "inv b'" "bytes b' = []" "dec b = rbind (dec b') (\<lambda>(ms, b''). Inr (deliver m # ms, b''))"
    using dec_frame [OF assms(1,3), of "[]"] assms(2) by auto
  then show False using dec_empty [OF b'(1,2)] dec_empty [OF assms(1,2)] by simp
qed

text \<open>When the stream is exhausted, nothing is left over.\<close>

lemma partial_done:
  assumes "inv b" "\<forall>m \<in> set ms. valid m" "bytes b = concat (map enc ms)"
    "bytes b = [] \<or> (ms \<noteq> [] \<and> strict_prefix (bytes b) (enc (hd ms)))"
  shows "ms = []"
proof (cases ms)
  case (Cons m ms')
  then have "bytes b = []" using assms(3,4) by (auto simp: strict_prefix_def prefix_def)
  then show ?thesis using enc_nonempty [OF assms(1), of m] assms(2,3) Cons by auto
qed simp

theorem feed_stream:
  assumes "inv b" "\<forall>m \<in> set ms. valid m" "bytes b @ concat ds = concat (map enc ms)"
    "bytes b = [] \<or> (ms \<noteq> [] \<and> strict_prefix (bytes b) (enc (hd ms)))"
  shows "\<exists>b'. feed app dec ds b = Inr (map deliver ms, b') \<and> inv b' \<and> bytes b' = []"
  using assms
proof (induction ds arbitrary: b ms)
  case Nil
  then show ?case using partial_done [of b ms] by simp
next
  case (Cons d ds)
  from app_spec [OF Cons.prems(1), of d] obtain b1 where
    b1: "app d b = Inr b1" "inv b1" "bytes b1 = bytes b @ d" by blast
  from dec_progress [OF b1(2) Cons.prems(2), of "concat ds"] b1(3) Cons.prems(3) obtain k b2 where
    b2: "dec b1 = Inr (map deliver (take k ms), b2)" "inv b2" "bytes b2 @ concat ds = concat (map enc (drop k ms))"
      "bytes b2 = [] \<or> (drop k ms \<noteq> [] \<and> strict_prefix (bytes b2) (enc (hd (drop k ms))))" by auto
  have "\<forall>m \<in> set (drop k ms). valid m" using Cons.prems(2) by (meson in_set_dropD)
  from Cons.IH [OF b2(2) this b2(3,4)] obtain b3 where
    b3: "feed app dec ds b2 = Inr (map deliver (drop k ms), b3)" "inv b3" "bytes b3 = []" by blast
  have "map deliver (take k ms) @ map deliver (drop k ms) = map deliver ms"
    by (metis append_take_drop_id map_append)
  with b1 b2 b3 show ?case by simp
qed

end

end
