(* ===== verification/RpcCodec.thy ===== *)
theory RpcCodec
  imports BufferModel Framing
begin

text \<open>
  \<^verbatim>\<open>rpc/RpcCodec.{h,cc}\<close>: the frame format of the RPC layer. \<open>fillEmptyBuffer\<close> writes a frame into an
  empty buffer; \<open>rpc_onMessage\<close> is the read loop, which hands every complete frame to the message
  callback. A call of the message or error callback is an element of the event list the model returns:
  neither callback touches the buffer. The payload is the byte string a protobuf message serialises
  to; its length is what \<^verbatim>\<open>ByteSize\<close> returns.
\<close>

subsection \<open>Constants, error codes, events\<close>

definition kHeaderLen :: int where [simp]: "kHeaderLen = 4"
definition kIdLen :: int where [simp]: "kIdLen = 8"
definition kMinMessageLen :: int where [simp]: "kMinMessageLen = kIdLen + kHeaderLen + 3"
definition kMaxMessageLen :: int where [simp]: "kMaxMessageLen = 64 * 1024 * 1024"

datatype RpcErrorCode =
  kNoError | kInvalidLength | kCheckSumError | kInvalidNameLen | kUnknownMessageType | kParseError

fun errorCodeToString :: "RpcErrorCode \<Rightarrow> string" where
  "errorCodeToString kNoError = ''NoError''"
| "errorCodeToString kInvalidLength = ''InvalidLength''"
| "errorCodeToString kCheckSumError = ''CheckSumError''"
| "errorCodeToString kInvalidNameLen = ''InvalidNameLen''"
| "errorCodeToString kUnknownMessageType = ''UnknownMessageType''"
| "errorCodeToString kParseError = ''ParseError''"

text \<open>\<^verbatim>\<open>messageCallback_(isresponse, id, service, method, conn, data, datalen)\<close>: the bytes at \<^verbatim>\<open>data\<close> are
  recorded up to \<^verbatim>\<open>datalen\<close>, and the signed \<^verbatim>\<open>datalen\<close> itself.\<close>

datatype rpc_event =
    RpcMessage bool "64 word" string string "byte list" int
  | RpcError RpcErrorCode

subsection \<open>Writing a frame\<close>

definition fillEmptyBuffer :: "Buffer \<Rightarrow> byte list \<Rightarrow> 64 word \<Rightarrow> string \<Rightarrow> Buffer result" where
  "fillEmptyBuffer b payload fid name =
     rbind (assert_that (readableBytes b = 0)) (\<lambda>_.
     rbind (appendInt64 fid b) (\<lambda>b.
     let nameLen = word_of_nat (length name + 1) :: 32 word in
     rbind (appendInt32 nameLen b) (\<lambda>b.
     rbind (if sint nameLen < 0 then Inl LengthError
            else append_bytes (take (unat nameLen) (name @ [NUL])) b) (\<lambda>b.
     rbind (ensureWritableBytes (length payload) b) (\<lambda>b.
     rbind (hasWritten (length payload) (copy_to_write payload b)) (\<lambda>b.
     let len = word_of_nat (readableBytes b) :: 32 word in
     prepend (mem_bytes (hostToNetwork32 len)) b))))))"

text \<open>\<^verbatim>\<open>RpcCodec::send\<close> fills a fresh buffer and hands it to the session.\<close>

definition rpc_send :: "64 word \<Rightarrow> string \<Rightarrow> byte list \<Rightarrow> Buffer result" where
  "rpc_send fid name payload = fillEmptyBuffer (mkBuffer kInitialSize) payload fid name"

subsection \<open>Reading frames\<close>

definition asInt32 :: "Buffer \<Rightarrow> nat \<Rightarrow> 32 word" where
  "asInt32 b off = networkToHost32 (of_mem_bytes (bytes_at b off 4))"

definition asUInt64 :: "Buffer \<Rightarrow> nat \<Rightarrow> 64 word" where
  "asUInt64 b off = networkToHost64 (of_mem_bytes (bytes_at b off 8))"

text \<open>One pass through the body of the loop: the callbacks made, whether the loop goes on, the buffer.
  The name is read through raw pointers; leaving the vector is a fault.\<close>

definition rpc_iteration :: "Buffer \<Rightarrow> (rpc_event list \<times> bool \<times> Buffer) result" where
  "rpc_iteration b =
     rbind (peekInt32 b) (\<lambda>len32.
     let len = sint len32 in
     if len > kMaxMessageLen \<or> len < kMinMessageLen
     then Inr ([RpcError kInvalidLength], False, b)
     else if readableBytes b \<ge> nat (len + kHeaderLen)
     then
       (let idstart = peek b + nat kHeaderLen;
            rawid = asUInt64 b idstart;
            isresponse = (drop_bit 63 rawid \<noteq> 0);
            fid = rawid AND 0x7fffffffffffffff;
            nameLen = sint (asInt32 b (idstart + nat kIdLen));
            namestart = idstart + nat (kHeaderLen + kIdLen)
        in if nameLen \<ge> 3 \<and> nameLen \<le> len - 2 * kHeaderLen
           then if length (store b) < namestart + nat nameLen then Inl OutOfBounds
             else
               (let typeName = bytes_at b namestart (nat nameLen);
                    pos = std_find (CHR '':'') typeName
                in if pos \<noteq> length typeName
                   then
                     (let datalen = len - nameLen - kHeaderLen - kIdLen;
                          service = take pos typeName;
                          meth = drop (pos + 1) typeName;
                          msgdata = bytes_at b (namestart + nat nameLen) (nat datalen)
                      in rbind (retrieve (nat (kHeaderLen + len)) b) (\<lambda>b'.
                           Inr ([RpcMessage isresponse fid service meth msgdata datalen], True, b')))
                   else rbind (retrieve (nat (kHeaderLen + len)) b) (\<lambda>b'.
                          Inr ([RpcError kInvalidNameLen], False, b')))
           else rbind (retrieve (nat (kHeaderLen + len)) b) (\<lambda>b'.
                  Inr ([RpcError kInvalidNameLen], False, b')))
     else Inr ([], False, b))"

lemma retrieve_readable: "retrieve n b = Inr b' \<Longrightarrow> readableBytes b' = readableBytes b - n"
  by (auto simp: retrieve_def result_simps retrieveAll_def split: if_splits)
     (auto simp: readableBytes_def)

lemma rpc_iteration_consumes:
  "rpc_iteration b = Inr (ev, True, b') \<Longrightarrow> readableBytes b' + 19 \<le> readableBytes b"
  by (auto simp: rpc_iteration_def result_simps Let_def split: if_splits dest!: retrieve_readable)

function rpc_onMessage :: "Buffer \<Rightarrow> (rpc_event list \<times> Buffer) result" where
  "rpc_onMessage b =
     (if readableBytes b \<ge> nat (kMinMessageLen + kHeaderLen)
      then rbind (rpc_iteration b) (\<lambda>(ev, again, b').
             if again then rbind (rpc_onMessage b') (\<lambda>(evs, b''). Inr (ev @ evs, b''))
             else Inr (ev, b'))
      else Inr ([], b))"
  by pat_completeness auto
termination
  by (relation "measure readableBytes") (auto dest: rpc_iteration_consumes)

declare rpc_onMessage.simps [simp del]


subsection \<open>The frame format\<close>

record rpc_frame =
  fr_id :: "64 word"
  fr_name :: string
  fr_payload :: "byte list"

definition rpc_len :: "rpc_frame \<Rightarrow> nat" where
  "rpc_len f = 12 + (length (fr_name f) + 1) + length (fr_payload f)"

definition rpc_encode :: "rpc_frame \<Rightarrow> byte list" where
  "rpc_encode f = be_bytes (word_of_nat (rpc_len f) :: 32 word) @ be_bytes (fr_id f)
     @ be_bytes (word_of_nat (length (fr_name f) + 1) :: 32 word) @ fr_name f @ [NUL] @ fr_payload f"

text \<open>What a sender has to keep to: a name with a colon and at most 64 MB in all.\<close>

definition rpc_valid :: "rpc_frame \<Rightarrow> bool" where
  "rpc_valid f \<longleftrightarrow> 2 \<le> length (fr_name f) \<and> CHR '':'' \<in> set (fr_name f) \<and> rpc_len f \<le> 64 * 1024 * 1024"

definition rpc_deliver :: "rpc_frame \<Rightarrow> rpc_event" where
  "rpc_deliver f =
     RpcMessage (drop_bit 63 (fr_id f) \<noteq> 0) (fr_id f AND 0x7fffffffffffffff)
       (takeWhile (\<lambda>c. c \<noteq> CHR '':'') (fr_name f))
       (tl (dropWhile (\<lambda>c. c \<noteq> CHR '':'') (fr_name f)) @ [NUL])
       (fr_payload f) (int (length (fr_payload f)))"

lemma sint_small: "n < 2 ^ 31 \<Longrightarrow> sint (word_of_nat n :: 32 word) = int n"
  by (simp add: signed_of_nat signed_take_bit_int_eq_self)

lemma unat_small: "n < 2 ^ 32 \<Longrightarrow> unat (word_of_nat n :: 32 word) = n"
  by (simp add: unsigned_of_nat take_bit_nat_eq_self)

lemma length_rpc_encode: "length (rpc_encode f) = rpc_len f + 4"
  by (simp add: rpc_encode_def rpc_len_def)

lemma rpc_valid_bounds:
  assumes "rpc_valid f"
  shows "15 \<le> rpc_len f" "rpc_len f < 2 ^ 31" "length (fr_name f) + 1 < 2 ^ 31"
    "sint (word_of_nat (rpc_len f) :: 32 word) = int (rpc_len f)"
    "sint (word_of_nat (length (fr_name f) + 1) :: 32 word) = int (length (fr_name f) + 1)"
    "unat (word_of_nat (length (fr_name f) + 1) :: 32 word) = length (fr_name f) + 1"
proof -
  show "15 \<le> rpc_len f" "rpc_len f < 2 ^ 31" and n: "length (fr_name f) + 1 < 2 ^ 31"
    using assms by (simp_all add: rpc_valid_def rpc_len_def)
  then show "sint (word_of_nat (rpc_len f) :: 32 word) = int (rpc_len f)"
    "sint (word_of_nat (length (fr_name f) + 1) :: 32 word) = int (length (fr_name f) + 1)"
    by (simp_all only: sint_small)
  show "unat (word_of_nat (length (fr_name f) + 1) :: 32 word) = length (fr_name f) + 1"
    by (rule unat_small) (use n in simp)
qed

lemma split_name:
  assumes "CHR '':'' \<in> set n"
  shows "std_find (CHR '':'') (n @ [NUL]) < length (n @ [NUL])"
    "take (std_find (CHR '':'') (n @ [NUL])) (n @ [NUL]) = takeWhile (\<lambda>c. c \<noteq> CHR '':'') n"
    "drop (std_find (CHR '':'') (n @ [NUL]) + 1) (n @ [NUL]) = tl (dropWhile (\<lambda>c. c \<noteq> CHR '':'') n) @ [NUL]"
  using assms by (induction n) (auto simp: std_find_def)

subsection \<open>Sender and receiver agree on the format\<close>

lemma fillEmptyBuffer_content:
  assumes "headroom_inv b" "content b = []" "rpc_valid f"
  shows "\<exists>b'. fillEmptyBuffer b (fr_payload f) (fr_id f) (fr_name f) = Inr b' \<and> buf_inv b'
     \<and> content b' = rpc_encode f"
proof -
  note v = rpc_valid_bounds [OF assms(3)]
  let ?nl = "word_of_nat (length (fr_name f) + 1) :: 32 word"
  from hq.app_spec [OF assms(1), of "be_bytes (fr_id f)"] assms(2) obtain b1 where
    b1: "append_bytes (be_bytes (fr_id f)) b = Inr b1" "headroom_inv b1" "content b1 = be_bytes (fr_id f)"
    by auto
  from hq.app_spec [OF b1(2), of "be_bytes ?nl"] b1(3) obtain b2 where
    b2: "append_bytes (be_bytes ?nl) b1 = Inr b2" "headroom_inv b2"
      "content b2 = be_bytes (fr_id f) @ be_bytes ?nl" by auto
  from hq.app_spec [OF b2(2), of "fr_name f @ [NUL]"] b2(3) obtain b3 where
    b3: "append_bytes (fr_name f @ [NUL]) b2 = Inr b3" "headroom_inv b3"
      "content b3 = be_bytes (fr_id f) @ be_bytes ?nl @ fr_name f @ [NUL]" by auto
  from b3(2) have "buf_inv b3" by (simp add: headroom_inv_def)
  from ensureWritable_Inr [OF this, of "length (fr_payload f)"] b3(2) obtain b4 where
    b4: "ensureWritableBytes (length (fr_payload f)) b3 = Inr b4" "buf_inv b4" "content b4 = content b3"
      "length (fr_payload f) \<le> writableBytes b4" "headroom_inv b4" by metis
  from write_Inr [OF b4(2,4)] b4(3,5) b3(3) obtain b5 where
    b5: "hasWritten (length (fr_payload f)) (copy_to_write (fr_payload f) b4) = Inr b5" "buf_inv b5"
      "content b5 = be_bytes (fr_id f) @ be_bytes ?nl @ fr_name f @ [NUL] @ fr_payload f" "headroom_inv b5"
    by (metis append.assoc)
  have len: "readableBytes b5 = rpc_len f"
    using length_content [OF b5(2)] b5(3) by (simp add: rpc_len_def)
  let ?l = "be_bytes (word_of_nat (rpc_len f) :: 32 word)"
  have "length ?l \<le> readerIndex b5" using b5(4) by (simp add: headroom_inv_def)
  from prepend_Inr [OF b5(2) this] b5(3) obtain b6 where
    b6: "prepend ?l b5 = Inr b6" "buf_inv b6" "content b6 = rpc_encode f"
    unfolding rpc_encode_def by metis
  have "readableBytes b = 0" using assms(1,2) length_content [of b] by (simp add: headroom_inv_def)
  moreover have "take (unat ?nl) (fr_name f @ [NUL]) = fr_name f @ [NUL]" using v(6) by simp
  ultimately show ?thesis using b1 b2 b3 b4 b5 b6 v(5) len
    by (simp add: fillEmptyBuffer_def appendInt64_def appendInt32_def Let_def)
qed

lemma rpc_iteration_frame:
  assumes inv: "buf_inv b" and v: "rpc_valid f" and c: "content b = rpc_encode f @ rest"
  shows "\<exists>b'. rpc_iteration b = Inr ([rpc_deliver f], True, b') \<and> buf_inv b' \<and> content b' = rest"
proof -
  note bd = rpc_valid_bounds [OF v]
  let ?len = "word_of_nat (rpc_len f) :: 32 word"
  let ?nl = "word_of_nat (length (fr_name f) + 1) :: 32 word"
  let ?n = "fr_name f @ [NUL]"
  have c': "content b = be_bytes ?len @ be_bytes (fr_id f) @ be_bytes ?nl @ ?n @ fr_payload f @ rest"
    using c by (simp add: rpc_encode_def)
  have len: "peekInt32 b = Inr ?len" by (rule peekInt32_be [OF inv c'])
  have idb: "asUInt64 b (peek b + 4) = fr_id f"
    using bytes_at_inside [OF inv, of "be_bytes ?len" "be_bytes (fr_id f)"] c' by (simp add: asUInt64_def)
  have nlb: "asInt32 b (peek b + 12) = ?nl"
    using bytes_at_inside [OF inv, of "be_bytes ?len @ be_bytes (fr_id f)" "be_bytes ?nl"] c'
    by (simp add: asInt32_def)
  have nm: "bytes_at b (peek b + 16) (length (fr_name f) + 1) = ?n"
    using bytes_at_inside [OF inv, of "be_bytes ?len @ be_bytes (fr_id f) @ be_bytes ?nl" ?n] c' by simp
  have pl: "bytes_at b (peek b + 17 + length (fr_name f)) (length (fr_payload f)) = fr_payload f"
    using bytes_at_inside [OF inv,
        of "be_bytes ?len @ be_bytes (fr_id f) @ be_bytes ?nl @ ?n" "fr_payload f" rest] c' by (simp add: add.assoc)
  have rd: "rpc_len f + 4 \<le> readableBytes b"
    using length_content [OF inv] c length_rpc_encode [of f] by simp
  obtain b' where r: "retrieve (rpc_len f + 4) b = Inr b'" "buf_inv b'" "content b' = rest"
    using retrieve_prefix [OF inv c, of "rpc_len f + 4"] length_rpc_encode [of f] by metis
  have inside: "\<not> length (store b) < peek b + 16 + (length (fr_name f) + 1)"
    using readable_store [OF inv] rd by (simp add: rpc_len_def)
  have sp: "CHR '':'' \<in> set (fr_name f)" using v by (simp add: rpc_valid_def)
  have "length (fr_name f) + 1 \<ge> 3" "rpc_len f \<le> 67108864" using v by (simp_all add: rpc_valid_def)
  then have "rpc_iteration b = Inr ([rpc_deliver f], True, b')"
    using len bd idb nlb nm pl rd r inside split_name [OF sp]
    by (simp add: rpc_iteration_def Let_def rpc_deliver_def add.commute add.left_commute
        nat_add_distrib) (simp add: rpc_len_def add.commute add.left_commute)
  with r show ?thesis by blast
qed


lemma rpc_onMessage_frame:
  assumes "buf_inv b" "rpc_valid f" "content b = rpc_encode f @ rest"
  shows "\<exists>b'. buf_inv b' \<and> content b' = rest \<and>
    rpc_onMessage b = rbind (rpc_onMessage b') (\<lambda>(evs, b''). Inr (rpc_deliver f # evs, b''))"
proof -
  from rpc_iteration_frame [OF assms] obtain b' where
    b': "rpc_iteration b = Inr ([rpc_deliver f], True, b')" "buf_inv b'" "content b' = rest" by blast
  have "19 \<le> readableBytes b"
    using length_content [OF assms(1)] assms(3) length_rpc_encode [of f] rpc_valid_bounds(1) [OF assms(2)]
    by simp
  then show ?thesis using b' by (subst rpc_onMessage.simps) auto
qed

lemma rpc_iteration_short:
  assumes "buf_inv b" "content b = be_bytes (w :: 32 word) @ rest" "15 \<le> sint w"
    "sint w \<le> 64 * 1024 * 1024" "readableBytes b < nat (sint w + 4)"
  shows "rpc_iteration b = Inr ([], False, b)"
  using peekInt32_be [OF assms(1,2)] assms(3-5) by (simp add: rpc_iteration_def Let_def)

lemma rpc_onMessage_partial:
  assumes "buf_inv b" "rpc_valid f" "strict_prefix (content b) (rpc_encode f)"
  shows "rpc_onMessage b = Inr ([], b)"
proof (cases "readableBytes b \<ge> 19")
  case True
  note bd = rpc_valid_bounds [OF assms(2)]
  let ?l = "be_bytes (word_of_nat (rpc_len f) :: 32 word)"
  obtain t where t: "rpc_encode f = content b @ t" "t \<noteq> []"
    using assms(3) by (auto simp: strict_prefix_def prefix_def)
  have len: "length (content b) = readableBytes b" using assms(1) by simp
  have "take 4 (content b) = take 4 (rpc_encode f)" using t True len by simp
  also have "\<dots> = ?l" by (simp add: rpc_encode_def)
  finally have "content b = ?l @ drop 4 (content b)" by (metis append_take_drop_id)
  moreover have "length (content b @ t) = rpc_len f + 4" using t(1) length_rpc_encode [of f] by simp
  then have "readableBytes b < rpc_len f + 4" using t(2) len by (cases t) auto
  moreover have "rpc_len f \<le> 64 * 1024 * 1024" using assms(2) by (simp add: rpc_valid_def)
  ultimately have "rpc_iteration b = Inr ([], False, b)"
    using bd by (intro rpc_iteration_short [OF assms(1)]) auto
  then show ?thesis using True by (subst rpc_onMessage.simps) simp
next
  case False
  then show ?thesis by (subst rpc_onMessage.simps) simp
qed

lemma rpc_onMessage_empty: "buf_inv b \<Longrightarrow> content b = [] \<Longrightarrow> rpc_onMessage b = Inr ([], b)"
  using length_content [of b] by (subst rpc_onMessage.simps) simp

interpretation rpcs: framed_stream buf_inv content append_bytes retrieve
  rpc_onMessage rpc_encode rpc_deliver rpc_valid
  by unfold_locales (auto intro: rpc_onMessage_frame rpc_onMessage_partial rpc_onMessage_empty)

text \<open>C18: a message sent by \<^verbatim>\<open>RpcCodec::send\<close> is received by \<^verbatim>\<open>RpcCodec::onMessage\<close> as exactly one
  callback with the same id (its top bit turned into the response flag), the service and method of the
  name and the same payload, and the whole frame is consumed. The method arrives with the NUL that the
  sender counts into the name.\<close>

theorem rpc_send_receive_roundtrip:
  assumes "rpc_valid f"
  shows "\<exists>b b'. rpc_send (fr_id f) (fr_name f) (fr_payload f) = Inr b \<and> content b = rpc_encode f \<and>
    rpc_onMessage b = Inr ([rpc_deliver f], b') \<and> content b' = []"
proof -
  have h: "headroom_inv (mkBuffer kInitialSize)" "content (mkBuffer kInitialSize) = []" by simp_all
  from fillEmptyBuffer_content [OF h assms] obtain b where
    b: "rpc_send (fr_id f) (fr_name f) (fr_payload f) = Inr b" "buf_inv b" "content b = rpc_encode f"
    unfolding rpc_send_def by blast
  from rpcs.dec_frames [of b "[f]" "[]"] b assms show ?thesis by auto
qed

theorem rpc_send_receive_roundtrip_witness:
  "\<exists>b b'. rpc_send (2 ^ 63 + 5) ''S:m'' ''xy'' = Inr b \<and>
    content b = rpc_encode \<lparr>fr_id = 2 ^ 63 + 5, fr_name = ''S:m'', fr_payload = ''xy''\<rparr> \<and>
    rpc_onMessage b = Inr ([RpcMessage True 5 ''S'' (''m'' @ [NUL]) ''xy'' 2], b') \<and> content b' = []"
proof -
  let ?f = "\<lparr>fr_id = 2 ^ 63 + 5, fr_name = ''S:m'', fr_payload = ''xy''\<rparr>"
  have "rpc_valid ?f" by (simp add: rpc_valid_def rpc_len_def)
  moreover have "rpc_deliver ?f = RpcMessage True 5 ''S'' (''m'' @ [NUL]) ''xy'' 2"
    by (simp add: rpc_deliver_def)
  ultimately show ?thesis using rpc_send_receive_roundtrip [of ?f] by simp
qed

text \<open>C12: the RPC read loop does not depend on how TCP cuts the stream. Whatever pieces the bytes of a
  sequence of frames arrive in, calling \<^verbatim>\<open>onMessage\<close> after every piece delivers each frame exactly once,
  in order, and leaves nothing behind.\<close>

theorem rpc_stream_any_segmentation:
  assumes "buf_inv b" "content b = []" "\<forall>f \<in> set fs. rpc_valid f" "concat pieces = concat (map rpc_encode fs)"
  shows "\<exists>b'. feed append_bytes rpc_onMessage pieces b = Inr (map rpc_deliver fs, b') \<and> buf_inv b' \<and> content b' = []"
  using rpcs.feed_stream [of b fs pieces] assms by auto

theorem rpc_stream_any_segmentation_witness:
  "\<exists>b'. feed append_bytes rpc_onMessage
      [take 7 (rpc_encode \<lparr>fr_id = 1, fr_name = ''S:m'', fr_payload = ''xy''\<rparr>),
       drop 7 (rpc_encode \<lparr>fr_id = 1, fr_name = ''S:m'', fr_payload = ''xy''\<rparr>)] (mkBuffer 0)
     = Inr ([RpcMessage False 1 ''S'' (''m'' @ [NUL]) ''xy'' 2], b') \<and> buf_inv b' \<and> content b' = []"
proof -
  let ?f = "\<lparr>fr_id = 1, fr_name = ''S:m'', fr_payload = ''xy''\<rparr>"
  have "rpc_valid ?f" by (simp add: rpc_valid_def rpc_len_def)
  moreover have "rpc_deliver ?f = RpcMessage False 1 ''S'' (''m'' @ [NUL]) ''xy'' 2"
    by (simp add: rpc_deliver_def)
  ultimately show ?thesis
    using rpc_stream_any_segmentation [of "mkBuffer 0" "[?f]" "[take 7 (rpc_encode ?f), drop 7 (rpc_encode ?f)]"]
    by simp
qed


subsection \<open>Malformed input\<close>

text \<open>C31: a frame whose length field is out of range is reported as \<^verbatim>\<open>kInvalidLength\<close> and left in the
  buffer. Since the default error callback only logs, every later call, whatever bytes have arrived in
  the meantime, finds the same length again, reports the same error and delivers nothing.\<close>

theorem rpc_invalid_length_blocks_stream:
  assumes "buf_inv b" "content b = be_bytes (w :: 32 word) @ rest" "15 \<le> length rest"
    "sint w < kMinMessageLen \<or> kMaxMessageLen < sint w"
  shows "rpc_onMessage b = Inr ([RpcError kInvalidLength], b) \<and>
    (\<exists>b'. append_bytes extra b = Inr b' \<and> content b' = content b @ extra \<and>
      rpc_onMessage b' = Inr ([RpcError kInvalidLength], b'))"
proof -
  have stuck: "rpc_onMessage c = Inr ([RpcError kInvalidLength], c)"
    if "buf_inv c" "content c = be_bytes w @ r" "15 \<le> length r" for c r
  proof -
    have "19 \<le> readableBytes c" using length_content [OF that(1)] that(2,3) by simp
    moreover have "rpc_iteration c = Inr ([RpcError kInvalidLength], False, c)"
      using peekInt32_be [OF that(1,2)] assms(4) by (auto simp: rpc_iteration_def Let_def)
    ultimately show ?thesis by (subst rpc_onMessage.simps) simp
  qed
  have "rpc_onMessage b = Inr ([RpcError kInvalidLength], b)" using stuck assms(1-3) by blast
  moreover from bq.app_spec [OF assms(1), of extra] obtain b' where
    b': "append_bytes extra b = Inr b'" "buf_inv b'" "content b' = content b @ extra" by blast
  moreover have "rpc_onMessage b' = Inr ([RpcError kInvalidLength], b')"
    using stuck [OF b'(2), of "rest @ extra"] b'(3) assms(2,3) by simp
  ultimately show ?thesis by blast
qed

theorem rpc_invalid_length_blocks_stream_witness:
  "\<exists>b. content b = be_bytes (0 :: 32 word) @ replicate 15 NUL \<and>
     rpc_onMessage b = Inr ([RpcError kInvalidLength], b)"
proof -
  obtain b where b: "buf_inv b" "content b = be_bytes (0 :: 32 word) @ replicate 15 NUL"
    using bq.app_spec [of "mkBuffer 0" "be_bytes (0 :: 32 word) @ replicate 15 NUL"] by auto
  have "rpc_onMessage b = Inr ([RpcError kInvalidLength], b)"
    by (rule rpc_invalid_length_blocks_stream [THEN conjunct1, OF b]) simp_all
  with b(2) show ?thesis by blast
qed

text \<open>C25: the check on the name length allows four bytes too many. A frame whose name field is up to four
  bytes longer than its body is accepted: the name is read past the end of the frame and the callback
  gets the negative data length \<open>- k\<close>.\<close>

theorem rpc_negative_data_length:
  assumes "buf_inv b" "content b = be_bytes (len :: 32 word) @ be_bytes (fid :: 64 word)
      @ be_bytes (nl :: 32 word) @ body @ rest"
    "sint len = 12 + int (length body)" "3 \<le> length body" "length body \<le> 1024"
    "sint nl = int (length body) + int k" "1 \<le> k" "k \<le> 4" "CHR '':'' \<in> set body"
    "peek b + 16 + length body + k \<le> length (store b)"
  shows "\<exists>r i s m b'. rpc_iteration b = Inr ([RpcMessage r i s m [] (- int k)], True, b')"
proof -
  let ?n = "bytes_at b (peek b + 16) (length body + k)"
  have len: "peekInt32 b = Inr len" by (rule peekInt32_be [OF assms(1,2)])
  have nl: "asInt32 b (peek b + 12) = nl"
    using bytes_at_inside [OF assms(1), of "be_bytes len @ be_bytes fid" "be_bytes nl"] assms(2)
    by (simp add: asInt32_def)
  have "bytes_at b (peek b + 16) (length body) = body"
    using bytes_at_inside [OF assms(1), of "be_bytes len @ be_bytes fid @ be_bytes nl" body] assms(2) by simp
  then have "take (length body) ?n = body" by (simp add: bytes_at_def min_def)
  then have "CHR '':'' \<in> set ?n" using assms(9) by (metis in_set_takeD)
  then have pos: "std_find (CHR '':'') ?n \<noteq> length ?n" by (simp add: std_find_notin)
  have rd: "16 + length body \<le> readableBytes b" using length_content [OF assms(1)] assms(2) by simp
  then obtain b' where r: "retrieve (16 + length body) b = Inr b'"
    using retrieve_Inr [OF assms(1)] by metis
  have idx: "nat (int (length body) + int k) = length body + k" by simp
  have ln: "nat (12 + int (length body) + 4) = 16 + length body"
    "nat (4 + (12 + int (length body))) = 16 + length body" by simp_all
  show ?thesis using len nl pos rd r assms(3-8,10) idx ln
    by (auto simp: rpc_iteration_def Let_def add.assoc bytes_at_def)
qed


theorem rpc_negative_data_length_witness:
  "\<exists>b r i s m b'. content b = be_bytes (15 :: 32 word) @ be_bytes (0 :: 64 word) @ be_bytes (7 :: 32 word) @ ''a:b''
     \<and> rpc_iteration b = Inr ([RpcMessage r i s m [] (-4)], True, b')"
proof -
  let ?d = "be_bytes (15 :: 32 word) @ be_bytes (0 :: 64 word) @ be_bytes (7 :: 32 word) @ ''a:b'' @ []"
  let ?b = "\<lparr>store = replicate 8 NUL @ ?d @ replicate 10 NUL, readerIndex = 8, writerIndex = 8 + length ?d\<rparr>"
  have inv: "buf_inv ?b" by (simp add: buf_inv_def)
  have c: "content ?b = ?d" by (simp add: content_def bytes_at_def readableBytes_def)
  have "\<exists>r i s m b'. rpc_iteration ?b = Inr ([RpcMessage r i s m [] (- int 4)], True, b')"
    by (rule rpc_negative_data_length [OF inv c]) (simp_all add: peek_def)
  with c show ?thesis by auto
qed

lemma rpc_iteration_total:
  assumes "headroom_inv b" "4 \<le> writableBytes b" "19 \<le> readableBytes b"
  obtains ev again b' n where "rpc_iteration b = Inr (ev, again, b')" "headroom_inv b'"
    "4 \<le> writableBytes b'" "content b' = drop n (content b)"
proof -
  have inv: "buf_inv b" using assms(1) by (simp add: headroom_inv_def)
  obtain w where w: "peekInt32 b = Inr w" using assms(3) by (simp add: peekInt32_def)
  let ?n = "nat (kHeaderLen + sint w)"
  have ret: "\<exists>b'. retrieve ?n b = Inr b' \<and> headroom_inv b' \<and> 4 \<le> writableBytes b'
      \<and> content b' = drop ?n (content b)" if "?n \<le> readableBytes b"
  proof -
    from retrieve_Inr [OF inv that] assms(1) obtain b' where "retrieve ?n b = Inr b'"
      "content b' = drop ?n (content b)" "headroom_inv b'" by metis
    with retrieve_writable [OF assms(1)] assms(2) show ?thesis by fastforce
  qed
  have store: "length (store b) = writerIndex b + writableBytes b" "readableBytes b = writerIndex b - peek b"
    using inv by (simp_all add: buffer_defs)
  consider (bad) "kMaxMessageLen < sint w \<or> sint w < kMinMessageLen"
    | (short) "\<not> (kMaxMessageLen < sint w \<or> sint w < kMinMessageLen)" "readableBytes b < ?n"
    | (full) "\<not> (kMaxMessageLen < sint w \<or> sint w < kMinMessageLen)" "?n \<le> readableBytes b" by linarith
  then show thesis
  proof cases
    case bad
    then have "rpc_iteration b = Inr ([RpcError kInvalidLength], False, b)"
      using w by (auto simp: rpc_iteration_def Let_def)
    then show thesis using assms by (intro that [of _ _ b 0]) auto
  next
    case short
    then have "rpc_iteration b = Inr ([], False, b)"
      using w by (auto simp: rpc_iteration_def Let_def add.commute)
    then show thesis using assms by (intro that [of _ _ b 0]) auto
  next
    case full
    from ret [OF full(2)] obtain b' where b': "retrieve ?n b = Inr b'" "headroom_inv b'"
      "4 \<le> writableBytes b'" "content b' = drop ?n (content b)" by blast
    have "\<exists>ev again. rpc_iteration b = Inr (ev, again, b')"
      using w full b'(1) store assms(2)
      by (auto simp: rpc_iteration_def Let_def add.commute)
    with b' show thesis using that by blast
  qed
qed



end
