(* ===== verification/ClientCodec.thy ===== *)
theory ClientCodec
  imports RpcCodec
begin

text \<open>
  \<^verbatim>\<open>gateserver/ClientCodec.h\<close>: the frame format between the gate and its clients (a big-endian
  packet length that counts itself, header length, version, operation, sequence number, body). The read
  loop returns the calls it makes on the message callback and on the connection as a list of events.
  \<^verbatim>\<open>len\<close> is a \<^verbatim>\<open>size_t\<close> made from a signed 32-bit field and \<^verbatim>\<open>len - 16\<close> is computed at that width.
\<close>

datatype client_event = ClientMessage "32 word" "32 word" string | ClientClose

text \<open>\<^verbatim>\<open>std::string::max_size()\<close>: constructing a longer string throws \<^verbatim>\<open>std::length_error\<close>.\<close>

definition string_max_size :: nat where "string_max_size = 2 ^ 63 - 1"

definition client_iteration :: "Buffer \<Rightarrow> (client_event list \<times> bool \<times> Buffer) result" where
  "client_iteration b =
     rbind (peekInt32 b) (\<lambda>len32.
     let len = scast len32 :: 64 word in
     if len > 65536 then Inr ([ClientClose], False, b)
     else if readableBytes b \<ge> unat len
     then
       rbind (retrieve (4 + 4) b) (\<lambda>b.
       rbind (peekInt32 b) (\<lambda>op.
       rbind (retrieve 4 b) (\<lambda>b.
       rbind (peekInt32 b) (\<lambda>mid.
       rbind (retrieve 4 b) (\<lambda>b.
       let n = unat (len - 16) in
       if string_max_size < n then Inl LengthError
       else
         (let body = bytes_at b (peek b) n
          in rbind (retrieve n b) (\<lambda>b. Inr ([ClientMessage op mid body], True, b))))))))
     else Inr ([], False, b))"

lemma client_iteration_consumes:
  "client_iteration b = Inr (ev, True, b') \<Longrightarrow> readableBytes b' < readableBytes b"
  by (auto simp: client_iteration_def result_simps Let_def split: if_splits dest!: retrieve_readable)
     (auto simp: peekInt32_def result_simps)

function client_onMessage :: "Buffer \<Rightarrow> (client_event list \<times> Buffer) result" where
  "client_onMessage b =
     (if readableBytes b \<ge> 4
      then rbind (client_iteration b) (\<lambda>(ev, again, b').
             if again then rbind (client_onMessage b') (\<lambda>(evs, b''). Inr (ev @ evs, b''))
             else Inr (ev, b'))
      else Inr ([], b))"
  by pat_completeness auto
termination
  by (relation "measure readableBytes") (auto dest: client_iteration_consumes)

declare client_onMessage.simps [simp del]

definition client_fillEmptyBuffer :: "Buffer \<Rightarrow> 32 word \<Rightarrow> 32 word \<Rightarrow> string \<Rightarrow> Buffer result" where
  "client_fillEmptyBuffer b op mid body =
     rbind (appendInt16 16 b) (\<lambda>b.
     rbind (appendInt16 1 b) (\<lambda>b.
     rbind (appendInt32 op b) (\<lambda>b.
     rbind (appendInt32 mid b) (\<lambda>b.
     rbind (append_bytes body b) (\<lambda>b.
     let len = word_of_nat (readableBytes b) + 4 :: 32 word in
     prepend (mem_bytes (hostToNetwork32 len)) b)))))"

definition client_send :: "32 word \<Rightarrow> 32 word \<Rightarrow> string \<Rightarrow> Buffer result" where
  "client_send op mid body = client_fillEmptyBuffer (mkBuffer kInitialSize) op mid body"

subsection \<open>The frame format\<close>

record gate_frame =
  gf_op :: "32 word"
  gf_seq :: "32 word"
  gf_body :: string

definition gate_len :: "gate_frame \<Rightarrow> nat" where
  "gate_len f = 16 + length (gf_body f)"

definition gate_encode :: "gate_frame \<Rightarrow> byte list" where
  "gate_encode f = be_bytes (word_of_nat (gate_len f) :: 32 word) @ be_bytes (16 :: 16 word) @ be_bytes (1 :: 16 word)
     @ be_bytes (gf_op f) @ be_bytes (gf_seq f) @ gf_body f"

definition gate_valid :: "gate_frame \<Rightarrow> bool" where
  "gate_valid f \<longleftrightarrow> gate_len f \<le> 65536"

definition gate_deliver :: "gate_frame \<Rightarrow> client_event" where
  "gate_deliver f = ClientMessage (gf_op f) (gf_seq f) (gf_body f)"

lemma length_gate_encode: "length (gate_encode f) = gate_len f"
  by (simp add: gate_encode_def gate_len_def)

lemma scast_len:
  assumes "n < 2 ^ 31"
  shows "scast (word_of_nat n :: 32 word) = (word_of_nat n :: 64 word)"
    "unat (word_of_nat n :: 64 word) = n"
proof -
  have "sint (word_of_nat n :: 32 word) = int n" using assms by (rule sint_small)
  then show "scast (word_of_nat n :: 32 word) = (word_of_nat n :: 64 word)"
    by (metis of_int_of_nat_eq of_int_sint)
  show "unat (word_of_nat n :: 64 word) = n"
    using assms by (simp add: unsigned_of_nat take_bit_nat_eq_self)
qed

lemma gate_valid_len:
  assumes "gate_valid f"
  shows "unat (scast (word_of_nat (gate_len f) :: 32 word) :: 64 word) = gate_len f"
    "unat ((scast (word_of_nat (gate_len f) :: 32 word) :: 64 word) - 16) = length (gf_body f)"
proof -
  have lt: "gate_len f < 2 ^ 31" using assms by (simp add: gate_valid_def)
  show l: "unat (scast (word_of_nat (gate_len f) :: 32 word) :: 64 word) = gate_len f"
    using scast_len [OF lt] by simp
  have "(16 :: 64 word) \<le> scast (word_of_nat (gate_len f) :: 32 word)"
    unfolding word_le_nat_alt l by (simp add: gate_len_def)
  then show "unat ((scast (word_of_nat (gate_len f) :: 32 word) :: 64 word) - 16) = length (gf_body f)"
    using l by (simp add: unat_sub gate_len_def)
qed

subsection \<open>Sender and receiver agree on the format\<close>

lemma client_fillEmptyBuffer_content:
  assumes "headroom_inv b" "content b = []"
  shows "\<exists>b'. client_fillEmptyBuffer b (gf_op f) (gf_seq f) (gf_body f) = Inr b' \<and> buf_inv b'
     \<and> content b' = gate_encode f"
proof -
  let ?h = "be_bytes (16 :: 16 word) @ be_bytes (1 :: 16 word)"
  from hq.app_spec [OF assms(1), of "be_bytes (16 :: 16 word)"] assms(2) obtain b1 where
    b1: "append_bytes (be_bytes (16 :: 16 word)) b = Inr b1" "headroom_inv b1"
      "content b1 = be_bytes (16 :: 16 word)" by auto
  from hq.app_spec [OF b1(2), of "be_bytes (1 :: 16 word)"] b1(3) obtain b2 where
    b2: "append_bytes (be_bytes (1 :: 16 word)) b1 = Inr b2" "headroom_inv b2" "content b2 = ?h" by auto
  from hq.app_spec [OF b2(2), of "be_bytes (gf_op f)"] b2(3) obtain b3 where
    b3: "append_bytes (be_bytes (gf_op f)) b2 = Inr b3" "headroom_inv b3"
      "content b3 = ?h @ be_bytes (gf_op f)" by auto
  from hq.app_spec [OF b3(2), of "be_bytes (gf_seq f)"] b3(3) obtain b4 where
    b4: "append_bytes (be_bytes (gf_seq f)) b3 = Inr b4" "headroom_inv b4"
      "content b4 = ?h @ be_bytes (gf_op f) @ be_bytes (gf_seq f)" by auto
  from hq.app_spec [OF b4(2), of "gf_body f"] b4(3) obtain b5 where
    b5: "append_bytes (gf_body f) b4 = Inr b5" "headroom_inv b5"
      "content b5 = ?h @ be_bytes (gf_op f) @ be_bytes (gf_seq f) @ gf_body f" by auto
  have inv: "buf_inv b5" and room: "4 \<le> readerIndex b5" using b5(2) by (simp_all add: headroom_inv_def)
  have "readableBytes b5 = 12 + length (gf_body f)" using length_content [OF inv] b5(3) by simp
  then have len: "word_of_nat (readableBytes b5) + 4 = (word_of_nat (gate_len f) :: 32 word)"
    by (simp add: gate_len_def)
  have "length (be_bytes (word_of_nat (gate_len f) :: 32 word)) \<le> readerIndex b5" using room by simp
  from prepend_Inr [OF inv this] b5(3) obtain b6 where
    "prepend (be_bytes (word_of_nat (gate_len f) :: 32 word)) b5 = Inr b6" "buf_inv b6"
    "content b6 = gate_encode f" by (metis gate_encode_def append.assoc)
  then show ?thesis using b1 b2 b3 b4 b5 len
    by (simp add: client_fillEmptyBuffer_def append_int_defs Let_def)
qed

lemma client_iteration_frame:
  assumes inv: "buf_inv b" and v: "gate_valid f" and c: "content b = gate_encode f @ rest"
  shows "\<exists>b'. client_iteration b = Inr ([gate_deliver f], True, b') \<and> buf_inv b' \<and> content b' = rest"
proof -
  let ?len = "word_of_nat (gate_len f) :: 32 word"
  let ?h = "be_bytes ?len @ be_bytes (16 :: 16 word) @ be_bytes (1 :: 16 word)"
  have c': "content b = be_bytes ?len @ be_bytes (16 :: 16 word) @ be_bytes (1 :: 16 word)
      @ be_bytes (gf_op f) @ be_bytes (gf_seq f) @ gf_body f @ rest"
    using c by (simp add: gate_encode_def)
  then have ch: "content b = ?h @ be_bytes (gf_op f) @ be_bytes (gf_seq f) @ gf_body f @ rest" by simp
  have len: "peekInt32 b = Inr ?len" by (rule peekInt32_be [OF inv c'])
  obtain b1 where b1: "retrieve 8 b = Inr b1" "buf_inv b1"
    "content b1 = be_bytes (gf_op f) @ be_bytes (gf_seq f) @ gf_body f @ rest"
    using retrieve_prefix [OF inv ch, of 8] by auto
  obtain b2 where b2: "retrieve 4 b1 = Inr b2" "buf_inv b2"
    "content b2 = be_bytes (gf_seq f) @ gf_body f @ rest"
    using retrieve_prefix [OF b1(2,3), of 4] by auto
  obtain b3 where b3: "retrieve 4 b2 = Inr b3" "buf_inv b3" "content b3 = gf_body f @ rest"
    using retrieve_prefix [OF b2(2,3), of 4] by auto
  obtain b4 where b4: "retrieve (length (gf_body f)) b3 = Inr b4" "buf_inv b4" "content b4 = rest"
    using retrieve_prefix [OF b3(2,3) refl] by auto
  have rd: "gate_len f \<le> readableBytes b"
    using length_content [OF inv] c length_gate_encode [of f] by simp
  have small: "\<not> (65536 :: 64 word) < scast ?len"
    using v gate_valid_len [OF v] by (simp add: word_less_nat_alt gate_valid_def)
  have max: "\<not> string_max_size < length (gf_body f)"
    using v by (simp add: string_max_size_def gate_valid_def gate_len_def)
  have "client_iteration b = Inr ([gate_deliver f], True, b4)"
    using len small rd max b1(1) b2(1) b3(1) b4(1) gate_valid_len [OF v]
      peekInt32_be [OF b1(2,3)] peekInt32_be [OF b2(2,3)] bytes_at_peek [OF b3(2,3)]
    by (simp add: client_iteration_def gate_deliver_def Let_def)
  with b4 show ?thesis by blast
qed

lemma client_onMessage_frame:
  assumes "buf_inv b" "gate_valid f" "content b = gate_encode f @ rest"
  shows "\<exists>b'. buf_inv b' \<and> content b' = rest \<and>
    client_onMessage b = rbind (client_onMessage b') (\<lambda>(evs, b''). Inr (gate_deliver f # evs, b''))"
proof -
  from client_iteration_frame [OF assms] obtain b' where
    b': "client_iteration b = Inr ([gate_deliver f], True, b')" "buf_inv b'" "content b' = rest" by blast
  have "4 \<le> readableBytes b"
    using length_content [OF assms(1)] assms(3) length_gate_encode [of f] by (simp add: gate_len_def)
  then show ?thesis using b' by (subst client_onMessage.simps) auto
qed

lemma client_onMessage_partial:
  assumes "buf_inv b" "gate_valid f" "strict_prefix (content b) (gate_encode f)"
  shows "client_onMessage b = Inr ([], b)"
proof (cases "readableBytes b \<ge> 4")
  case True
  let ?l = "word_of_nat (gate_len f) :: 32 word"
  obtain t where t: "gate_encode f = content b @ t" "t \<noteq> []"
    using assms(3) by (auto simp: strict_prefix_def prefix_def)
  have len: "length (content b) = readableBytes b" using assms(1) by simp
  have "take 4 (content b) = take 4 (gate_encode f)" using t True len by simp
  also have "\<dots> = be_bytes ?l" by (simp add: gate_encode_def)
  finally have "content b = be_bytes ?l @ drop 4 (content b)" by (metis append_take_drop_id)
  then have "peekInt32 b = Inr ?l" using peekInt32_be [OF assms(1)] by blast
  moreover have "length (content b @ t) = gate_len f" using t(1) length_gate_encode [of f] by simp
  then have "readableBytes b < gate_len f" using t(2) len by (cases t) auto
  moreover have "\<not> (65536 :: 64 word) < scast ?l"
    using assms(2) gate_valid_len [OF assms(2)] by (simp add: word_less_nat_alt gate_valid_def)
  ultimately have "client_iteration b = Inr ([], False, b)"
    using gate_valid_len(1) [OF assms(2)] by (simp add: client_iteration_def Let_def)
  then show ?thesis using True by (subst client_onMessage.simps) simp
next
  case False
  then show ?thesis by (subst client_onMessage.simps) simp
qed

lemma client_onMessage_empty: "buf_inv b \<Longrightarrow> content b = [] \<Longrightarrow> client_onMessage b = Inr ([], b)"
  using length_content [of b] by (subst client_onMessage.simps) simp

interpretation gates: framed_stream buf_inv content append_bytes retrieve
  client_onMessage gate_encode gate_deliver gate_valid
  by unfold_locales (auto intro: client_onMessage_frame client_onMessage_partial client_onMessage_empty)

text \<open>C20: a packet sent by \<^verbatim>\<open>ClientCodec::send\<close> with a body of at most 65520 bytes is received as one
  message with the same operation, sequence number and body, and is consumed whole.\<close>

theorem gate_send_receive_roundtrip:
  assumes "gate_valid f"
  shows "\<exists>b b'. client_send (gf_op f) (gf_seq f) (gf_body f) = Inr b \<and> content b = gate_encode f \<and>
    client_onMessage b = Inr ([gate_deliver f], b') \<and> content b' = []"
proof -
  have h: "headroom_inv (mkBuffer kInitialSize)" "content (mkBuffer kInitialSize) = []" by simp_all
  from client_fillEmptyBuffer_content [OF h, of f] obtain b where
    b: "client_send (gf_op f) (gf_seq f) (gf_body f) = Inr b" "buf_inv b" "content b = gate_encode f"
    unfolding client_send_def by blast
  from gates.dec_frames [of b "[f]" "[]"] b assms show ?thesis by auto
qed

theorem gate_send_receive_roundtrip_witness:
  "\<exists>b b'. client_send 8 0 ''success'' = Inr b \<and> content b = gate_encode \<lparr>gf_op = 8, gf_seq = 0, gf_body = ''success''\<rparr>
    \<and> client_onMessage b = Inr ([ClientMessage 8 0 ''success''], b') \<and> content b' = []"
  using gate_send_receive_roundtrip [of "\<lparr>gf_op = 8, gf_seq = 0, gf_body = ''success''\<rparr>"]
  by (simp add: gate_valid_def gate_len_def gate_deliver_def)

text \<open>C21: the gate's read loop delivers every packet of a client exactly once and in order, however the
  stream is cut into reads.\<close>

theorem gate_stream_any_segmentation:
  assumes "buf_inv b" "content b = []" "\<forall>f \<in> set fs. gate_valid f" "concat pieces = concat (map gate_encode fs)"
  shows "\<exists>b'. feed append_bytes client_onMessage pieces b = Inr (map gate_deliver fs, b') \<and> buf_inv b' \<and> content b' = []"
  using gates.feed_stream [of b fs pieces] assms by auto

theorem gate_stream_any_segmentation_witness:
  "\<exists>b'. feed append_bytes client_onMessage
      [take 3 (gate_encode \<lparr>gf_op = 2, gf_seq = 1, gf_body = []\<rparr>), drop 3 (gate_encode \<lparr>gf_op = 2, gf_seq = 1, gf_body = []\<rparr>)]
      (mkBuffer 0) = Inr ([ClientMessage 2 1 []], b') \<and> buf_inv b' \<and> content b' = []"
  using gate_stream_any_segmentation [of "mkBuffer 0" "[\<lparr>gf_op = 2, gf_seq = 1, gf_body = []\<rparr>]"
      "[take 3 (gate_encode \<lparr>gf_op = 2, gf_seq = 1, gf_body = []\<rparr>), drop 3 (gate_encode \<lparr>gf_op = 2, gf_seq = 1, gf_body = []\<rparr>)]"]
  by (simp add: gate_valid_def gate_len_def gate_deliver_def)

subsection \<open>Malformed packets\<close>

lemma short_length_facts:
  assumes "0 \<le> sint (w :: 32 word)" "sint w < 16"
  shows "unat (scast w :: 64 word) = nat (sint w)" "\<not> (65536 :: 64 word) < scast w"
    "string_max_size < unat ((scast w :: 64 word) - 16)"
proof -
  let ?l = "scast w :: 64 word"
  have "sint w = int (nat (sint w))" using assms(1) by simp
  then have "?l = word_of_nat (nat (sint w))" by (metis of_int_of_nat_eq of_int_sint)
  then show ul: "unat ?l = nat (sint w)"
    using assms(2) by (simp add: unsigned_of_nat take_bit_nat_eq_self)
  show "\<not> (65536 :: 64 word) < ?l" using ul assms(2) by (simp add: word_less_nat_alt)
  have "?l < 16" using ul assms by (simp add: word_less_nat_alt)
  then have "unat (?l - 16) = unat ?l + 2 ^ 64 - 16"
    by (simp add: unat_sub_if_size word_size word_less_nat_alt)
  then show "string_max_size < unat (?l - 16)" by (simp add: string_max_size_def)
qed

text \<open>C32: a packet length below the 16 bytes of the header is not rejected. As soon as the announced bytes
  are there, the loop either runs into an assertion of the buffer (fewer than 16 bytes are readable) or
  asks for a string of \<^verbatim>\<open>len - 16\<close> bytes, which wraps around and throws \<^verbatim>\<open>std::length_error\<close>: four
  bytes from any client stop the handler.\<close>

theorem gate_short_length_faults:
  assumes "buf_inv b" "content b = be_bytes (w :: 32 word) @ rest" "0 \<le> sint w" "sint w < 16"
    "sint w \<le> int (readableBytes b)"
  shows "client_onMessage b = Inl (if readableBytes b < 16 then AssertionFailed else LengthError)"
proof -
  note w = short_length_facts [OF assms(3,4)] peekInt32_be [OF assms(1,2)]
  have rd4: "4 \<le> readableBytes b" using readable_ge [OF assms(1,2)] by simp
  have fit: "unat (scast w :: 64 word) \<le> readableBytes b" using w(1) assms(5) by linarith
  have "client_iteration b = Inl (if readableBytes b < 16 then AssertionFailed else LengthError)"
  proof (cases "8 \<le> readableBytes b")
    case False
    then show ?thesis using w fit by (simp add: client_iteration_def Let_def retrieve_def)
  next
    case True
    from retrieve_Inr [OF assms(1) True] obtain b1 where b1: "retrieve 8 b = Inr b1" "buf_inv b1" by metis
    have r1: "readableBytes b1 = readableBytes b - 8" using retrieve_readable [OF b1(1)] .
    show ?thesis
    proof (cases "12 \<le> readableBytes b")
      case False
      then have "peekInt32 b1 = Inl AssertionFailed" using r1 by (auto simp: peekInt32_def assert_that_def)
      then show ?thesis using w fit b1 False by (simp add: client_iteration_def Let_def)
    next
      case True
      then have q1: "4 \<le> readableBytes b1" using r1 by simp
      then have p1: "\<exists>x. peekInt32 b1 = Inr x" by (simp add: peekInt32_def)
      from retrieve_Inr [OF b1(2) q1] obtain b2 where b2: "retrieve 4 b1 = Inr b2" "buf_inv b2" by metis
      have r2: "readableBytes b2 = readableBytes b - 12" using retrieve_readable [OF b2(1)] r1 by simp
      show ?thesis
      proof (cases "16 \<le> readableBytes b")
        case False
        then have "peekInt32 b2 = Inl AssertionFailed" using r2 by (auto simp: peekInt32_def assert_that_def)
        then show ?thesis using w fit b1 b2 p1 False by (auto simp: client_iteration_def Let_def)
      next
        case True
        then have q2: "4 \<le> readableBytes b2" using r2 by simp
        then have p2: "\<exists>x. peekInt32 b2 = Inr x" by (simp add: peekInt32_def)
        from retrieve_Inr [OF b2(2) q2] obtain b3 where "retrieve 4 b2 = Inr b3" by metis
        then show ?thesis using w fit b1 b2 p1 p2 True by (auto simp: client_iteration_def Let_def)
      qed
    qed
  qed
  then show ?thesis using rd4 by (subst client_onMessage.simps) simp
qed

theorem gate_short_length_faults_witness:
  "\<exists>b. content b = be_bytes (0 :: 32 word) \<and> client_onMessage b = Inl AssertionFailed"
proof -
  obtain b where b: "buf_inv b" "content b = be_bytes (0 :: 32 word) @ []"
    using bq.app_spec [of "mkBuffer 0" "be_bytes (0 :: 32 word)"] by auto
  have "readableBytes b = 4" using length_content [OF b(1)] b(2) by simp
  then show ?thesis using gate_short_length_faults [OF b] b(2) by auto
qed

end
