(* ===== verification/SessionModel.thy ===== *)
theory SessionModel
  imports ClientCodec RpcCodec
begin

text \<open>
  One TCP connection (\<^verbatim>\<open>src/net/Session.cc\<close>).

  The record \<open>Session\<close> holds the members of the class and, after them, what asio holds for it: the
  posted tasks, the room of the outstanding \<^verbatim>\<open>async_read_some\<close>, the memory range (offset and length in
  \<^verbatim>\<open>write_buf_\<close>) of the outstanding \<^verbatim>\<open>async_write_some\<close>, and whether a connect or the timer is
  outstanding. Each completion handler of the source is a function on this record that takes what asio
  reports; user callbacks are the events it returns, and the message callback is a parameter, which
  the servers set to one of the two codecs.

  The parts of \<^verbatim>\<open>send\<close>, \<^verbatim>\<open>write\<close> and the write handler between two lock operations are definitions of
  their own, so that the interleavings of sender threads with the loop thread are the sequences of
  these parts (\<open>net_step\<close>).
\<close>

subsection \<open>State\<close>

datatype sess_task = FlushIfIdle | CloseSocket

datatype sess_event = Connected | Disconnected "32 word"   \<comment> \<open>the callback takes an \<^verbatim>\<open>int\<close>\<close>

record Session =
  session_id :: "64 word"
  read_buf :: Buffer
  write_buf :: Buffer
  reconnect_flag :: bool
  peer_ip :: string
  peer_port :: int
  unsend_queue :: "Buffer list"
  tmp_queue :: "Buffer list"
  has_connection_cb :: bool
  has_disconnect_cb :: bool
  posted :: "sess_task list"
  reading :: "nat option"
  writing :: "(nat \<times> nat) option"
  connecting :: bool
  timer_set :: bool
  socket_open :: bool

definition mkSession :: "64 word \<Rightarrow> Session" where
  "mkSession i = \<lparr>session_id = i, read_buf = mkBuffer kInitialSize, write_buf = mkBuffer kInitialSize,
     reconnect_flag = False, peer_ip = [], peer_port = 0, unsend_queue = [], tmp_queue = [],
     has_connection_cb = False, has_disconnect_cb = False, posted = [], reading = None, writing = None,
     connecting = False, timer_set = False, socket_open = False\<rparr>"

subsection \<open>Connecting, closing and reading\<close>

definition session_read :: "Session \<Rightarrow> Session" where
  "session_read s = s\<lparr>reading := Some (writableBytes (read_buf s))\<rparr>"

definition session_start :: "Session \<Rightarrow> sess_event list \<times> Session" where
  "session_start s = (if has_connection_cb s then [Connected] else [], session_read s)"

text \<open>\<^verbatim>\<open>close\<close> calls the disconnect callback without testing that one is set.\<close>

definition session_close :: "Session \<Rightarrow> (sess_event list \<times> Session) result" where
  "session_close s = (if has_disconnect_cb s
     then Inr ([Disconnected (ucast (session_id s))], s\<lparr>posted := posted s @ [CloseSocket]\<rparr>)
     else Inl BadFunctionCall)"

definition session_reconnect :: "Session \<Rightarrow> Session" where
  "session_reconnect s = s\<lparr>timer_set := True\<rparr>"

text \<open>\<^verbatim>\<open>asio::ip::address::from_string\<close> throws on a string that is not an address; which strings are is
  the parameter \<open>valid_ip\<close>.\<close>

definition session_connect :: "(string \<Rightarrow> bool) \<Rightarrow> string \<Rightarrow> int \<Rightarrow> Session \<Rightarrow> Session result" where
  "session_connect valid_ip ip port s = (
     let s = s\<lparr>peer_ip := ip, peer_port := port, reconnect_flag := True\<rparr> in
     if valid_ip ip then Inr (s\<lparr>connecting := True\<rparr>) else Inl SystemError)"

definition connect_handler :: "bool \<Rightarrow> Session \<Rightarrow> sess_event list \<times> Session" where
  "connect_handler ok s = (let s = s\<lparr>connecting := False\<rparr> in
     if ok then session_start (s\<lparr>socket_open := True\<rparr>) else ([], session_reconnect (s\<lparr>socket_open := False\<rparr>)))"

definition timer_handler :: "(string \<Rightarrow> bool) \<Rightarrow> bool \<Rightarrow> Session \<Rightarrow> Session result" where
  "timer_handler valid_ip ok s = (let s = s\<lparr>timer_set := False\<rparr> in
     if ok then session_connect valid_ip (peer_ip s) (peer_port s) s else Inr s)"

text \<open>The read handler: \<open>Some data\<close> are the bytes asio has placed at \<^verbatim>\<open>beginWrite()\<close>, \<open>None\<close> is an error.\<close>

definition read_handler :: "(Buffer \<Rightarrow> ('m list \<times> Buffer) result) \<Rightarrow> byte list option \<Rightarrow> Session \<Rightarrow>
    ('m list \<times> sess_event list \<times> Session) result" where
  "read_handler messagecallback res s = (let s = s\<lparr>reading := None\<rparr> in
     case res of
       Some data \<Rightarrow>
         rbind (hasWritten (length data) (copy_to_write data (read_buf s))) (\<lambda>rb.
         rbind (messagecallback rb) (\<lambda>(ms, rb).
         rbind (ensureWritableBytes (length data) rb) (\<lambda>rb.
         Inr (ms, [], session_read (s\<lparr>read_buf := rb\<rparr>)))))
     | None \<Rightarrow>
         if reconnect_flag s then Inr ([], [], session_reconnect s)
         else rbind (session_close s) (\<lambda>(evs, s). Inr ([], evs, s)))"

definition close_socket_task :: "Session \<Rightarrow> Session" where
  "close_socket_task s = s\<lparr>socket_open := False\<rparr>"

subsection \<open>Sending\<close>

text \<open>\<^verbatim>\<open>send\<close>: under the lock, push and look whether a write is in progress; then, if none is, post the
  flush.\<close>

definition send_locked :: "Buffer \<Rightarrow> Session \<Rightarrow> bool \<times> Session" where
  "send_locked b s = (let s = s\<lparr>unsend_queue := unsend_queue s @ [b]\<rparr> in
     (readableBytes (write_buf s) = 0, s))"

definition send_post :: "Session \<Rightarrow> Session" where
  "send_post s = s\<lparr>posted := posted s @ [FlushIfIdle]\<rparr>"

definition session_send :: "Buffer \<Rightarrow> Session \<Rightarrow> Session" where
  "session_send b s = (let (idle, s) = send_locked b s in if idle then send_post s else s)"

text \<open>\<^verbatim>\<open>write\<close>: under the lock, take the queue (the result says whether there is anything to write); then
  append everything to \<^verbatim>\<open>write_buf_\<close> and start one asynchronous write of its readable bytes.\<close>

definition write_locked :: "Session \<Rightarrow> bool \<times> Session" where
  "write_locked s = (let s = s\<lparr>tmp_queue := unsend_queue s, unsend_queue := []\<rparr> in (tmp_queue s \<noteq> [], s))"

fun append_buffers :: "Buffer list \<Rightarrow> Buffer \<Rightarrow> Buffer result" where
  "append_buffers [] wb = Inr wb"
| "append_buffers (b # bs) wb =
     rbind (append_bytes (bytes_at b (peek b) (readableBytes b)) wb) (append_buffers bs)"

definition write_start :: "Session \<Rightarrow> Session result" where
  "write_start s = rbind (append_buffers (tmp_queue s) (write_buf s)) (\<lambda>wb.
     Inr (s\<lparr>write_buf := wb, writing := Some (peek wb, readableBytes wb)\<rparr>))"

definition session_write :: "Session \<Rightarrow> Session result" where
  "session_write s = (let (go, s) = write_locked s in if go then write_start s else Inr s)"

text \<open>The task \<^verbatim>\<open>send\<close> posts.\<close>

definition flush_task :: "Session \<Rightarrow> Session result" where
  "flush_task s = (if readableBytes (write_buf s) = 0 then session_write s else Inr s)"

text \<open>The write handler: it drops all readable bytes, whatever number asio reports as written, then
  looks under the lock whether more has been queued.\<close>

definition write_done_retrieve :: "Session \<Rightarrow> Session result" where
  "write_done_retrieve s = rbind (retrieve (readableBytes (write_buf s)) (write_buf s)) (\<lambda>wb.
     Inr (s\<lparr>write_buf := wb\<rparr>))"

definition write_handler :: "nat option \<Rightarrow> Session \<Rightarrow> (sess_event list \<times> Session) result" where
  "write_handler res s = (let s = s\<lparr>writing := None\<rparr> in
     case res of
       Some n \<Rightarrow> rbind (write_done_retrieve s) (\<lambda>s.
         if unsend_queue s = [] then Inr ([], s) else rbind (session_write s) (\<lambda>s. Inr ([], s)))
     | None \<Rightarrow> session_close s)"

text \<open>\<^verbatim>\<open>addTimerHandler\<close>: a fresh timer whose handler runs the callback unless it was cancelled.\<close>

definition timer_callback :: "('s \<Rightarrow> 's) \<Rightarrow> bool \<Rightarrow> 's \<Rightarrow> 's" where
  "timer_callback cb ok st = (if ok then cb st else st)"

subsection \<open>The receiving side delivers the stream\<close>

text \<open>A connection whose peer has sent \<open>inp\<close>: at the \<open>i\<close>-th completion the kernel has at least
  \<open>ks ! i + 1\<close> bytes to give and hands over as many as the offered room takes. With no bytes left, or no
  room offered, the read stays outstanding.\<close>

fun read_stream :: "(Buffer \<Rightarrow> ('m list \<times> Buffer) result) \<Rightarrow> nat list \<Rightarrow> byte list \<Rightarrow> Session \<Rightarrow>
    ('m list \<times> byte list \<times> Session) result" where
  "read_stream mcb [] inp s = Inr ([], inp, s)"
| "read_stream mcb (k # ks) inp s = (case reading s of None \<Rightarrow> Inr ([], inp, s) | Some room \<Rightarrow>
     let d = take (min (Suc k) room) inp in
     if d = [] then Inr ([], inp, s) else
     rbind (read_handler mcb (Some d) s) (\<lambda>(ms, evs, s).
     rbind (read_stream mcb ks (drop (length d) inp) s) (\<lambda>(ms', inp', s). Inr (ms @ ms', inp', s))))"

text \<open>A session is ready when its read buffer is well formed and the outstanding read has room.\<close>

definition read_ready :: "Session \<Rightarrow> bool" where
  "read_ready s = (buf_inv (read_buf s) \<and> reading s = Some (writableBytes (read_buf s)) \<and> 0 < writableBytes (read_buf s))"

lemma read_ready_start: "read_ready (snd (session_start (mkSession i)))"
  by (simp add: read_ready_def session_start_def session_read_def mkSession_def)

lemma read_handler_data:
  assumes "read_ready s" "d \<noteq> []" "length d \<le> writableBytes (read_buf s)"
    "\<And>b. buf_inv b \<Longrightarrow> content b = content (read_buf s) @ d \<Longrightarrow> \<exists>ms b'. mcb b = Inr (ms, b') \<and> buf_inv b' \<and> P ms (content b')"
  shows "\<exists>ms s'. read_handler mcb (Some d) s = Inr (ms, [], s') \<and> read_ready s' \<and> P ms (content (read_buf s'))"
proof -
  have inv: "buf_inv (read_buf s)" using assms(1) by (simp add: read_ready_def)
  from write_Inr [OF inv assms(3)] obtain b1 where
    b1: "hasWritten (length d) (copy_to_write d (read_buf s)) = Inr b1" "buf_inv b1"
      "content b1 = content (read_buf s) @ d" by metis
  from assms(4) [OF b1(2,3)] obtain ms b2 where
    b2: "mcb b1 = Inr (ms, b2)" "buf_inv b2" "P ms (content b2)" by blast
  from ensureWritable_Inr [OF b2(2), of "length d"] obtain b3 where
    b3: "ensureWritableBytes (length d) b2 = Inr b3" "buf_inv b3" "content b3 = content b2" "length d \<le> writableBytes b3"
    by metis
  have "read_ready (session_read (s\<lparr>reading := None, read_buf := b3\<rparr>))"
    using b3(2,4) assms(2) by (cases d) (auto simp: read_ready_def session_read_def)
  then show ?thesis using b1 b2 b3 by (auto simp: read_handler_def session_read_def)
qed

locale session_stream = framed_stream buf_inv content append_bytes retrieve dec enc deliver valid
  for dec :: "Buffer \<Rightarrow> ('m list \<times> Buffer) result" and enc :: "'f \<Rightarrow> byte list"
    and deliver :: "'f \<Rightarrow> 'm" and valid :: "'f \<Rightarrow> bool"
begin

lemma read_stream_delivers:
  assumes "read_ready s" "\<forall>m \<in> set ms. valid m" "content (read_buf s) @ inp = concat (map enc ms)"
    "content (read_buf s) = [] \<or> (ms \<noteq> [] \<and> strict_prefix (content (read_buf s)) (enc (hd ms)))"
    "length inp \<le> length ks"
  shows "\<exists>s'. read_stream dec ks inp s = Inr (map deliver ms, [], s') \<and> read_ready s' \<and> content (read_buf s') = []"
  using assms
proof (induction ks arbitrary: s ms inp)
  case Nil
  then show ?case using partial_done [of "read_buf s" ms] by (simp add: read_ready_def)
next
  case (Cons k ks)
  have rdy: "reading s = Some (writableBytes (read_buf s))" "0 < writableBytes (read_buf s)" "buf_inv (read_buf s)"
    using Cons.prems(1) by (simp_all add: read_ready_def)
  show ?case
  proof (cases "inp = []")
    case True
    then have "ms = []" using partial_done [of "read_buf s" ms] Cons.prems rdy by simp
    then show ?thesis using True rdy Cons.prems by simp
  next
    case False
    let ?d = "take (min (Suc k) (writableBytes (read_buf s))) inp"
    let ?rest = "drop (length ?d) inp"
    let ?Q = "\<lambda>j c. c @ ?rest = concat (map enc (drop j ms)) \<and>
      (c = [] \<or> (drop j ms \<noteq> [] \<and> strict_prefix c (enc (hd (drop j ms)))))"
    let ?P = "\<lambda>out c. \<exists>j. out = map deliver (take j ms) \<and> ?Q j c"
    have d: "?d \<noteq> []" "length ?d \<le> writableBytes (read_buf s)" using False rdy(2) by auto
    have inp: "?d @ ?rest = inp" by (simp add: min_def)
    have "\<exists>out b'. dec b = Inr (out, b') \<and> buf_inv b' \<and> ?P out (content b')"
      if "buf_inv b" "content b = content (read_buf s) @ ?d" for b
    proof -
      have "content b @ ?rest = concat (map enc ms)" using Cons.prems(3) inp that(2) by (metis append.assoc)
      from dec_progress [OF that(1) Cons.prems(2) this] show ?thesis by metis
    qed
    from read_handler_data [OF Cons.prems(1) d, of dec ?P, OF this] obtain out s1 where
      s1: "read_handler dec (Some ?d) s = Inr (out, [], s1)" "read_ready s1" "?P out (content (read_buf s1))" by blast
    from s1(3) obtain j where j: "out = map deliver (take j ms)" "?Q j (content (read_buf s1))" by blast
    have v: "\<forall>m \<in> set (drop j ms). valid m" using Cons.prems(2) by (meson in_set_dropD)
    have len: "length ?rest \<le> length ks" using Cons.prems(5) d(1) by (cases ?d) auto
    from Cons.IH [OF s1(2) v conjunct1 [OF j(2)] conjunct2 [OF j(2)] len] obtain s2 where
      s2: "read_stream dec ks ?rest s1 = Inr (map deliver (drop j ms), [], s2)" "read_ready s2"
        "content (read_buf s2) = []" by blast
    have "map deliver (take j ms) @ map deliver (drop j ms) = map deliver ms"
      by (metis append_take_drop_id map_append)
    then show ?thesis using s1(1) s2 j(1) d(1) rdy(1) by (simp add: Let_def)
  qed
qed

end

interpretation rpc_session: session_stream rpc_onMessage rpc_encode rpc_deliver rpc_valid ..

interpretation gate_session: session_stream client_onMessage gate_encode gate_deliver gate_valid ..

text \<open>C19: a session that reads RPC frames hands every frame of the peer to the callback, once and in
  order, whatever the sizes of the reads; every read is issued with room for at least one byte, so the
  session never spins on a full buffer and one read per byte is always enough.\<close>

theorem rpc_session_delivers:
  assumes "read_ready s" "content (read_buf s) = []" "\<forall>f \<in> set fs. rpc_valid f"
    "length (concat (map rpc_encode fs)) \<le> length ks"
  shows "\<exists>s'. read_stream rpc_onMessage ks (concat (map rpc_encode fs)) s = Inr (map rpc_deliver fs, [], s') \<and>
    read_ready s' \<and> content (read_buf s') = []"
  using rpc_session.read_stream_delivers [of s fs "concat (map rpc_encode fs)" ks] assms by simp

theorem rpc_session_delivers_witness:
  "\<exists>s'. read_stream rpc_onMessage (replicate 60 4) (rpc_encode \<lparr>fr_id = 7, fr_name = ''a.S:m'', fr_payload = ''xy''\<rparr>)
      (snd (session_start (mkSession 1))) = Inr ([rpc_deliver \<lparr>fr_id = 7, fr_name = ''a.S:m'', fr_payload = ''xy''\<rparr>], [], s')
    \<and> read_ready s' \<and> content (read_buf s') = []"
proof -
  let ?f = "\<lparr>fr_id = 7, fr_name = ''a.S:m'', fr_payload = ''xy''\<rparr>"
  have "rpc_valid ?f" by (simp add: rpc_valid_def rpc_len_def)
  then show ?thesis
    using rpc_session_delivers [OF read_ready_start, of 1 "[?f]" "replicate 60 4"] length_rpc_encode [of ?f]
    by (simp add: session_start_def session_read_def mkSession_def rpc_len_def)
qed

text \<open>the same for a client session of the gate.\<close>

theorem gate_session_delivers:
  assumes "read_ready s" "content (read_buf s) = []" "\<forall>f \<in> set fs. gate_valid f"
    "length (concat (map gate_encode fs)) \<le> length ks"
  shows "\<exists>s'. read_stream client_onMessage ks (concat (map gate_encode fs)) s = Inr (map gate_deliver fs, [], s') \<and>
    read_ready s' \<and> content (read_buf s') = []"
  using gate_session.read_stream_delivers [of s fs "concat (map gate_encode fs)" ks] assms by simp

theorem gate_session_delivers_witness:
  "\<exists>s'. read_stream client_onMessage (replicate 20 2) (gate_encode \<lparr>gf_op = 2, gf_seq = 1, gf_body = ''hi''\<rparr>)
      (snd (session_start (mkSession 1))) = Inr ([ClientMessage 2 1 ''hi''], [], s')
    \<and> read_ready s' \<and> content (read_buf s') = []"
proof -
  let ?f = "\<lparr>gf_op = 2, gf_seq = 1, gf_body = ''hi''\<rparr>"
  have "gate_valid ?f" by (simp add: gate_valid_def gate_len_def)
  then show ?thesis
    using gate_session_delivers [OF read_ready_start, of 1 "[?f]" "replicate 20 2"] length_gate_encode [of ?f]
    by (simp add: session_start_def session_read_def mkSession_def gate_len_def gate_deliver_def)
qed

subsection \<open>Sender threads and the loop thread\<close>

text \<open>The loop thread is idle or between two parts of a handler.\<close>

datatype loop_pc = Idle | AtWrite | Swapped | Retrieved

record net =
  sess :: Session
  pc :: loop_pc
  await :: nat               \<comment> \<open>senders past the lock that still have to post the flush\<close>
  sent :: "byte list"        \<comment> \<open>the bytes passed to \<^verbatim>\<open>send\<close>, in the order of the lock\<close>
  wire :: "byte list"        \<comment> \<open>the bytes asio has taken\<close>

definition mkNet :: "64 word \<Rightarrow> net" where
  "mkNet i = \<lparr>sess = mkSession i, pc = Idle, await = 0, sent = [], wire = []\<rparr>"

text \<open>\<open>loop_step ok\<close> are the steps of the loop thread and of senders that are past the lock; a write of
  \<open>len\<close> bytes may complete with \<open>k\<close> bytes if \<open>ok k len\<close>. A connection makes these steps and the calls
  of \<^verbatim>\<open>send\<close>, in any interleaving.\<close>

inductive loop_step :: "(nat \<Rightarrow> nat \<Rightarrow> bool) \<Rightarrow> net \<Rightarrow> net \<Rightarrow> bool" for ok where
  post: "await n = Suc a \<Longrightarrow> loop_step ok n (n\<lparr>await := a, sess := send_post (sess n)\<rparr>)"
| task: "pc n = Idle \<Longrightarrow> posted (sess n) = FlushIfIdle # ts \<Longrightarrow>
    loop_step ok n (n\<lparr>sess := sess n\<lparr>posted := ts\<rparr>,
      pc := (if readableBytes (write_buf (sess n)) = 0 then AtWrite else Idle)\<rparr>)"
| lock: "pc n = AtWrite \<Longrightarrow> write_locked (sess n) = (go, s) \<Longrightarrow>
    loop_step ok n (n\<lparr>sess := s, pc := (if go then Swapped else Idle)\<rparr>)"
| start: "pc n = Swapped \<Longrightarrow> write_start (sess n) = Inr s \<Longrightarrow> loop_step ok n (n\<lparr>sess := s, pc := Idle\<rparr>)"
| complete: "pc n = Idle \<Longrightarrow> writing (sess n) = Some (off, len) \<Longrightarrow> 0 < k \<Longrightarrow> k \<le> len \<Longrightarrow> ok k len \<Longrightarrow>
    write_done_retrieve (sess n\<lparr>writing := None\<rparr>) = Inr s \<Longrightarrow>
    loop_step ok n (n\<lparr>sess := s, pc := Retrieved, wire := wire n @ bytes_at (write_buf (sess n)) off k\<rparr>)"
| check: "pc n = Retrieved \<Longrightarrow>
    loop_step ok n (n\<lparr>pc := (if unsend_queue (sess n) = [] then Idle else AtWrite)\<rparr>)"

inductive net_step :: "(nat \<Rightarrow> nat \<Rightarrow> bool) \<Rightarrow> net \<Rightarrow> net \<Rightarrow> bool" for ok where
  send: "buf_inv b \<Longrightarrow> content b \<noteq> [] \<Longrightarrow> send_locked b (sess n) = (idle, s) \<Longrightarrow>
    net_step ok n (n\<lparr>sess := s, await := (if idle then Suc (await n) else await n), sent := sent n @ content b\<rparr>)"
| loop: "loop_step ok n n' \<Longrightarrow> net_step ok n n'"

text \<open>Writes that take everything they were given.\<close>

definition full_write :: "nat \<Rightarrow> nat \<Rightarrow> bool" where
  "full_write k len = (k = len)"

definition queued :: "Buffer list \<Rightarrow> byte list" where
  "queued bs = concat (map content bs)"

definition quiescent :: "net \<Rightarrow> bool" where
  "quiescent n = (pc n = Idle \<and> await n = 0 \<and> posted (sess n) = [] \<and> writing (sess n) = None)"

text \<open>The invariant: \<^verbatim>\<open>write_buf_\<close> is non-empty exactly while a write of all of it is outstanding, and a
  non-empty queue always has somebody who is going to look at it.\<close>

definition net_inv :: "net \<Rightarrow> bool" where
  "net_inv n \<longleftrightarrow> (let s = sess n in
     buf_inv (write_buf s) \<and> (\<forall>b \<in> set (unsend_queue s). buf_inv b \<and> content b \<noteq> []) \<and>
     (pc n = Swapped \<longrightarrow> tmp_queue s \<noteq> [] \<and> (\<forall>b \<in> set (tmp_queue s). buf_inv b \<and> content b \<noteq> [])) \<and>
     set (posted s) \<subseteq> {FlushIfIdle} \<and>
     writing s = (if readableBytes (write_buf s) = 0 then None else Some (peek (write_buf s), readableBytes (write_buf s))) \<and>
     (pc n \<noteq> Idle \<longrightarrow> readableBytes (write_buf s) = 0) \<and>
     (unsend_queue s \<noteq> [] \<longrightarrow> readableBytes (write_buf s) \<noteq> 0 \<or> pc n \<in> {AtWrite, Retrieved} \<or> posted s \<noteq> [] \<or> 0 < await n))"

definition data_inv :: "net \<Rightarrow> bool" where
  "data_inv n \<longleftrightarrow> sent n = wire n @ content (write_buf (sess n))
     @ (if pc n = Swapped then queued (tmp_queue (sess n)) else []) @ queued (unsend_queue (sess n))"

lemma append_buffers_Inr:
  assumes "buf_inv wb" "\<forall>b \<in> set bs. buf_inv b"
  shows "\<exists>wb'. append_buffers bs wb = Inr wb' \<and> buf_inv wb' \<and> content wb' = content wb @ queued bs"
  using assms
proof (induction bs arbitrary: wb)
  case Nil
  then show ?case by (simp add: queued_def)
next
  case (Cons b bs)
  have "bytes_at b (peek b) (readableBytes b) = content b"
    using bytes_at_peek [of b "content b" "[]"] Cons.prems(2) by simp
  moreover from append_Inr [OF Cons.prems(1), of "content b"] obtain wb1 where
    "append_bytes (content b) wb = Inr wb1" "buf_inv wb1" "content wb1 = content wb @ content b" by metis
  moreover from this Cons.IH [of wb1] Cons.prems(2) obtain wb2 where
    "append_buffers bs wb1 = Inr wb2" "buf_inv wb2" "content wb2 = content wb1 @ queued bs" by auto
  ultimately show ?case by (auto simp: queued_def)
qed

lemma content_empty_iff: "buf_inv b \<Longrightarrow> content b = [] \<longleftrightarrow> readableBytes b = 0"
  by (metis length_0_conv length_content)

lemma retrieve_everything:
  assumes "buf_inv b"
  shows "\<exists>b'. retrieve (readableBytes b) b = Inr b' \<and> buf_inv b' \<and> content b' = [] \<and> readableBytes b' = 0"
proof -
  from retrieve_Inr [OF assms order_refl] obtain b' where
    b': "retrieve (readableBytes b) b = Inr b'" "buf_inv b'" "content b' = drop (readableBytes b) (content b)" by metis
  then have "content b' = []" using length_content [OF assms] by simp
  then show ?thesis using b' content_empty_iff by blast
qed

lemma write_start_Inr:
  assumes "buf_inv (write_buf s)" "\<forall>b \<in> set (tmp_queue s). buf_inv b"
  shows "\<exists>wb. write_start s = Inr (s\<lparr>write_buf := wb, writing := Some (peek wb, readableBytes wb)\<rparr>) \<and> buf_inv wb
    \<and> content wb = content (write_buf s) @ queued (tmp_queue s)"
  using append_buffers_Inr [OF assms] by (auto simp: write_start_def)

lemma queued_nonempty: "bs \<noteq> [] \<Longrightarrow> \<forall>b \<in> set bs. content b \<noteq> [] \<Longrightarrow> queued bs \<noteq> []"
  by (cases bs) (auto simp: queued_def)

lemma readable_mkBuffer: "readableBytes (mkBuffer n) = 0"
  by (simp add: readableBytes_def mkBuffer_def)

lemma net_inv_mkNet: "net_inv (mkNet i)" "data_inv (mkNet i)"
  by (simp_all add: net_inv_def data_inv_def mkNet_def mkSession_def queued_def readable_mkBuffer)

lemma send_inv:
  assumes "net_inv n" "buf_inv b" "content b \<noteq> []" "send_locked b (sess n) = (idle, s)"
    "n' = n\<lparr>sess := s, await := (if idle then Suc (await n) else await n), sent := sent n @ content b\<rparr>"
  shows "net_inv n'" "data_inv n \<Longrightarrow> data_inv n'"
proof -
  have s: "s = (sess n)\<lparr>unsend_queue := unsend_queue (sess n) @ [b]\<rparr>" "idle = (readableBytes (write_buf (sess n)) = 0)"
    using assms(4) by (auto simp: send_locked_def)
  show "net_inv n'" using assms(1-3) unfolding assms(5) s net_inv_def Let_def by simp
  show "data_inv n \<Longrightarrow> data_inv n'" unfolding assms(5) s data_inv_def by (simp add: queued_def)
qed

lemma start_inv:
  assumes "net_inv n" "pc n = Swapped" "write_start (sess n) = Inr s"
  shows "net_inv (n\<lparr>sess := s, pc := Idle\<rparr>)" "data_inv n \<Longrightarrow> data_inv (n\<lparr>sess := s, pc := Idle\<rparr>)"
proof -
  have i: "buf_inv (write_buf (sess n))" "\<forall>b \<in> set (tmp_queue (sess n)). buf_inv b \<and> content b \<noteq> []"
    "tmp_queue (sess n) \<noteq> []" "readableBytes (write_buf (sess n)) = 0"
    using assms(1,2) by (auto simp: net_inv_def Let_def)
  from write_start_Inr [OF i(1), of] i(2) assms(3) obtain wb where
    wb: "s = (sess n)\<lparr>write_buf := wb, writing := Some (peek wb, readableBytes wb)\<rparr>" "buf_inv wb"
      "content wb = content (write_buf (sess n)) @ queued (tmp_queue (sess n))" by auto
  have "content (write_buf (sess n)) = []" using content_empty_iff i by blast
  moreover have "queued (tmp_queue (sess n)) \<noteq> []" using queued_nonempty i by blast
  ultimately have "readableBytes wb \<noteq> 0" using wb content_empty_iff by fastforce
  then show "net_inv (n\<lparr>sess := s, pc := Idle\<rparr>)" using assms(1) wb by (auto simp: net_inv_def Let_def)
  show "data_inv n \<Longrightarrow> data_inv (n\<lparr>sess := s, pc := Idle\<rparr>)" using assms(2) wb by (simp add: data_inv_def)
qed

lemma write_done_Inr:
  assumes "buf_inv (write_buf s)"
  shows "\<exists>wb. write_done_retrieve s = Inr (s\<lparr>write_buf := wb\<rparr>) \<and> buf_inv wb \<and> content wb = [] \<and> readableBytes wb = 0"
  using retrieve_everything [OF assms] by (auto simp: write_done_retrieve_def)

lemma complete_inv:
  assumes "net_inv n" "pc n = Idle" "writing (sess n) = Some (off, len)"
    "write_done_retrieve (sess n\<lparr>writing := None\<rparr>) = Inr s"
    "n' = n\<lparr>sess := s, pc := Retrieved, wire := wire n @ bytes_at (write_buf (sess n)) off k\<rparr>"
  shows "net_inv n'" "full_write k len \<Longrightarrow> data_inv n \<Longrightarrow> data_inv n'"
proof -
  let ?wb = "write_buf (sess n)"
  have i: "buf_inv ?wb" "off = peek ?wb" "len = readableBytes ?wb"
    using assms(1,3) by (auto simp: net_inv_def Let_def split: if_splits)
  then obtain wb where wb: "s = (sess n)\<lparr>writing := None, write_buf := wb\<rparr>" "buf_inv wb" "content wb = []"
    "readableBytes wb = 0"
    using write_done_Inr [of "sess n\<lparr>writing := None\<rparr>"] assms(4) by auto
  show "net_inv n'" using assms(1,5) wb by (auto simp: net_inv_def Let_def)
  have "bytes_at ?wb off len = content ?wb" using bytes_at_peek [of ?wb "content ?wb" "[]"] i by simp
  then show "full_write k len \<Longrightarrow> data_inv n \<Longrightarrow> data_inv n'"
    using assms(2,5) wb by (simp add: data_inv_def full_write_def)
qed

lemma loop_step_inv: "loop_step ok n n' \<Longrightarrow> net_inv n \<Longrightarrow> net_inv n'"
proof (induction rule: loop_step.induct)
  case (start n s)
  then show ?case using start_inv by blast
next
  case (complete n off len k s)
  then show ?case using complete_inv by blast
qed (auto simp: net_inv_def Let_def send_post_def write_locked_def)

lemma loop_step_data: "loop_step full_write n n' \<Longrightarrow> net_inv n \<Longrightarrow> data_inv n \<Longrightarrow> data_inv n'"
proof (induction rule: loop_step.induct)
  case (start n s)
  then show ?case using start_inv by blast
next
  case (complete n off len k s)
  then show ?case using complete_inv by blast
qed (auto simp: data_inv_def send_post_def write_locked_def queued_def)

lemma net_step_inv: "net_step ok n n' \<Longrightarrow> net_inv n \<Longrightarrow> net_inv n'"
  by (induction rule: net_step.induct) (use send_inv loop_step_inv in blast)+

lemma net_step_data: "net_step full_write n n' \<Longrightarrow> net_inv n \<Longrightarrow> data_inv n \<Longrightarrow> data_inv n'"
  by (induction rule: net_step.induct) (use send_inv loop_step_data in blast)+

lemma net_reach_inv: "(net_step ok)\<^sup>*\<^sup>* (mkNet i) n \<Longrightarrow> net_inv n"
  by (induction rule: rtranclp_induct) (auto simp: net_inv_mkNet intro: net_step_inv)

lemma net_reach_data: "(net_step full_write)\<^sup>*\<^sup>* (mkNet i) n \<Longrightarrow> net_inv n \<and> data_inv n"
  by (induction rule: rtranclp_induct) (auto simp: net_inv_mkNet intro: net_step_inv net_step_data)

lemma quiescent_all_written:
  assumes "net_inv n" "data_inv n" "quiescent n"
  shows "wire n = sent n"
proof -
  have "readableBytes (write_buf (sess n)) = 0" "unsend_queue (sess n) = []"
    using assms(1,3) by (auto simp: net_inv_def quiescent_def Let_def split: if_splits)
  moreover from this(1) have "content (write_buf (sess n)) = []"
    using content_empty_iff assms(1) by (auto simp: net_inv_def Let_def)
  ultimately show ?thesis using assms(2,3) by (simp add: data_inv_def quiescent_def queued_def)
qed

text \<open>Without new calls of \<^verbatim>\<open>send\<close> the loop thread comes to rest: every step lowers a measure, and a state
  that is not at rest has a step.\<close>

definition net_measure :: "net \<Rightarrow> nat" where
  "net_measure n = 3 * await n + 2 * length (posted (sess n)) + 4 * length (unsend_queue (sess n))
     + (case pc n of Idle \<Rightarrow> 0 | AtWrite \<Rightarrow> 1 | Retrieved \<Rightarrow> 2 | Swapped \<Rightarrow> 4)
     + (if writing (sess n) = None then 0 else 3)"

lemma loop_step_measure: "loop_step ok n n' \<Longrightarrow> net_inv n \<Longrightarrow> net_measure n' < net_measure n"
proof (induction rule: loop_step.induct)
  case (lock n go s)
  then show ?case by (cases "unsend_queue (sess n)") (auto simp: net_measure_def write_locked_def Let_def)
next
  case (start n s)
  then have "writing (sess n) = None" by (auto simp: net_inv_def Let_def)
  with start show ?case by (auto simp: net_measure_def write_start_def result_simps)
next
  case (complete n off len k s)
  then show ?case by (auto simp: net_measure_def write_done_retrieve_def result_simps)
qed (auto simp: net_measure_def send_post_def)

lemma loop_progress:
  assumes "net_inv n" "\<not> quiescent n"
  shows "\<exists>n'. loop_step full_write n n'"
proof (cases "pc n")
  case AtWrite
  then show ?thesis using loop_step.lock [of n] by (metis surj_pair)
next
  case Swapped
  then have "buf_inv (write_buf (sess n))" "\<forall>b \<in> set (tmp_queue (sess n)). buf_inv b"
    using assms(1) by (auto simp: net_inv_def Let_def)
  then show ?thesis using loop_step.start [OF Swapped] write_start_Inr by blast
next
  case Retrieved
  then show ?thesis using loop_step.check by blast
next
  case Idle
  have tasks: "set (posted (sess n)) \<subseteq> {FlushIfIdle}" using assms(1) by (simp add: net_inv_def Let_def)
  consider "await n \<noteq> 0" | "posted (sess n) \<noteq> []" | "writing (sess n) \<noteq> None"
    using assms(2) Idle by (auto simp: quiescent_def)
  then show ?thesis
  proof cases
    case 1
    then show ?thesis using loop_step.post by (metis not0_implies_Suc)
  next
    case 2
    then show ?thesis using loop_step.task [OF Idle] tasks by (cases "posted (sess n)") auto
  next
    case 3
    then obtain off len where w: "writing (sess n) = Some (off, len)" by auto
    have "0 < len" using w assms(1) by (auto simp: net_inv_def Let_def split: if_splits)
    moreover have "buf_inv (write_buf (sess n\<lparr>writing := None\<rparr>))" using assms(1) by (auto simp: net_inv_def Let_def)
    ultimately show ?thesis using loop_step.complete [OF Idle w, of len full_write] write_done_Inr
      by (metis full_write_def order_refl)
  qed
qed

lemma loop_comes_to_rest:
  assumes "net_inv n" "data_inv n"
  shows "\<exists>n'. (loop_step full_write)\<^sup>*\<^sup>* n n' \<and> quiescent n' \<and> sent n' = sent n \<and> wire n' = sent n"
  using assms
proof (induction "net_measure n" arbitrary: n rule: less_induct)
  case less
  show ?case
  proof (cases "quiescent n")
    case True
    then show ?thesis using quiescent_all_written less.prems by blast
  next
    case False
    then obtain n1 where n1: "loop_step full_write n n1" using loop_progress less.prems by blast
    have same: "sent n1 = sent n" using n1 by (cases rule: loop_step.cases) auto
    from less.hyps [OF loop_step_measure [OF n1 less.prems(1)] loop_step_inv [OF n1 less.prems(1)]
        loop_step_data [OF n1 less.prems]] same n1
    show ?thesis by (metis converse_rtranclp_into_rtranclp)
  qed
qed

subsection \<open>What reaches the wire\<close>

lemma data_inv_prefix: "data_inv n \<Longrightarrow> prefix (wire n) (sent n)"
  by (auto simp: data_inv_def prefix_def)

text \<open>C9: as long as every asynchronous write takes all it was given, no interleaving of sender threads
  with the loop thread loses, duplicates or reorders a byte: what asio has taken is always a prefix of
  what was sent, and from every reachable state the loop thread alone comes to rest with exactly the
  sent bytes on the wire. (The race the source asks about in \<^verbatim>\<open>send\<close> cannot lose a wake-up.)\<close>

theorem session_sends_all_in_order:
  assumes "(net_step full_write)\<^sup>*\<^sup>* (mkNet i) n"
  shows "prefix (wire n) (sent n) \<and>
    (\<exists>n'. (loop_step full_write)\<^sup>*\<^sup>* n n' \<and> quiescent n' \<and> sent n' = sent n \<and> wire n' = sent n)"
  using net_reach_data [OF assms] data_inv_prefix loop_comes_to_rest by blast

text \<open>One call of \<^verbatim>\<open>send\<close> on an idle connection, up to the completion of the write with \<open>k\<close> bytes.\<close>

lemma send_on_idle:
  assumes "buf_inv b" "content b \<noteq> []"
  shows "\<exists>n. net_step ok (mkNet i) n \<and> sent n = content b \<and> await n = 1 \<and> pc n = Idle \<and>
    sess n = (mkSession i)\<lparr>unsend_queue := [b]\<rparr> \<and> wire n = []"
proof -
  have "send_locked b (sess (mkNet i)) = (True, (mkSession i)\<lparr>unsend_queue := [b]\<rparr>)"
    by (simp add: send_locked_def mkNet_def mkSession_def readable_mkBuffer)
  from net_step.send [OF assms this, of ok] show ?thesis by (auto simp: mkNet_def)
qed

lemma send_run_partial:
  assumes "buf_inv b" "0 < k" "k \<le> readableBytes b" "ok k (readableBytes b)"
  shows "\<exists>n. (net_step ok)\<^sup>*\<^sup>* (mkNet i) n \<and> quiescent n \<and> sent n = content b \<and> wire n = take k (content b)"
proof -
  let ?s = "(mkSession i)\<lparr>unsend_queue := [b]\<rparr>"
  have ne: "content b \<noteq> []" using content_empty_iff [OF assms(1)] assms(2,3) by simp
  from send_on_idle [OF assms(1) ne, of ok i] obtain n1 where n1: "net_step ok (mkNet i) n1" "sent n1 = content b"
    "await n1 = Suc 0" "pc n1 = Idle" "sess n1 = ?s" "wire n1 = []" by auto
  define n2 where "n2 = n1\<lparr>await := 0, sess := ?s\<lparr>posted := [FlushIfIdle]\<rparr>\<rparr>"
  have s2: "loop_step ok n1 n2"
    using loop_step.post [OF n1(3), of ok] n1(5) by (simp add: n2_def send_post_def mkSession_def)
  define n3 where "n3 = n2\<lparr>sess := ?s, pc := AtWrite\<rparr>"
  have s3: "loop_step ok n2 n3"
    using loop_step.task [of n2 "[]" ok] n1(4) by (simp add: n2_def n3_def mkSession_def readable_mkBuffer)
  define s4 where "s4 = (mkSession i)\<lparr>tmp_queue := [b], unsend_queue := []\<rparr>"
  define n4 where "n4 = n3\<lparr>sess := s4, pc := Swapped\<rparr>"
  have s4: "loop_step ok n3 n4"
    using loop_step.lock [of n3 True s4 ok] by (simp add: n3_def n4_def s4_def write_locked_def mkSession_def)
  have "buf_inv (write_buf s4)" "\<forall>x \<in> set (tmp_queue s4). buf_inv x" "content (write_buf s4) = []"
    using assms(1) by (simp_all add: s4_def mkSession_def)
  with write_start_Inr [of s4] obtain wb where
    wb: "write_start s4 = Inr (s4\<lparr>write_buf := wb, writing := Some (peek wb, readableBytes wb)\<rparr>)" "buf_inv wb"
      "content wb = content b" by (auto simp: s4_def queued_def)
  define n5 where "n5 = n4\<lparr>sess := s4\<lparr>write_buf := wb, writing := Some (peek wb, readableBytes wb)\<rparr>, pc := Idle\<rparr>"
  have s5: "loop_step ok n4 n5" using loop_step.start [of n4 _ ok] wb(1) by (simp add: n4_def n5_def)
  have len: "readableBytes wb = readableBytes b"
    using length_content [OF wb(2)] length_content [OF assms(1)] wb(3) by metis
  from write_done_Inr [of "s4\<lparr>write_buf := wb, writing := None\<rparr>"] wb(2) obtain wb' where
    wb': "write_done_retrieve (s4\<lparr>write_buf := wb, writing := None\<rparr>) = Inr (s4\<lparr>writing := None, write_buf := wb'\<rparr>)"
    by auto
  define n6 where "n6 = n5\<lparr>sess := s4\<lparr>writing := None, write_buf := wb'\<rparr>, pc := Retrieved, wire := bytes_at wb (peek wb) k\<rparr>"
  have s6: "loop_step ok n5 n6"
    using loop_step.complete [of n5 "peek wb" "readableBytes wb" k ok] wb' assms(2-4) len n1(6)
    by (simp add: n5_def n6_def n4_def n3_def n2_def)
  define n7 where "n7 = n6\<lparr>pc := Idle\<rparr>"
  have s7: "loop_step ok n6 n7" using loop_step.check [of n6 ok] by (simp add: n6_def n7_def s4_def)
  have "(net_step ok)\<^sup>*\<^sup>* (mkNet i) n7"
    using n1(1) s2 s3 s4 s5 s6 s7 by (meson net_step.loop rtranclp.rtrancl_into_rtrancl rtranclp.rtrancl_refl)
  moreover have "quiescent n7" "sent n7 = content b"
    by (simp_all add: n7_def n6_def n5_def n4_def n3_def n2_def s4_def quiescent_def mkSession_def n1)
  moreover have "bytes_at wb (peek wb) k = take k (content b)"
    using bytes_at_peek [OF wb(2), of "take k (content b)" "drop k (content b)"] wb(3) assms(1,3) by simp
  then have "wire n7 = take k (content b)" by (simp add: n7_def n6_def)
  ultimately show ?thesis by blast
qed

theorem session_sends_all_in_order_witness:
  "\<exists>n n'. (net_step full_write)\<^sup>*\<^sup>* (mkNet 1) n \<and> sent n = ''hello'' \<and>
    (loop_step full_write)\<^sup>*\<^sup>* n n' \<and> quiescent n' \<and> wire n' = ''hello''"
proof -
  obtain b where b: "buf_inv b" "content b = ''hello''" using bq.app_spec [of "mkBuffer 0" "''hello''"] by auto
  from send_on_idle [OF b(1), of full_write 1] b(2) obtain n where
    n: "net_step full_write (mkNet 1) n" "sent n = ''hello''" by auto
  from n(1) have r: "(net_step full_write)\<^sup>*\<^sup>* (mkNet 1) n" by (rule r_into_rtranclp)
  from session_sends_all_in_order [OF r, THEN conjunct2] obtain n' where
    "(loop_step full_write)\<^sup>*\<^sup>* n n'" "quiescent n'" "wire n' = sent n" by blast
  with r n(2) show ?thesis by (intro exI [of _ n] exI [of _ n']) simp
qed

text \<open>C23: \<^verbatim>\<open>async_write_some\<close> may take fewer bytes than it was given, and the handler drops the rest: for
  any buffer and any shorter completion there is a run of a single \<^verbatim>\<open>send\<close> after which nothing is left
  to do and only the first \<open>k\<close> bytes are on the wire.\<close>

theorem partial_write_loses_bytes:
  assumes "buf_inv b" "0 < k" "k < readableBytes b"
  shows "\<exists>n. (net_step (\<lambda>k len. k \<le> len))\<^sup>*\<^sup>* (mkNet i) n \<and> quiescent n \<and> sent n = content b \<and>
    wire n = take k (content b) \<and> wire n \<noteq> sent n"
proof -
  have "length (take k (content b)) \<noteq> length (content b)" using assms by simp
  then have ne: "take k (content b) \<noteq> content b" by (rule contrapos_nn) simp
  have "k \<le> readableBytes b" using assms(3) by simp
  from send_run_partial [OF assms(1,2) this, of "\<lambda>k len. k \<le> len" i] this obtain n where
    n: "(net_step (\<lambda>k len. k \<le> len))\<^sup>*\<^sup>* (mkNet i) n" "quiescent n" "sent n = content b" "wire n = take k (content b)"
    by blast
  show ?thesis using n ne by (intro exI [of _ n]) simp
qed

theorem partial_write_loses_bytes_witness:
  "\<exists>b n. content b = ''hello'' \<and> (net_step (\<lambda>k len. k \<le> len))\<^sup>*\<^sup>* (mkNet 1) n \<and> quiescent n \<and> sent n = ''hello'' \<and> wire n = ''he''"
proof -
  obtain b where b: "buf_inv b" "content b = ''hello''" using bq.app_spec [of "mkBuffer 0" "''hello''"] by auto
  have "readableBytes b = 5" using length_content [OF b(1)] b(2) by simp
  then show ?thesis using partial_write_loses_bytes [OF b(1), of 2 1] b(2) by auto
qed

subsection \<open>Errors\<close>

lemma sends_behind_failed_write:
  assumes "readableBytes (write_buf s) \<noteq> 0"
  shows "fold session_send bs s = s\<lparr>unsend_queue := unsend_queue s @ bs\<rparr>"
  using assms
  by (induction bs arbitrary: s) (simp_all add: session_send_def send_locked_def)

lemma flush_behind_failed_write: "readableBytes (write_buf s) \<noteq> 0 \<Longrightarrow> flush_task s = Inr s"
  by (simp add: flush_task_def)

text \<open>C36: a failing write closes the session through its disconnect callback and leaves the unsent bytes
  in \<^verbatim>\<open>write_buf_\<close>. A server session then queues everything it is asked to send without ever starting
  a write; a client session, which has no disconnect callback, throws \<^verbatim>\<open>std::bad_function_call\<close> out of
  the handler.\<close>

theorem write_error_wedges_session:
  assumes "readableBytes (write_buf s) \<noteq> 0"
  shows "(\<not> has_disconnect_cb s \<longrightarrow> write_handler None s = Inl BadFunctionCall) \<and>
    (has_disconnect_cb s \<longrightarrow> (\<exists>s'. write_handler None s = Inr ([Disconnected (ucast (session_id s))], s') \<and>
      (\<forall>bs. fold session_send bs s' = s'\<lparr>unsend_queue := unsend_queue s @ bs\<rparr> \<and>
         writing (fold session_send bs s') = None \<and>
         flush_task (fold session_send bs s') = Inr (fold session_send bs s'))))"
  using assms
  by (auto simp: write_handler_def session_close_def sends_behind_failed_write flush_behind_failed_write)

theorem write_error_wedges_session_witness:
  "\<exists>s. readableBytes (write_buf s) \<noteq> 0 \<and> write_handler None s = Inl BadFunctionCall"
proof -
  let ?s = "(mkSession 0)\<lparr>write_buf := \<lparr>store = ''aaaaaaaab'', readerIndex = 8, writerIndex = 9\<rparr>\<rparr>"
  have r: "readableBytes (write_buf ?s) \<noteq> 0" by (simp add: readableBytes_def)
  moreover have "\<not> has_disconnect_cb ?s" by (simp add: mkSession_def)
  ultimately show ?thesis using write_error_wedges_session [OF r] by blast
qed

text \<open>A client session retries until a connect succeeds; \<open>failures\<close> attempts fail first.\<close>

fun reconnect_attempts :: "(string \<Rightarrow> bool) \<Rightarrow> nat \<Rightarrow> Session \<Rightarrow> (sess_event list \<times> Session) result" where
  "reconnect_attempts valid_ip 0 s =
     rbind (timer_handler valid_ip True s) (\<lambda>s. Inr (connect_handler True s))"
| "reconnect_attempts valid_ip (Suc k) s =
     rbind (timer_handler valid_ip True s) (\<lambda>s. let (evs, s) = connect_handler False s in reconnect_attempts valid_ip k s)"

lemma reconnect_attempts_result:
  assumes "valid_ip (peer_ip s)"
  shows "\<exists>s'. reconnect_attempts valid_ip failures s = Inr (if has_connection_cb s then [Connected] else [], s') \<and>
    reading s' = Some (writableBytes (read_buf s)) \<and> read_buf s' = read_buf s \<and> peer_ip s' = peer_ip s \<and>
    peer_port s' = peer_port s \<and> reconnect_flag s' \<and> socket_open s'"
  using assms
proof (induction failures arbitrary: s)
  case 0
  then show ?case
    by (auto simp: timer_handler_def session_connect_def connect_handler_def session_start_def session_read_def Let_def)
next
  case (Suc k)
  define s1 where "s1 = s\<lparr>reconnect_flag := True, connecting := False, socket_open := False, timer_set := True\<rparr>"
  have "reconnect_attempts valid_ip (Suc k) s = reconnect_attempts valid_ip k s1"
    using Suc.prems
    by (simp add: timer_handler_def session_connect_def connect_handler_def session_reconnect_def Let_def s1_def)
  then show ?case using Suc.IH [of s1] Suc.prems by (simp add: s1_def)
qed



end
