(* ===== verification/TcpServerModel.thy ===== *)
theory TcpServerModel
  imports Loops SessionModel
begin

text \<open>
  The listening side (\<^verbatim>\<open>src/net/TcpServer.cc\<close>, \<^verbatim>\<open>src/net/TcpServer.h\<close>, \<^verbatim>\<open>src/net/Acceptor.cc\<close>): sessions are created one
  ahead of each accept, registered in \<^verbatim>\<open>connections_\<close> and taken out again by the disconnect callback.

  A session object is named by the 64-bit value of \<^verbatim>\<open>sessionid_\<close> it was created with. The map is keyed by
  \<^verbatim>\<open>int\<close>, so a key is the low 32 bits of that value.
\<close>

record TcpServer =
  loopmgr :: LoopMgr
  connections :: "32 word \<Rightarrow> 64 word option"
  sessionid :: "64 word"
  has_server_disconnect_cb :: bool
  acceptor_open :: bool
  accepting :: "64 word option"    \<comment> \<open>the session of the outstanding \<^verbatim>\<open>async_accept\<close>\<close>

datatype srv_event = SessionStarted "64 word" | SessionGone "64 word"

definition mkTcpServer :: "nat \<Rightarrow> (TcpServer) result" where
  "mkTcpServer thrnum = rbind (findNextLoop (mkLoopMgr thrnum)) (\<lambda>(l, g).
     Inr \<lparr>loopmgr = g, connections = Map.empty, sessionid = 1, has_server_disconnect_cb = False,
          acceptor_open = False, accepting = None\<rparr>)"

text \<open>\<^verbatim>\<open>std::map::insert\<close> leaves an existing entry alone.\<close>

definition newSession :: "TcpServer \<Rightarrow> (64 word \<times> TcpServer) result" where
  "newSession v = rbind (findNextLoop (loopmgr v)) (\<lambda>(l, g).
     let session = sessionid v; k = ucast session in
     Inr (session, v\<lparr>loopmgr := g,
       connections := (if connections v k = None then (connections v)(k \<mapsto> session) else connections v),
       sessionid := sessionid v + 1\<rparr>))"

definition DefaultDisconnectCallback :: "32 word \<Rightarrow> TcpServer \<Rightarrow> srv_event list \<times> TcpServer" where
  "DefaultDisconnectCallback k v = (case connections v k of
     None \<Rightarrow> ([], v)
   | Some session \<Rightarrow>
       (if has_server_disconnect_cb v then [SessionGone session] else [], v\<lparr>connections := (connections v)(k := None)\<rparr>))"

definition accept_next :: "TcpServer \<Rightarrow> TcpServer result" where
  "accept_next v = rbind (newSession v) (\<lambda>(session, v). Inr (v\<lparr>accepting := Some session\<rparr>))"

definition acceptor_listen :: "TcpServer \<Rightarrow> TcpServer result" where
  "acceptor_listen v = accept_next (v\<lparr>acceptor_open := True\<rparr>)"

text \<open>The accept handler; \<^verbatim>\<open>Session::close\<close> ends in the callback that \<^verbatim>\<open>newSession\<close> has set.\<close>

definition accept_handler :: "bool \<Rightarrow> 64 word \<Rightarrow> TcpServer \<Rightarrow> (srv_event list \<times> TcpServer) result" where
  "accept_handler ok session v = (
     let v = v\<lparr>accepting := None\<rparr>;
         (evs, v) = (if ok then ([SessionStarted session], v) else DefaultDisconnectCallback (ucast session) v) in
     if \<not> acceptor_open v then Inr (evs, v) else rbind (accept_next v) (\<lambda>v. Inr (evs, v)))"

definition acceptor_close :: "TcpServer \<Rightarrow> TcpServer" where
  "acceptor_close v = v\<lparr>acceptor_open := False\<rparr>"

subsection \<open>Runs of a server\<close>

datatype srv_input = Accepted | AcceptFailed | SessionClosed "64 word" | CloseAcceptor

text \<open>An accept completes only while one is outstanding; \<open>SessionClosed p\<close> is \<^verbatim>\<open>close()\<close> on session \<open>p\<close>.\<close>

fun srv_step :: "srv_input \<Rightarrow> TcpServer \<Rightarrow> (srv_event list \<times> TcpServer) result" where
  "srv_step Accepted v = (case accepting v of None \<Rightarrow> Inr ([], v) | Some p \<Rightarrow> accept_handler True p v)"
| "srv_step AcceptFailed v = (case accepting v of None \<Rightarrow> Inr ([], v) | Some p \<Rightarrow> accept_handler False p v)"
| "srv_step (SessionClosed p) v = Inr (DefaultDisconnectCallback (ucast p) v)"
| "srv_step CloseAcceptor v = Inr ([], acceptor_close v)"

fun srv_run :: "srv_input list \<Rightarrow> TcpServer \<Rightarrow> (srv_event list \<times> TcpServer) result" where
  "srv_run [] v = Inr ([], v)"
| "srv_run (i # is) v = rbind (srv_step i v) (\<lambda>(evs, v). rbind (srv_run is v) (\<lambda>(evs', v). Inr (evs @ evs', v)))"

fun gone :: "srv_event list \<Rightarrow> 64 word list" where
  "gone [] = []"
| "gone (SessionGone p # evs) = p # gone evs"
| "gone (SessionStarted p # evs) = gone evs"

text \<open>\<open>dead\<close> are the sessions reported gone so far: the map holds exactly the other sessions created, each
  under its own key.\<close>

definition srv_inv :: "64 word list \<Rightarrow> TcpServer \<Rightarrow> bool" where
  "srv_inv dead v \<longleftrightarrow> mgr_inv (loopmgr v) \<and> has_server_disconnect_cb v \<and> distinct dead \<and>
     1 \<le> unat (sessionid v) \<and> set dead \<subseteq> {p. 1 \<le> unat p \<and> unat p < unat (sessionid v)} \<and>
     (\<forall>k p. connections v k = Some p \<longleftrightarrow>
        k = ucast p \<and> 1 \<le> unat p \<and> unat p < unat (sessionid v) \<and> p \<notin> set dead)"

lemma ucast_inj_small:
  assumes "unat (p :: 64 word) < 2 ^ 32" "unat (q :: 64 word) < 2 ^ 32" "(ucast p :: 32 word) = ucast q"
  shows "p = q"
proof -
  have "unat (ucast p :: 32 word) = unat p" "unat (ucast q :: 32 word) = unat q"
    using assms(1,2) by (simp_all add: unsigned_ucast_eq take_bit_nat_eq_self)
  then show ?thesis using assms(3) by (metis unsigned_word_eqI)
qed

lemma newSession_inv:
  assumes "srv_inv dead v" "unat (sessionid v) < 2 ^ 32 - 1"
  shows "\<exists>v'. newSession v = Inr (sessionid v, v') \<and> srv_inv dead v' \<and> unat (sessionid v') = Suc (unat (sessionid v))
    \<and> acceptor_open v' = acceptor_open v"
proof -
  let ?p = "sessionid v"
  have mgr: "mgr_inv (loopmgr v)" using assms(1) by (simp add: srv_inv_def)
  from findNextLoop_step [OF mgr] obtain l g where g: "findNextLoop (loopmgr v) = Inr (l, g)" "mgr_inv g" by blast
  have free: "connections v (ucast ?p) = None"
  proof (rule ccontr)
    assume "connections v (ucast ?p) \<noteq> None"
    then obtain q where "connections v (ucast ?p) = Some q" by auto
    then have "ucast ?p = (ucast q :: 32 word)" "unat q < unat ?p" using assms(1) unfolding srv_inv_def by simp_all
    then show False using ucast_inj_small [of ?p q] assms(2) by auto
  qed
  have nxt: "unat (?p + 1) = Suc (unat ?p)" using assms(2) by (simp add: unat_word_ariths(1))
  let ?v = "v\<lparr>loopmgr := g, connections := (connections v)(ucast ?p \<mapsto> ?p), sessionid := ?p + 1\<rparr>"
  have below: "unat q < Suc (unat ?p) \<longleftrightarrow> unat q < unat ?p \<or> q = ?p" for q
    by (metis less_Suc_eq unsigned_word_eqI)
  have inj: "ucast ?p = (ucast q :: 32 word) \<Longrightarrow> unat q < unat ?p \<Longrightarrow> ?p = q" for q
    using ucast_inj_small [of ?p q] assms(2) by simp
  have "connections ?v k = Some q \<longleftrightarrow> k = ucast q \<and> 1 \<le> unat q \<and> unat q < unat (?p + 1) \<and> q \<notin> set dead" for k q
    using assms(1) free inj unfolding nxt below by (auto simp: srv_inv_def)
  then have "srv_inv dead ?v" using assms(1) g(2) nxt by (auto simp: srv_inv_def)
  then show ?thesis using g(1) free nxt by (simp add: newSession_def Let_def)
qed

lemma disconnect_inv:
  assumes "srv_inv dead v" "DefaultDisconnectCallback k v = (evs, v')"
  shows "srv_inv (dead @ gone evs) v' \<and> sessionid v' = sessionid v \<and> acceptor_open v' = acceptor_open v
    \<and> accepting v' = accepting v"
proof (cases "connections v k")
  case None
  then show ?thesis using assms by (simp add: DefaultDisconnectCallback_def)
next
  case (Some p)
  have e: "evs = [SessionGone p]" "v' = v\<lparr>connections := (connections v)(k := None)\<rparr>"
    using assms Some by (simp_all add: DefaultDisconnectCallback_def srv_inv_def)
  have "q = p" if "k = ucast q" "1 \<le> unat q" "unat q < unat (sessionid v)" "q \<notin> set dead" for q
  proof -
    have "connections v k = Some q" using assms(1) that unfolding srv_inv_def by blast
    with Some show ?thesis by simp
  qed
  then show ?thesis using assms(1) Some unfolding e by (auto simp: srv_inv_def)
qed

lemma accept_next_inv:
  assumes "srv_inv dead v" "unat (sessionid v) < 2 ^ 32 - 1"
  shows "\<exists>v'. accept_next v = Inr v' \<and> srv_inv dead v' \<and> unat (sessionid v') = Suc (unat (sessionid v))"
proof -
  from newSession_inv [OF assms] obtain v' where
    v': "newSession v = Inr (sessionid v, v')" "srv_inv dead v'" "unat (sessionid v') = Suc (unat (sessionid v))" by blast
  then show ?thesis by (simp add: accept_next_def srv_inv_def)
qed

lemma accept_handler_inv:
  assumes "srv_inv dead v" "unat (sessionid v) < 2 ^ 32 - 1"
  shows "\<exists>evs v'. accept_handler ok p v = Inr (evs, v') \<and> srv_inv (dead @ gone evs) v' \<and>
    unat (sessionid v') \<le> Suc (unat (sessionid v))"
proof -
  define v1 where "v1 = v\<lparr>accepting := None\<rparr>"
  have i1: "srv_inv dead v1" using assms(1) by (simp add: v1_def srv_inv_def)
  obtain evs v2 where v2: "(if ok then ([SessionStarted p], v1) else DefaultDisconnectCallback (ucast p) v1) = (evs, v2)"
    by (metis surj_pair)
  then have i2: "srv_inv (dead @ gone evs) v2" "sessionid v2 = sessionid v"
    using disconnect_inv [OF i1] i1 by (auto simp: v1_def split: if_splits)
  from accept_next_inv [OF i2(1)] i2(2) assms(2) obtain v3 where
    "accept_next v2 = Inr v3" "srv_inv (dead @ gone evs) v3" "unat (sessionid v3) = Suc (unat (sessionid v2))" by auto
  then show ?thesis using v2 i2 by (auto simp: accept_handler_def Let_def v1_def)
qed

lemma srv_step_inv:
  assumes "srv_inv dead v" "unat (sessionid v) < 2 ^ 32 - 1"
  shows "\<exists>evs v'. srv_step i v = Inr (evs, v') \<and> srv_inv (dead @ gone evs) v' \<and>
    unat (sessionid v') \<le> Suc (unat (sessionid v))"
proof (cases i)
  case Accepted
  then show ?thesis using accept_handler_inv [OF assms] assms(1) by (cases "accepting v") auto
next
  case AcceptFailed
  then show ?thesis using accept_handler_inv [OF assms] assms(1) by (cases "accepting v") auto
next
  case (SessionClosed p)
  then show ?thesis using disconnect_inv [OF assms(1)] by (cases "DefaultDisconnectCallback (ucast p) v") fastforce
next
  case CloseAcceptor
  then show ?thesis using assms(1) by (simp add: acceptor_close_def srv_inv_def)
qed

lemma gone_append [simp]: "gone (xs @ ys) = gone xs @ gone ys"
  by (induction xs rule: gone.induct) auto

lemma srv_run_inv:
  assumes "srv_inv dead v" "unat (sessionid v) + length is < 2 ^ 32"
  shows "\<exists>evs v'. srv_run is v = Inr (evs, v') \<and> srv_inv (dead @ gone evs) v'"
  using assms
proof (induction "is" arbitrary: v dead)
  case Nil
  then show ?case by simp
next
  case (Cons i "is")
  from Cons.prems(2) have "unat (sessionid v) < 2 ^ 32 - 1" by simp
  from srv_step_inv [OF Cons.prems(1) this, of i] obtain evs v1 where
    v1: "srv_step i v = Inr (evs, v1)" "srv_inv (dead @ gone evs) v1" "unat (sessionid v1) \<le> Suc (unat (sessionid v))" by blast
  then have "unat (sessionid v1) + length is < 2 ^ 32" using Cons.prems(2) by simp
  from Cons.IH [OF v1(2) this] v1(1) show ?case by auto
qed

text \<open>A server whose owner has set a disconnect callback and that has started to listen.\<close>

definition listening_server :: "nat \<Rightarrow> TcpServer result" where
  "listening_server thrnum = rbind (mkTcpServer thrnum) (\<lambda>v. acceptor_listen (v\<lparr>has_server_disconnect_cb := True\<rparr>))"

lemma listening_server_inv:
  assumes "0 < n" "n < 2 ^ 64"
  shows "\<exists>v. listening_server n = Inr v \<and> srv_inv [] v \<and> unat (sessionid v) = 2"
proof -
  from findNextLoop_step [OF mgr_inv_mkLoopMgr [OF assms]] obtain l g where
    g: "findNextLoop (mkLoopMgr n) = Inr (l, g)" "mgr_inv g" by blast
  define v0 where "v0 = \<lparr>loopmgr = g, connections = Map.empty, sessionid = 1, has_server_disconnect_cb = True,
    acceptor_open = True, accepting = None\<rparr>"
  have "srv_inv [] v0" "unat (sessionid v0) = 1" using g(2) by (auto simp: v0_def srv_inv_def)
  with accept_next_inv [of "[]" v0] obtain v where "accept_next v0 = Inr v" "srv_inv [] v" "unat (sessionid v) = 2" by auto
  then show ?thesis using g(1) by (simp add: listening_server_def mkTcpServer_def acceptor_listen_def v0_def)
qed

text \<open>C29: over any run of fewer than about four billion accepts and closes, in any order and with any
  session closed any number of times, the server never faults, reports every session gone at most once,
  and \<^verbatim>\<open>connections_\<close> holds exactly the sessions created and not yet reported gone.\<close>

theorem server_tracks_sessions:
  assumes "0 < n" "n < 2 ^ 64" "length inputs < 2 ^ 32 - 2"
  shows "\<exists>v0 evs v. listening_server n = Inr v0 \<and> srv_run inputs v0 = Inr (evs, v) \<and> distinct (gone evs) \<and>
    ran (connections v) = {p. 1 \<le> unat p \<and> unat p < unat (sessionid v)} - set (gone evs)"
proof -
  from listening_server_inv [OF assms(1,2)] obtain v0 where
    v0: "listening_server n = Inr v0" "srv_inv [] v0" "unat (sessionid v0) = 2" by blast
  from srv_run_inv [OF v0(2), of inputs] v0(3) assms(3) obtain evs v where
    v: "srv_run inputs v0 = Inr (evs, v)" "srv_inv (gone evs) v" by auto
  have "ran (connections v) = {p. 1 \<le> unat p \<and> unat p < unat (sessionid v)} - set (gone evs)"
    using v(2) by (auto simp: ran_def srv_inv_def)
  with v0 v show ?thesis by (auto simp: srv_inv_def)
qed

theorem server_tracks_sessions_witness:
  "\<exists>v0 evs v. listening_server 2 = Inr v0 \<and> srv_run [Accepted, SessionClosed 1, SessionClosed 1] v0 = Inr (evs, v) \<and>
    distinct (gone evs)"
  using server_tracks_sessions [of 2 "[Accepted, SessionClosed 1, SessionClosed 1]"] by auto

text \<open>C35: beyond that, the \<^verbatim>\<open>int\<close> key wraps around. If the session whose number agrees with the next one in
  the low 32 bits is still there, the new session is not registered, and closing it takes the old one out
  of the map and reports the old one gone.\<close>

theorem session_key_collision:
  assumes "mgr_inv (loopmgr v)" "has_server_disconnect_cb v" "connections v (ucast (sessionid v)) = Some old"
  shows "\<exists>v'. newSession v = Inr (sessionid v, v') \<and> connections v' = connections v \<and>
    fst (DefaultDisconnectCallback (ucast (sessionid v)) v') = [SessionGone old] \<and>
    connections (snd (DefaultDisconnectCallback (ucast (sessionid v)) v')) (ucast (sessionid v)) = None"
proof -
  from findNextLoop_step [OF assms(1)] obtain l g where "findNextLoop (loopmgr v) = Inr (l, g)" by blast
  then show ?thesis using assms(2,3) by (simp add: newSession_def DefaultDisconnectCallback_def Let_def)
qed

theorem session_key_collision_witness:
  "\<exists>v v'. newSession v = Inr (2 ^ 32 + 1, v') \<and>
     fst (DefaultDisconnectCallback (ucast (2 ^ 32 + 1 :: 64 word)) v') = [SessionGone 1]"
proof -
  define v where "v = \<lparr>loopmgr = mkLoopMgr 1, connections = [1 \<mapsto> 1], sessionid = 2 ^ 32 + 1, has_server_disconnect_cb = True,
    acceptor_open = True, accepting = None\<rparr>"
  have "mgr_inv (loopmgr v)" "has_server_disconnect_cb v" "connections v (ucast (sessionid v)) = Some 1"
    by (simp_all add: v_def mgr_inv_mkLoopMgr)
  from session_key_collision [OF this] show ?thesis by (auto simp: v_def)
qed

end
