(* ===== verification/JsonLexer.thy ===== *)
theory JsonLexer
  imports Prelude
begin

text \<open>
  The lexer of the JSON library (\<^verbatim>\<open>src/opt/nlohmann/json.hpp\<close>, class \<^verbatim>\<open>lexer\<close>) on the input buffer adapter.

  \<open>lex_get\<close>, \<open>lex_unget\<close>, \<open>lex_add\<close> and \<open>lex_reset\<close> are the input management; \<open>scan_string\<close>, \<open>scan_number\<close>
  (one definition per label of its state machine), \<open>scan_literal\<close> and \<open>lex_scan\<close> are the scan functions.
  \<open>pending\<close> is the input a lexer has still to read, the byte it has ungotten included. Every scan function
  terminates because \<^const>\<open>length\<close> of \<open>pending\<close> goes down. The assertions of the class are not branches of the
  model: they are lemmas about it.
\<close>

unbundle bit_operations_syntax

subsection \<open>Floating point values\<close>

text \<open>A double: sign, mantissa and exponent in canonical form, or an infinity.\<close>

datatype float64 = Finite bool nat int | Infinite bool

fun bit_length :: "nat \<Rightarrow> nat" where
  "bit_length n = (if n = 0 then 0 else Suc (bit_length (n div 2)))"

declare bit_length.simps [simp del]

definition round_half_even :: "nat \<Rightarrow> nat \<Rightarrow> nat" where
  "round_half_even a b = (let q = a div b; r = a mod b in
     if 2 * r < b \<or> (2 * r = b \<and> even q) then q else q + 1)"

text \<open>The double nearest to \<open>a / b\<close>, ties to even.\<close>

definition nearest_double :: "bool \<Rightarrow> nat \<Rightarrow> nat \<Rightarrow> float64" where
  "nearest_double neg a b = (if a = 0 then Finite neg 0 (- 1074) else
     let e0 = int (bit_length a) - int (bit_length b);
         e1 = (if a * 2 ^ nat (- e0) < b * 2 ^ nat e0 then e0 - 1 else e0);
         e = max (- 1074) (e1 - 52);
         q = round_half_even (a * 2 ^ nat (- e)) (b * 2 ^ nat e);
         (m, e) = (if q = 2 ^ 53 then (2 ^ 52, e + 1) else (q, e))
     in if 1024 < e + 53 then Infinite neg else Finite neg m e)"

text \<open>\<^verbatim>\<open>std::strtod\<close> on a text of digits with an optional sign, fraction and exponent.\<close>

definition strtod :: "string \<Rightarrow> float64" where
  "strtod s = (
     let (neg, s) = (if s \<noteq> [] \<and> hd s = CHR ''-'' then (True, tl s) else (False, s));
         ip = takeWhile (is_base_digit 10) s; s = dropWhile (is_base_digit 10) s;
         (fp, s) = (if s \<noteq> [] \<and> hd s = CHR ''.'' then (takeWhile (is_base_digit 10) (tl s), dropWhile (is_base_digit 10) (tl s)) else ([], s));
         ex = (if s \<noteq> [] \<and> (hd s = CHR ''e'' \<or> hd s = CHR ''E'') then
                 (let t = tl s in
                  if t \<noteq> [] \<and> hd t = CHR ''-'' then - int (base_value 10 (tl t))
                  else if t \<noteq> [] \<and> hd t = CHR ''+'' then int (base_value 10 (tl t)) else int (base_value 10 t))
               else 0);
         k = ex - int (length fp);
         n = base_value 10 (ip @ fp)
     in nearest_double neg (n * 10 ^ nat k) (10 ^ nat (- k)))"

definition isfinite :: "float64 \<Rightarrow> bool" where
  "isfinite x = (case x of Finite _ _ _ \<Rightarrow> True | Infinite _ \<Rightarrow> False)"

subsection \<open>Tokens and state\<close>

datatype token_type =
    Uninitialized | LiteralTrue | LiteralFalse | LiteralNull | ValueString | ValueUnsigned | ValueInteger | ValueFloat
  | BeginArray | BeginObject | EndArray | EndObject | NameSeparator | ValueSeparator | ParseErrorToken | EndOfInput | LiteralOrValue

fun token_type_name :: "token_type \<Rightarrow> string" where
  "token_type_name Uninitialized = ''<uninitialized>''"
| "token_type_name LiteralTrue = ''true literal''"
| "token_type_name LiteralFalse = ''false literal''"
| "token_type_name LiteralNull = ''null literal''"
| "token_type_name ValueString = ''string literal''"
| "token_type_name ValueUnsigned = ''number literal''"
| "token_type_name ValueInteger = ''number literal''"
| "token_type_name ValueFloat = ''number literal''"
| "token_type_name BeginArray = [CHR 0x27] @ ''['' @ [CHR 0x27]"
| "token_type_name BeginObject = [CHR 0x27] @ ''{'' @ [CHR 0x27]"
| "token_type_name EndArray = [CHR 0x27] @ '']'' @ [CHR 0x27]"
| "token_type_name EndObject = [CHR 0x27] @ ''}'' @ [CHR 0x27]"
| "token_type_name NameSeparator = [CHR 0x27] @ '':'' @ [CHR 0x27]"
| "token_type_name ValueSeparator = [CHR 0x27] @ '','' @ [CHR 0x27]"
| "token_type_name ParseErrorToken = ''<parse error>''"
| "token_type_name EndOfInput = ''end of input''"
| "token_type_name LiteralOrValue = [CHR 0x27] @ ''['' @ [CHR 0x27] @ '', '' @ [CHR 0x27] @ ''{'' @ [CHR 0x27] @ '', or a literal''"

text \<open>\<^verbatim>\<open>char_traits<char>::int_type\<close>: a byte, or end of file.\<close>

type_synonym int_type = "char option"

record position_t =
  chars_read_total :: nat
  chars_read_current_line :: nat
  lines_read :: nat

record lexer =
  ia :: string                      \<comment> \<open>what the input adapter has between its cursor and its limit\<close>
  current :: int_type
  next_unget :: bool
  position :: position_t
  token_string :: string
  token_buffer :: string
  error_message :: string
  value_integer :: "64 word"
  value_unsigned :: "64 word"
  value_float :: float64
  decimal_point_char :: char

text \<open>\<^verbatim>\<open>get_decimal_point\<close> in the C locale, which the program never changes.\<close>

definition get_decimal_point :: char where
  "get_decimal_point = CHR ''.''"

definition mk_lexer :: "string \<Rightarrow> lexer" where
  "mk_lexer s = \<lparr>ia = s, current = None, next_unget = False,
     position = \<lparr>chars_read_total = 0, chars_read_current_line = 0, lines_read = 0\<rparr>,
     token_string = [], token_buffer = [], error_message = [],
     value_integer = 0, value_unsigned = 0, value_float = Finite False 0 (- 1074), decimal_point_char = get_decimal_point\<rparr>"

subsection \<open>Input management\<close>

definition get_character :: "string \<Rightarrow> int_type \<times> string" where
  "get_character s = (case s of [] \<Rightarrow> (None, []) | c # cs \<Rightarrow> (Some c, cs))"

definition lex_get :: "lexer \<Rightarrow> lexer" where
  "lex_get lx = (
     let p = position lx;
         p = p\<lparr>chars_read_total := chars_read_total p + 1, chars_read_current_line := chars_read_current_line p + 1\<rparr>;
         lx = (if next_unget lx then lx\<lparr>next_unget := False\<rparr>
               else (let (c, rest) = get_character (ia lx) in lx\<lparr>current := c, ia := rest\<rparr>));
         lx = (case current lx of None \<Rightarrow> lx | Some c \<Rightarrow> lx\<lparr>token_string := token_string lx @ [c]\<rparr>);
         p = (if current lx = Some (CHR 0x0A) then p\<lparr>lines_read := lines_read p + 1, chars_read_current_line := 0\<rparr> else p)
     in lx\<lparr>position := p\<rparr>)"

definition lex_unget :: "lexer \<Rightarrow> lexer" where
  "lex_unget lx = (
     let p = position lx;
         p = p\<lparr>chars_read_total := chars_read_total p - 1\<rparr>;
         p = (if chars_read_current_line p = 0 then (if lines_read p > 0 then p\<lparr>lines_read := lines_read p - 1\<rparr> else p)
              else p\<lparr>chars_read_current_line := chars_read_current_line p - 1\<rparr>)
     in lx\<lparr>next_unget := True, position := p,
           token_string := (if current lx \<noteq> None then butlast (token_string lx) else token_string lx)\<rparr>)"

definition lex_add :: "char \<Rightarrow> lexer \<Rightarrow> lexer" where
  "lex_add c lx = lx\<lparr>token_buffer := token_buffer lx @ [c]\<rparr>"

text \<open>\<^verbatim>\<open>to_char_type\<close> of end of file is the byte 255.\<close>

definition to_char_type :: "int_type \<Rightarrow> char" where
  "to_char_type c = (case c of None \<Rightarrow> CHR 0xFF | Some c \<Rightarrow> c)"

definition add_current :: "lexer \<Rightarrow> lexer" where
  "add_current lx = lex_add (to_char_type (current lx)) lx"

definition lex_reset :: "lexer \<Rightarrow> lexer" where
  "lex_reset lx = lx\<lparr>token_buffer := [], token_string := [to_char_type (current lx)]\<rparr>"

definition lex_error :: "string \<Rightarrow> lexer \<Rightarrow> token_type \<times> lexer" where
  "lex_error m lx = (ParseErrorToken, lx\<lparr>error_message := m\<rparr>)"

subsection \<open>Strings\<close>

abbreviation code :: "char \<Rightarrow> nat" where
  "code c \<equiv> of_char c"

definition in_range :: "nat \<Rightarrow> nat \<Rightarrow> int_type \<Rightarrow> bool" where
  "in_range lo hi c = (case c of None \<Rightarrow> False | Some c \<Rightarrow> lo \<le> code c \<and> code c \<le> hi)"

definition hex_value :: "int_type \<Rightarrow> nat option" where
  "hex_value c = (if in_range 0x30 0x39 c then Some (code (the c) - 0x30)
     else if in_range 0x41 0x46 c then Some (code (the c) - 0x37)
     else if in_range 0x61 0x66 c then Some (code (the c) - 0x57) else None)"

fun codepoint_loop :: "nat list \<Rightarrow> nat \<Rightarrow> lexer \<Rightarrow> nat option \<times> lexer" where
  "codepoint_loop [] cp lx = (Some cp, lx)"
| "codepoint_loop (factor # factors) cp lx = (let lx = lex_get lx in
     case hex_value (current lx) of None \<Rightarrow> (None, lx) | Some d \<Rightarrow> codepoint_loop factors (cp + push_bit factor d) lx)"

definition get_codepoint :: "lexer \<Rightarrow> nat option \<times> lexer" where
  "get_codepoint lx = codepoint_loop [12, 8, 4, 0] 0 lx"

fun ranges_loop :: "(nat \<times> nat) list \<Rightarrow> lexer \<Rightarrow> bool \<times> lexer" where
  "ranges_loop [] lx = (True, lx)"
| "ranges_loop ((lo, hi) # ranges) lx = (let lx = lex_get lx in
     if in_range lo hi (current lx) then ranges_loop ranges (add_current lx)
     else (False, lx\<lparr>error_message := ''invalid string: ill-formed UTF-8 byte''\<rparr>))"

definition next_byte_in_range :: "(nat \<times> nat) list \<Rightarrow> lexer \<Rightarrow> bool \<times> lexer" where
  "next_byte_in_range ranges lx = ranges_loop ranges (add_current lx)"

text \<open>The bytes of a code point.\<close>

definition utf8_encode :: "nat \<Rightarrow> nat list" where
  "utf8_encode cp = (
     if cp < 0x80 then [cp]
     else if cp \<le> 0x7FF then [0xC0 OR drop_bit 6 cp, 0x80 OR (cp AND 0x3F)]
     else if cp \<le> 0xFFFF then [0xE0 OR drop_bit 12 cp, 0x80 OR (drop_bit 6 cp AND 0x3F), 0x80 OR (cp AND 0x3F)]
     else [0xF0 OR drop_bit 18 cp, 0x80 OR (drop_bit 12 cp AND 0x3F), 0x80 OR (drop_bit 6 cp AND 0x3F), 0x80 OR (cp AND 0x3F)])"

definition add_codepoint :: "nat \<Rightarrow> lexer \<Rightarrow> lexer" where
  "add_codepoint cp lx = fold (\<lambda>b. lex_add (char_of b)) (utf8_encode cp) lx"

text \<open>The unicode escape: \<open>Inl\<close> is a return with a parse error, \<open>Inr\<close> goes on with the next character.\<close>

abbreviation hex_digits_message :: string where
  "hex_digits_message \<equiv> ''invalid string: '' @ [CHR 0x27, CHR 0x5C] @ ''u'' @ [CHR 0x27] @ '' must be followed by 4 hex digits''"

definition scan_unicode_escape :: "lexer \<Rightarrow> (token_type \<times> lexer) + lexer" where
  "scan_unicode_escape lx = (
     let (codepoint1, lx) = get_codepoint lx in
     case codepoint1 of None \<Rightarrow> Inl (lex_error hex_digits_message lx)
     | Some codepoint1 \<Rightarrow>
       if 0xD800 \<le> codepoint1 \<and> codepoint1 \<le> 0xDBFF then
         (let lx = lex_get lx; e = ''invalid string: surrogate U+DC00..U+DFFF must be followed by U+DC00..U+DFFF'' in
          if current lx \<noteq> Some (CHR 0x5C) then Inl (lex_error e lx) else
          let lx = lex_get lx in
          if current lx \<noteq> Some (CHR ''u'') then Inl (lex_error e lx) else
          let (codepoint2, lx) = get_codepoint lx in
          case codepoint2 of None \<Rightarrow> Inl (lex_error hex_digits_message lx)
          | Some codepoint2 \<Rightarrow>
            if 0xDC00 \<le> codepoint2 \<and> codepoint2 \<le> 0xDFFF
            then Inr (add_codepoint (push_bit 10 codepoint1 + codepoint2 - 0x35FDC00) lx)
            else Inl (lex_error e lx))
       else if 0xDC00 \<le> codepoint1 \<and> codepoint1 \<le> 0xDFFF
       then Inl (lex_error ''invalid string: surrogate U+DC00..U+DFFF must follow U+D800..U+DBFF'' lx)
       else Inr (add_codepoint codepoint1 lx))"

text \<open>After a backslash.\<close>

definition scan_escape :: "lexer \<Rightarrow> (token_type \<times> lexer) + lexer" where
  "scan_escape lx = (let lx = lex_get lx; c = current lx in
     if c = Some (CHR 0x22) then Inr (lex_add (CHR 0x22) lx)
     else if c = Some (CHR 0x5C) then Inr (lex_add (CHR 0x5C) lx)
     else if c = Some (CHR ''/'') then Inr (lex_add (CHR ''/'') lx)
     else if c = Some (CHR ''b'') then Inr (lex_add (CHR 0x08) lx)
     else if c = Some (CHR ''f'') then Inr (lex_add (CHR 0x0C) lx)
     else if c = Some (CHR ''n'') then Inr (lex_add (CHR 0x0A) lx)
     else if c = Some (CHR ''r'') then Inr (lex_add (CHR 0x0D) lx)
     else if c = Some (CHR ''t'') then Inr (lex_add (CHR 0x09) lx)
     else if c = Some (CHR ''u'') then scan_unicode_escape lx
     else Inl (lex_error ''invalid string: forbidden character after backslash'' lx))"

text \<open>The messages for the control characters.\<close>

definition hex_upper :: "nat \<Rightarrow> char" where
  "hex_upper d = char_of (if d < 10 then 0x30 + d else 0x37 + d)"

definition hex4_upper :: "nat \<Rightarrow> string" where
  "hex4_upper n = [hex_upper (n div 4096 mod 16), hex_upper (n div 256 mod 16), hex_upper (n div 16 mod 16), hex_upper (n mod 16)]"

definition control_names :: "string list" where
  "control_names = [''NUL'', ''SOH'', ''STX'', ''ETX'', ''EOT'', ''ENQ'', ''ACK'', ''BEL'', ''BS'', ''HT'', ''LF'', ''VT'', ''FF'', ''CR'', ''SO'', ''SI'',
     ''DLE'', ''DC1'', ''DC2'', ''DC3'', ''DC4'', ''NAK'', ''SYN'', ''ETB'', ''CAN'', ''EM'', ''SUB'', ''ESC'', ''FS'', ''GS'', ''RS'', ''US'']"

definition short_escape :: "nat \<Rightarrow> string" where
  "short_escape n = (if n = 8 then '' or '' @ [CHR 0x5C] @ ''b'' else if n = 9 then '' or '' @ [CHR 0x5C] @ ''t''
     else if n = 10 then '' or '' @ [CHR 0x5C] @ ''n'' else if n = 12 then '' or '' @ [CHR 0x5C] @ ''f''
     else if n = 13 then '' or '' @ [CHR 0x5C] @ ''r'' else [])"

definition control_message :: "nat \<Rightarrow> string" where
  "control_message n = ''invalid string: control character U+'' @ hex4_upper n @ '' ('' @ control_names ! n @ '') must be escaped to ''
     @ [CHR 0x5C] @ ''u'' @ hex4_upper n @ short_escape n"

text \<open>The byte ranges that must follow the first byte of a sequence; \<open>None\<close> for a byte that starts none.\<close>

definition continuation_ranges :: "nat \<Rightarrow> (nat \<times> nat) list option" where
  "continuation_ranges b = (
     if 0xC2 \<le> b \<and> b \<le> 0xDF then Some [(0x80, 0xBF)]
     else if b = 0xE0 then Some [(0xA0, 0xBF), (0x80, 0xBF)]
     else if (0xE1 \<le> b \<and> b \<le> 0xEC) \<or> b = 0xEE \<or> b = 0xEF then Some [(0x80, 0xBF), (0x80, 0xBF)]
     else if b = 0xED then Some [(0x80, 0x9F), (0x80, 0xBF)]
     else if b = 0xF0 then Some [(0x90, 0xBF), (0x80, 0xBF), (0x80, 0xBF)]
     else if 0xF1 \<le> b \<and> b \<le> 0xF3 then Some [(0x80, 0xBF), (0x80, 0xBF), (0x80, 0xBF)]
     else if b = 0xF4 then Some [(0x80, 0x8F), (0x80, 0xBF), (0x80, 0xBF)]
     else None)"

text \<open>The switch of \<^verbatim>\<open>scan_string\<close> on the character just read.\<close>

definition scan_string_char :: "lexer \<Rightarrow> (token_type \<times> lexer) + lexer" where
  "scan_string_char lx = (case current lx of
     None \<Rightarrow> Inl (lex_error ''invalid string: missing closing quote'' lx)
   | Some c \<Rightarrow>
     if c = CHR 0x22 then Inl (ValueString, lx)
     else if c = CHR 0x5C then scan_escape lx
     else if code c \<le> 0x1F then Inl (lex_error (control_message (code c)) lx)
     else if code c \<le> 0x7F then Inr (add_current lx)
     else (case continuation_ranges (code c) of
       None \<Rightarrow> Inl (lex_error ''invalid string: ill-formed UTF-8 byte'' lx)
     | Some ranges \<Rightarrow> (let (ok, lx) = next_byte_in_range ranges lx in if ok then Inr lx else Inl (ParseErrorToken, lx))))"

subsubsection \<open>Termination\<close>

definition pending :: "lexer \<Rightarrow> string" where
  "pending lx = (if next_unget lx then (case current lx of None \<Rightarrow> [] | Some c \<Rightarrow> [c]) else []) @ ia lx"

lemma pending_update [simp]:
  "pending (lx\<lparr>error_message := m\<rparr>) = pending lx"
  "pending (lx\<lparr>position := p\<rparr>) = pending lx"
  "pending (lx\<lparr>token_string := t\<rparr>) = pending lx"
  "pending (lx\<lparr>token_buffer := t\<rparr>) = pending lx"
  "pending (lx\<lparr>value_integer := i\<rparr>) = pending lx"
  "pending (lx\<lparr>value_unsigned := i\<rparr>) = pending lx"
  "pending (lx\<lparr>value_float := f\<rparr>) = pending lx"
  by (simp_all add: pending_def)

lemma pending_add [simp]: "pending (lex_add c lx) = pending lx" "pending (add_current lx) = pending lx"
  "pending (lex_reset lx) = pending lx" "pending (snd (lex_error m lx)) = pending lx"
  by (simp_all add: lex_add_def add_current_def lex_reset_def lex_error_def)

lemma pending_add_codepoint [simp]: "pending (add_codepoint cp lx) = pending lx"
proof -
  have "pending (fold (\<lambda>b. lex_add (char_of b)) bs lx) = pending lx" for bs :: "nat list"
    by (induction bs arbitrary: lx) simp_all
  then show ?thesis by (simp add: add_codepoint_def)
qed

lemma pending_get_le: "length (pending (lex_get lx)) \<le> length (pending lx)"
  by (auto simp: lex_get_def pending_def Let_def get_character_def split: option.splits list.splits)

lemma pending_get_less: "current (lex_get lx) \<noteq> None \<Longrightarrow> length (pending (lex_get lx)) < length (pending lx)"
  by (auto simp: lex_get_def pending_def Let_def get_character_def split: option.splits list.splits if_splits)

lemma pending_codepoint_le: "length (pending (snd (codepoint_loop fs cp lx))) \<le> length (pending lx)"
proof (induction fs arbitrary: cp lx)
  case (Cons f fs)
  show ?case using pending_get_le [of lx] Cons.IH order_trans by (fastforce simp: Let_def split: option.splits)
qed simp

lemma pending_get_codepoint_le: "get_codepoint lx = (r, lx') \<Longrightarrow> length (pending lx') \<le> length (pending lx)"
  using pending_codepoint_le [of "[12, 8, 4, 0]" 0 lx] by (simp add: get_codepoint_def)

lemma pending_ranges_le: "length (pending (snd (ranges_loop rs lx))) \<le> length (pending lx)"
proof (induction rs arbitrary: lx)
  case (Cons r rs)
  obtain lo hi where r: "r = (lo, hi)" by fastforce
  have "length (pending (snd (ranges_loop rs (add_current (lex_get lx))))) \<le> length (pending lx)"
    using Cons.IH [of "add_current (lex_get lx)"] pending_get_le [of lx] by simp
  then show ?case using pending_get_le [of lx] by (simp add: r Let_def)
qed simp

lemma pending_next_byte_le: "next_byte_in_range rs lx = (r, lx') \<Longrightarrow> length (pending lx') \<le> length (pending lx)"
  using pending_ranges_le [of rs "add_current lx"] by (simp add: next_byte_in_range_def)

lemma pending_unicode_escape_le:
  assumes "scan_unicode_escape lx = Inr lx'"
  shows "length (pending lx') \<le> length (pending lx)"
proof -
  obtain c1 l1 where g1: "get_codepoint lx = (c1, l1)" by fastforce
  obtain c2 l2 where g2: "get_codepoint (lex_get (lex_get l1)) = (c2, l2)" by fastforce
  have "length (pending l1) \<le> length (pending lx)" using g1 by (rule pending_get_codepoint_le)
  moreover have "length (pending l2) \<le> length (pending l1)"
    using pending_get_codepoint_le [OF g2] pending_get_le [of "lex_get l1"] pending_get_le [of l1] by linarith
  ultimately show ?thesis using assms
    by (auto simp: scan_unicode_escape_def Let_def g1 g2 split: option.splits if_splits)
qed

lemma pending_escape_le: "scan_escape lx = Inr lx' \<Longrightarrow> length (pending lx') \<le> length (pending lx)"
  using pending_get_le [of lx] pending_unicode_escape_le [of "lex_get lx" lx']
  by (auto simp: scan_escape_def Let_def split: if_splits)

lemma pending_string_char:
  assumes "scan_string_char lx = Inr lx'"
  shows "current lx \<noteq> None" "length (pending lx') \<le> length (pending lx)"
proof -
  show "current lx \<noteq> None" using assms by (auto simp: scan_string_char_def split: option.splits)
  show "length (pending lx') \<le> length (pending lx)"
    using assms pending_escape_le [of lx lx'] pending_next_byte_le [of _ lx _ lx']
    by (auto simp: scan_string_char_def split: option.splits if_splits prod.splits)
qed

function scan_string_loop :: "lexer \<Rightarrow> token_type \<times> lexer" where
  "scan_string_loop lx = (case scan_string_char (lex_get lx) of Inl r \<Rightarrow> r | Inr lx' \<Rightarrow> scan_string_loop lx')"
  by pat_completeness auto

termination
  by (relation "measure (\<lambda>lx. length (pending lx))")
    (auto intro: le_less_trans [OF pending_string_char(2) pending_get_less [OF pending_string_char(1)]])

declare scan_string_loop.simps [simp del]

definition scan_string :: "lexer \<Rightarrow> token_type \<times> lexer" where
  "scan_string lx = scan_string_loop (lex_reset lx)"

subsection \<open>Numbers\<close>

abbreviation is_digit :: "int_type \<Rightarrow> bool" where
  "is_digit c \<equiv> in_range 0x30 0x39 c"

abbreviation is_digit19 :: "int_type \<Rightarrow> bool" where
  "is_digit19 c \<equiv> in_range 0x31 0x39 c"

abbreviation is_exp :: "int_type \<Rightarrow> bool" where
  "is_exp c \<equiv> c = Some (CHR ''e'') \<or> c = Some (CHR ''E'')"

text \<open>\<^verbatim>\<open>std::strtoull\<close> and \<^verbatim>\<open>std::strtoll\<close> in base 10 on a text of digits with an optional minus sign: the value, and
  whether \<^verbatim>\<open>errno\<close> stays 0.\<close>

definition strtoull10 :: "string \<Rightarrow> 64 word \<times> bool" where
  "strtoull10 s = (let n = base_value 10 s in if n < 2 ^ 64 then (of_nat n, True) else (- 1, False))"

definition strtoll10 :: "string \<Rightarrow> 64 word \<times> bool" where
  "strtoll10 s = (
     let (neg, ds) = (if s \<noteq> [] \<and> hd s = CHR ''-'' then (True, tl s) else (False, s)); n = int (base_value 10 ds); i = (if neg then - n else n) in
     if - (2 ^ 63) \<le> i \<and> i < 2 ^ 63 then (of_int i, True)
     else (of_int (if neg then - (2 ^ 63) else 2 ^ 63 - 1), False))"

definition number_value :: "token_type \<Rightarrow> lexer \<Rightarrow> token_type \<times> lexer" where
  "number_value number_type lx = (
     let fallback = (ValueFloat, lx\<lparr>value_float := strtod (token_buffer lx)\<rparr>) in
     if number_type = ValueUnsigned then
       (let (x, ok) = strtoull10 (token_buffer lx) in if ok then (ValueUnsigned, lx\<lparr>value_unsigned := x\<rparr>) else fallback)
     else if number_type = ValueInteger then
       (let (x, ok) = strtoll10 (token_buffer lx) in if ok then (ValueInteger, lx\<lparr>value_integer := x\<rparr>) else fallback)
     else fallback)"

definition scan_number_done :: "token_type \<Rightarrow> lexer \<Rightarrow> token_type \<times> lexer" where
  "scan_number_done number_type lx = number_value number_type (lex_unget lx)"

function scan_number_any2 :: "token_type \<Rightarrow> lexer \<Rightarrow> token_type \<times> lexer" where
  "scan_number_any2 ty lx = (let lx' = lex_get lx in
     if is_digit (current lx') then scan_number_any2 ty (add_current lx') else scan_number_done ty lx')"
  by pat_completeness auto

lemma digit_not_eof: "in_range lo hi c \<Longrightarrow> c \<noteq> None"
  by (auto simp: in_range_def split: option.splits)

termination scan_number_any2
  by (relation "measure (\<lambda>(_, lx). length (pending lx))") (auto intro!: pending_get_less dest: digit_not_eof)

definition scan_number_sign :: "token_type \<Rightarrow> lexer \<Rightarrow> token_type \<times> lexer" where
  "scan_number_sign ty lx = (let lx = lex_get lx in
     if is_digit (current lx) then scan_number_any2 ty (add_current lx)
     else lex_error ''invalid number; expected digit after exponent sign'' lx)"

text \<open>The exponent, the fraction and the sign set the type of the number.\<close>

definition scan_number_exponent :: "lexer \<Rightarrow> token_type \<times> lexer" where
  "scan_number_exponent lx = (let ty = ValueFloat; lx = lex_get lx in
     if current lx = Some (CHR ''+'') \<or> current lx = Some (CHR ''-'') then scan_number_sign ty (add_current lx)
     else if is_digit (current lx) then scan_number_any2 ty (add_current lx)
     else lex_error (''invalid number; expected '' @ [CHR 0x27] @ ''+'' @ [CHR 0x27] @ '', '' @ [CHR 0x27] @ ''-'' @ [CHR 0x27] @ '', or digit after exponent'') lx)"

function scan_number_decimal2 :: "token_type \<Rightarrow> lexer \<Rightarrow> token_type \<times> lexer" where
  "scan_number_decimal2 ty lx = (let lx' = lex_get lx in
     if is_digit (current lx') then scan_number_decimal2 ty (add_current lx')
     else if is_exp (current lx') then scan_number_exponent (add_current lx') else scan_number_done ty lx')"
  by pat_completeness auto

termination scan_number_decimal2
  by (relation "measure (\<lambda>(_, lx). length (pending lx))") (auto intro!: pending_get_less dest: digit_not_eof)

definition scan_number_decimal1 :: "lexer \<Rightarrow> token_type \<times> lexer" where
  "scan_number_decimal1 lx = (let ty = ValueFloat; lx = lex_get lx in
     if is_digit (current lx) then scan_number_decimal2 ty (add_current lx)
     else lex_error (''invalid number; expected digit after '' @ [CHR 0x27] @ ''.'' @ [CHR 0x27]) lx)"

function scan_number_any1 :: "token_type \<Rightarrow> lexer \<Rightarrow> token_type \<times> lexer" where
  "scan_number_any1 ty lx = (let lx' = lex_get lx in
     if is_digit (current lx') then scan_number_any1 ty (add_current lx')
     else if current lx' = Some (CHR ''.'') then scan_number_decimal1 (lex_add (decimal_point_char lx') lx')
     else if is_exp (current lx') then scan_number_exponent (add_current lx') else scan_number_done ty lx')"
  by pat_completeness auto

termination scan_number_any1
  by (relation "measure (\<lambda>(_, lx). length (pending lx))") (auto intro!: pending_get_less dest: digit_not_eof)

definition scan_number_zero :: "token_type \<Rightarrow> lexer \<Rightarrow> token_type \<times> lexer" where
  "scan_number_zero ty lx = (let lx = lex_get lx in
     if current lx = Some (CHR ''.'') then scan_number_decimal1 (lex_add (decimal_point_char lx) lx)
     else if is_exp (current lx) then scan_number_exponent (add_current lx) else scan_number_done ty lx)"

definition scan_number_minus :: "lexer \<Rightarrow> token_type \<times> lexer" where
  "scan_number_minus lx = (let ty = ValueInteger; lx = lex_get lx in
     if current lx = Some (CHR ''0'') then scan_number_zero ty (add_current lx)
     else if is_digit19 (current lx) then scan_number_any1 ty (add_current lx)
     else lex_error (''invalid number; expected digit after '' @ [CHR 0x27] @ ''-'' @ [CHR 0x27]) lx)"

text \<open>On any other character the assertion of the last case fails; without assertions the code falls through to the label
  below it. \<open>lex_scan\<close> calls it on a minus sign or a digit only.\<close>

definition scan_number :: "lexer \<Rightarrow> token_type \<times> lexer" where
  "scan_number lx = (let lx = lex_reset lx; ty = ValueUnsigned in
     if current lx = Some (CHR ''-'') then scan_number_minus (add_current lx)
     else if current lx = Some (CHR ''0'') then scan_number_zero ty (add_current lx)
     else if is_digit19 (current lx) then scan_number_any1 ty (add_current lx)
     else scan_number_minus lx)"

declare scan_number_any1.simps [simp del] scan_number_any2.simps [simp del] scan_number_decimal2.simps [simp del]

subsection \<open>The scanner\<close>

fun literal_loop :: "string \<Rightarrow> token_type \<Rightarrow> lexer \<Rightarrow> token_type \<times> lexer" where
  "literal_loop [] ty lx = (ty, lx)"
| "literal_loop (c # cs) ty lx = (let lx = lex_get lx in
     if current lx \<noteq> Some c then lex_error ''invalid literal'' lx else literal_loop cs ty lx)"

definition scan_literal :: "string \<Rightarrow> token_type \<Rightarrow> lexer \<Rightarrow> token_type \<times> lexer" where
  "scan_literal literal_text return_type lx = literal_loop (tl literal_text) return_type lx"

definition get_token_string :: "lexer \<Rightarrow> string" where
  "get_token_string lx = concat (map (\<lambda>c. if code c \<le> 0x1F then ''<U+'' @ hex4_upper (code c) @ ''>'' else [c]) (token_string lx))"

definition skip_bom :: "lexer \<Rightarrow> bool \<times> lexer" where
  "skip_bom lx = (let lx = lex_get lx in
     if current lx = Some (CHR 0xEF) then
       (let lx = lex_get lx in if current lx \<noteq> Some (CHR 0xBB) then (False, lx)
        else let lx = lex_get lx in (current lx = Some (CHR 0xBF), lx))
     else (True, lex_unget lx))"

abbreviation is_ws :: "int_type \<Rightarrow> bool" where
  "is_ws c \<equiv> c = Some (CHR '' '') \<or> c = Some (CHR 0x09) \<or> c = Some (CHR 0x0A) \<or> c = Some (CHR 0x0D)"

function skip_whitespace :: "lexer \<Rightarrow> lexer" where
  "skip_whitespace lx = (let lx' = lex_get lx in if is_ws (current lx') then skip_whitespace lx' else lx')"
  by pat_completeness auto

termination skip_whitespace
  by (relation "measure (\<lambda>lx. length (pending lx))") (auto intro!: pending_get_less)

declare skip_whitespace.simps [simp del]

definition scan_token :: "lexer \<Rightarrow> token_type \<times> lexer" where
  "scan_token lx = (case current lx of
     None \<Rightarrow> (EndOfInput, lx)
   | Some c \<Rightarrow>
     if c = CHR ''['' then (BeginArray, lx)
     else if c = CHR '']'' then (EndArray, lx)
     else if c = CHR ''{'' then (BeginObject, lx)
     else if c = CHR ''}'' then (EndObject, lx)
     else if c = CHR '':'' then (NameSeparator, lx)
     else if c = CHR '','' then (ValueSeparator, lx)
     else if c = CHR ''t'' then scan_literal ''true'' LiteralTrue lx
     else if c = CHR ''f'' then scan_literal ''false'' LiteralFalse lx
     else if c = CHR ''n'' then scan_literal ''null'' LiteralNull lx
     else if c = CHR 0x22 then scan_string lx
     else if c = CHR ''-'' \<or> is_digit (Some c) then scan_number lx
     else if c = CHR 0x00 then (EndOfInput, lx)
     else lex_error ''invalid literal'' lx)"

definition lex_scan :: "lexer \<Rightarrow> token_type \<times> lexer" where
  "lex_scan lx = (
     let (ok, lx) = (if chars_read_total (position lx) = 0 then skip_bom lx else (True, lx)) in
     if \<not> ok then lex_error ''invalid BOM; must be 0xEF 0xBB 0xBF if given'' lx
     else scan_token (skip_whitespace lx))"

subsection \<open>What the lexer reads\<close>

text \<open>At the end of file the adapter has nothing more, so an ungotten end of file comes again; the decimal point is the one of the
  C locale. \<open>lex_ok\<close> holds between any two operations of the lexer.\<close>

definition lex_ok :: "lexer \<Rightarrow> bool" where
  "lex_ok lx = ((next_unget lx \<longrightarrow> current lx = None \<longrightarrow> ia lx = []) \<and> decimal_point_char lx = CHR ''.'')"

lemma lex_ok_decimal_point: "lex_ok lx \<Longrightarrow> decimal_point_char lx = CHR ''.''"
  by (simp add: lex_ok_def)

abbreviation total_read :: "lexer \<Rightarrow> nat" where
  "total_read lx \<equiv> chars_read_total (position lx)"

named_theorems lex_simps \<open>effect of the input management on what is read\<close>

lemma lex_get_simps [lex_simps]:
  "lex_ok lx \<Longrightarrow> current (lex_get lx) = (case pending lx of [] \<Rightarrow> None | c # cs \<Rightarrow> Some c)"
  "lex_ok lx \<Longrightarrow> pending (lex_get lx) = tl (pending lx)"
  "lex_ok lx \<Longrightarrow> lex_ok (lex_get lx)"
  "token_buffer (lex_get lx) = token_buffer lx"
  "total_read (lex_get lx) = total_read lx + 1"
  "decimal_point_char (lex_get lx) = decimal_point_char lx"
  by (auto simp: lex_get_def pending_def lex_ok_def Let_def get_character_def split: option.splits list.splits if_splits)

lemma lex_add_simps [lex_simps]:
  "current (lex_add c lx) = current lx" "lex_ok (lex_add c lx) = lex_ok lx"
  "token_buffer (lex_add c lx) = token_buffer lx @ [c]" "total_read (lex_add c lx) = total_read lx"
  "decimal_point_char (lex_add c lx) = decimal_point_char lx"
  by (simp_all add: lex_add_def lex_ok_def)

lemma add_current_simps [lex_simps]:
  "current (add_current lx) = current lx" "lex_ok (add_current lx) = lex_ok lx"
  "token_buffer (add_current lx) = token_buffer lx @ [to_char_type (current lx)]" "total_read (add_current lx) = total_read lx"
  "decimal_point_char (add_current lx) = decimal_point_char lx"
  by (simp_all add: add_current_def lex_simps)

lemma add_codepoint_simps [lex_simps]:
  "lex_ok (add_codepoint cp lx) = lex_ok lx"
  "token_buffer (add_codepoint cp lx) = token_buffer lx @ map char_of (utf8_encode cp)"
  "total_read (add_codepoint cp lx) = total_read lx"
proof -
  have *: "lex_ok (fold (\<lambda>b. lex_add (char_of b)) bs lx) = lex_ok lx \<and>
     token_buffer (fold (\<lambda>b. lex_add (char_of b)) bs lx) = token_buffer lx @ map char_of bs \<and>
     total_read (fold (\<lambda>b. lex_add (char_of b)) bs lx) = total_read lx" for bs :: "nat list"
    by (induction bs arbitrary: lx) (simp_all add: lex_simps)
  show "lex_ok (add_codepoint cp lx) = lex_ok lx" using * unfolding add_codepoint_def by blast
  show "token_buffer (add_codepoint cp lx) = token_buffer lx @ map char_of (utf8_encode cp)"
    using * unfolding add_codepoint_def by blast
  show "total_read (add_codepoint cp lx) = total_read lx" using * unfolding add_codepoint_def by blast
qed

lemma lex_reset_simps [lex_simps]:
  "current (lex_reset lx) = current lx" "lex_ok (lex_reset lx) = lex_ok lx" "token_buffer (lex_reset lx) = []"
  "total_read (lex_reset lx) = total_read lx" "decimal_point_char (lex_reset lx) = decimal_point_char lx"
  by (simp_all add: lex_reset_def lex_ok_def)

text \<open>A character that is ungotten is read again.\<close>

lemma lex_unget_get [lex_simps]:
  assumes "lex_ok lx"
  shows "pending (lex_unget (lex_get lx)) = pending lx" "lex_ok (lex_unget (lex_get lx))"
    "token_buffer (lex_unget (lex_get lx)) = token_buffer lx" "total_read (lex_unget (lex_get lx)) = total_read lx"
    "decimal_point_char (lex_unget (lex_get lx)) = decimal_point_char lx"
  using assms
  by (auto simp: lex_unget_def lex_get_def pending_def lex_ok_def Let_def get_character_def split: option.splits list.splits if_splits)

text \<open>The assertions of \<^verbatim>\<open>unget\<close>: there is a character to take off the token, and the count is not zero.\<close>

lemma unget_assertion: "current (lex_get lx) \<noteq> None \<Longrightarrow> token_string (lex_get lx) \<noteq> []" "total_read (lex_get lx) \<noteq> 0"
  by (auto simp: lex_get_def Let_def split: option.splits)

subsubsection \<open>A reference reading of strings\<close>

text \<open>\<open>read_hex4\<close>, \<open>read_seq\<close>, \<open>read_char\<close> and \<open>read_string\<close> work on the text alone: what a character of a JSON string stands for,
  and what is left.\<close>

fun read_hex :: "nat list \<Rightarrow> nat \<Rightarrow> string \<Rightarrow> (nat \<times> string) option" where
  "read_hex [] cp s = Some (cp, s)"
| "read_hex (f # fs) cp [] = None"
| "read_hex (f # fs) cp (c # cs) = (case hex_value (Some c) of None \<Rightarrow> None | Some d \<Rightarrow> read_hex fs (cp + push_bit f d) cs)"

fun read_seq :: "(nat \<times> nat) list \<Rightarrow> string \<Rightarrow> (string \<times> string) option" where
  "read_seq [] s = Some ([], s)"
| "read_seq (r # rs) [] = None"
| "read_seq (r # rs) (c # cs) = (if in_range (fst r) (snd r) (Some c) then map_option (\<lambda>(b, t). (c # b, t)) (read_seq rs cs) else None)"

abbreviation read_hex4 :: "string \<Rightarrow> (nat \<times> string) option" where
  "read_hex4 \<equiv> read_hex [12, 8, 4, 0] 0"

definition read_unicode :: "string \<Rightarrow> (nat \<times> string) option" where
  "read_unicode s = (case read_hex4 s of None \<Rightarrow> None | Some (c1, s) \<Rightarrow>
     if 0xD800 \<le> c1 \<and> c1 \<le> 0xDBFF then
       (case s of a # b # s \<Rightarrow> if a = CHR 0x5C \<and> b = CHR ''u'' then
          (case read_hex4 s of None \<Rightarrow> None | Some (c2, s) \<Rightarrow>
             if 0xDC00 \<le> c2 \<and> c2 \<le> 0xDFFF then Some (0x10000 + (c1 - 0xD800) * 0x400 + (c2 - 0xDC00), s) else None) else None
        | _ \<Rightarrow> None)
     else if 0xDC00 \<le> c1 \<and> c1 \<le> 0xDFFF then None else Some (c1, s))"

definition simple_escape :: "char \<Rightarrow> char option" where
  "simple_escape c = map_of [(CHR 0x22, CHR 0x22), (CHR 0x5C, CHR 0x5C), (CHR ''/'', CHR ''/''), (CHR ''b'', CHR 0x08),
     (CHR ''f'', CHR 0x0C), (CHR ''n'', CHR 0x0A), (CHR ''r'', CHR 0x0D), (CHR ''t'', CHR 0x09)] c"

definition read_char :: "string \<Rightarrow> (string \<times> string) option" where
  "read_char s = (case s of [] \<Rightarrow> None | c # cs \<Rightarrow>
     if c = CHR 0x5C then
       (case cs of [] \<Rightarrow> None | e # cs \<Rightarrow>
          if e = CHR ''u'' then map_option (\<lambda>(cp, t). (map char_of (utf8_encode cp), t)) (read_unicode cs)
          else map_option (\<lambda>b. ([b], cs)) (simple_escape e))
     else if code c \<le> 0x1F then None
     else if code c \<le> 0x7F then Some ([c], cs)
     else (case continuation_ranges (code c) of None \<Rightarrow> None | Some rs \<Rightarrow> map_option (\<lambda>(b, t). (c # b, t)) (read_seq rs cs)))"

text \<open>What a step of the lexer has read, in terms of the text.\<close>

definition step_reads :: "lexer \<Rightarrow> (string \<times> string) option \<Rightarrow> (token_type \<times> lexer) + lexer \<Rightarrow> bool" where
  "step_reads lx r out = (case r of
     None \<Rightarrow> (\<exists>lx'. out = Inl (ParseErrorToken, lx'))
   | Some (b, t) \<Rightarrow> (\<exists>lx'. out = Inr lx' \<and> pending lx' = t \<and> token_buffer lx' = token_buffer lx @ b \<and> lex_ok lx' \<and> total_read lx \<le> total_read lx'))"

lemma codepoint_loop_reads:
  assumes "lex_ok lx"
  shows "case read_hex fs cp (pending lx) of
      None \<Rightarrow> (\<exists>lx'. codepoint_loop fs cp lx = (None, lx'))
    | Some (n, t) \<Rightarrow> (\<exists>lx'. codepoint_loop fs cp lx = (Some n, lx') \<and> pending lx' = t \<and> token_buffer lx' = token_buffer lx \<and> lex_ok lx'
         \<and> total_read lx \<le> total_read lx')"
  using assms
proof (induction fs arbitrary: cp lx)
  case (Cons f fs)
  show ?case
  proof (cases "pending lx")
    case Nil
    then show ?thesis using Cons.prems by (simp add: Let_def lex_simps hex_value_def in_range_def)
  next
    case (Cons c cs)
    have c: "current (lex_get lx) = Some c" "pending (lex_get lx) = cs" using Cons Cons.prems by (simp_all add: lex_simps)
    show ?thesis
    proof (cases "hex_value (Some c)")
      case None
      then show ?thesis using Cons c by (simp add: Let_def)
    next
      case (Some d)
      have "codepoint_loop (f # fs) cp lx = codepoint_loop fs (cp + push_bit f d) (lex_get lx)"
        "read_hex (f # fs) cp (pending lx) = read_hex fs (cp + push_bit f d) (pending (lex_get lx))"
        using Cons c Some by (simp_all add: Let_def)
      then show ?thesis using Cons.IH [of "lex_get lx" "cp + push_bit f d"] Cons.prems by (auto simp: lex_simps split: option.splits)
    qed
  qed
qed simp

lemmas get_codepoint_reads = codepoint_loop_reads [of _ "[12, 8, 4, 0]" 0, folded get_codepoint_def]

lemma ranges_loop_reads:
  assumes "lex_ok lx"
  shows "case read_seq rs (pending lx) of
      None \<Rightarrow> (\<exists>lx'. ranges_loop rs lx = (False, lx'))
    | Some (b, t) \<Rightarrow> (\<exists>lx'. ranges_loop rs lx = (True, lx') \<and> pending lx' = t \<and> token_buffer lx' = token_buffer lx @ b \<and> lex_ok lx'
         \<and> total_read lx \<le> total_read lx')"
  using assms
proof (induction rs arbitrary: lx)
  case (Cons r rs)
  show ?case
  proof (cases "pending lx")
    case Nil
    then show ?thesis using Cons.prems by (cases r) (simp add: Let_def lex_simps in_range_def)
  next
    case (Cons c cs)
    have c: "current (lex_get lx) = Some c" "pending (lex_get lx) = cs" using Cons Cons.prems by (simp_all add: lex_simps)
    have "lex_ok (add_current (lex_get lx))" using Cons.prems by (simp add: lex_simps)
    then show ?thesis using Cons.IH [of "add_current (lex_get lx)"] Cons c
      by (cases r) (auto simp: Let_def lex_simps to_char_type_def split: option.splits)
  qed
qed simp

lemma surrogate_value:
  "0xD800 \<le> c1 \<Longrightarrow> 0xDC00 \<le> c2 \<Longrightarrow> push_bit 10 c1 + c2 - 0x35FDC00 = 0x10000 + (c1 - 0xD800) * 0x400 + (c2 - 0xDC00 :: nat)"
  by (simp add: push_bit_eq_mult)

lemma scan_unicode_escape_reads:
  assumes "lex_ok lx"
  shows "step_reads lx (map_option (\<lambda>(cp, t). (map char_of (utf8_encode cp), t)) (read_unicode (pending lx))) (scan_unicode_escape lx)"
proof (cases "read_hex4 (pending lx)")
  case None
  then show ?thesis using get_codepoint_reads [OF assms]
    by (auto simp: step_reads_def read_unicode_def scan_unicode_escape_def lex_error_def)
next
  case (Some r)
  obtain c1 t1 where r: "r = (c1, t1)" by fastforce
  obtain l1 where l1: "get_codepoint lx = (Some c1, l1)" "pending l1 = t1" "token_buffer l1 = token_buffer lx" "lex_ok l1"
      "total_read lx \<le> total_read l1"
    using get_codepoint_reads [OF assms] Some r by auto
  show ?thesis
  proof (cases "0xD800 \<le> c1 \<and> c1 \<le> 0xDBFF")
    case False
    then show ?thesis using Some r l1
      by (auto simp: step_reads_def read_unicode_def scan_unicode_escape_def lex_error_def lex_simps)
  next
    case hi: True
    show ?thesis
    proof (cases "\<exists>t2. t1 = CHR 0x5C # CHR ''u'' # t2")
      case False
      then have "current (lex_get l1) \<noteq> Some (CHR 0x5C) \<or> current (lex_get (lex_get l1)) \<noteq> Some (CHR ''u'')"
        using l1 by (auto simp: lex_simps split: list.splits)
      moreover have "read_unicode (pending lx) = None"
        using False Some r hi by (auto simp: read_unicode_def split: list.splits)
      ultimately show ?thesis using l1 hi
        by (auto simp: step_reads_def scan_unicode_escape_def lex_error_def Let_def)
    next
      case True
      then obtain t2 where t2: "t1 = CHR 0x5C # CHR ''u'' # t2" by blast
      define l2 where "l2 = lex_get (lex_get l1)"
      have l2: "current (lex_get l1) = Some (CHR 0x5C)" "current l2 = Some (CHR ''u'')" "pending l2 = t2" "lex_ok l2"
          "token_buffer l2 = token_buffer lx" "total_read lx \<le> total_read l2"
        using l1 t2 by (simp_all add: lex_simps l2_def)
      show ?thesis
      proof (cases "read_hex4 t2")
        case None
        then obtain l3 where "get_codepoint l2 = (None, l3)" using get_codepoint_reads [OF l2(4)] l2(3) by auto
        then show ?thesis using l1 l2 hi Some r t2 None
          by (simp add: step_reads_def read_unicode_def scan_unicode_escape_def lex_error_def l2_def [symmetric] Let_def)
      next
        case (Some q)
        obtain c2 t3 where q: "q = (c2, t3)" by fastforce
        obtain l3 where l3: "get_codepoint l2 = (Some c2, l3)" "pending l3 = t3" "token_buffer l3 = token_buffer lx" "lex_ok l3"
            "total_read lx \<le> total_read l3"
          using get_codepoint_reads [OF l2(4)] l2 Some q by auto
        have ru: "read_unicode (pending lx) = (if 0xDC00 \<le> c2 \<and> c2 \<le> 0xDFFF
            then Some (0x10000 + (c1 - 0xD800) * 0x400 + (c2 - 0xDC00), t3) else None)"
          using \<open>read_hex4 (pending lx) = Some r\<close> r hi t2 Some q by (simp add: read_unicode_def)
        have su: "scan_unicode_escape lx = (if 0xDC00 \<le> c2 \<and> c2 \<le> 0xDFFF
            then Inr (add_codepoint (push_bit 10 c1 + c2 - 0x35FDC00) l3)
            else Inl (lex_error ''invalid string: surrogate U+DC00..U+DFFF must be followed by U+DC00..U+DFFF'' l3))"
          using l1 l2 l3 hi by (simp add: scan_unicode_escape_def Let_def l2_def [symmetric])
        show ?thesis
        proof (cases "0xDC00 \<le> c2 \<and> c2 \<le> 0xDFFF")
          case True
          define cp where "cp = 0x10000 + (c1 - 0xD800) * 0x400 + (c2 - 0xDC00)"
          have "push_bit 10 c1 + c2 - 0x35FDC00 = cp" unfolding cp_def using True hi by (intro surrogate_value) auto
          then have "scan_unicode_escape lx = Inr (add_codepoint cp l3)" unfolding su by (simp only: True if_True simp_thms)
          moreover have "read_unicode (pending lx) = Some (cp, t3)" unfolding ru cp_def by (simp only: True if_True simp_thms)
          ultimately show ?thesis using l3 by (simp add: step_reads_def lex_simps)
        next
          case False
          then show ?thesis unfolding if_not_P [OF False, THEN trans [OF ru]] if_not_P [OF False, THEN trans [OF su]]
            by (simp add: step_reads_def lex_error_def)
        qed
      qed
    qed
  qed
qed

lemma scan_escape_reads:
  assumes "lex_ok lx"
  shows "step_reads lx (read_char (CHR 0x5C # pending lx)) (scan_escape lx)"
proof (cases "pending lx")
  case Nil
  then show ?thesis using assms by (simp add: step_reads_def read_char_def scan_escape_def Let_def lex_error_def lex_simps)
next
  case (Cons c cs)
  have c: "current (lex_get lx) = Some c" "pending (lex_get lx) = cs" using Cons assms by (simp_all add: lex_simps)
  have ok: "lex_ok (lex_get lx)" using assms by (simp add: lex_simps)
  have buf: "token_buffer (lex_get lx) = token_buffer lx" "total_read lx \<le> total_read (lex_get lx)" by (simp_all add: lex_simps)
  show ?thesis
  proof (cases "c = CHR ''u''")
    case True
    have "step_reads (lex_get lx) (read_char (CHR 0x5C # pending lx)) (scan_escape lx)"
      using scan_unicode_escape_reads [OF ok] c Cons True by (simp add: read_char_def scan_escape_def Let_def)
    then show ?thesis using buf by (auto simp: step_reads_def split: option.splits)
  next
    case False
    then show ?thesis using c Cons ok buf
      by (auto simp: step_reads_def read_char_def scan_escape_def Let_def simple_escape_def lex_error_def lex_simps)
  qed
qed

lemma scan_string_char_reads:
  assumes "lex_ok lx" and c: "current lx = Some c" and "c \<noteq> CHR 0x22"
  shows "step_reads lx (read_char (c # pending lx)) (scan_string_char lx)"
proof (cases "c = CHR 0x5C \<or> code c \<le> 0x7F \<or> continuation_ranges (code c) = None")
  case True
  then show ?thesis using assms scan_escape_reads [OF assms(1)]
    by (auto simp: scan_string_char_def step_reads_def read_char_def lex_error_def lex_simps to_char_type_def)
next
  case False
  then obtain rs where rs: "continuation_ranges (code c) = Some rs" by blast
  have sc: "scan_string_char lx = (let (ok, lx) = next_byte_in_range rs lx in if ok then Inr lx else Inl (ParseErrorToken, lx))"
    using False rs assms by (simp add: scan_string_char_def)
  have rc: "read_char (c # pending lx) = map_option (\<lambda>(b, t). (c # b, t)) (read_seq rs (pending lx))"
    using False rs by (simp add: read_char_def)
  have "lex_ok (add_current lx)" using assms by (simp add: lex_simps)
  from ranges_loop_reads [OF this, of rs] show ?thesis
    unfolding sc rc using c
    by (auto simp: step_reads_def next_byte_in_range_def lex_simps to_char_type_def split: option.splits)
qed

lemma read_hex_shorter: "read_hex fs cp s = Some (n, t) \<Longrightarrow> length t \<le> length s"
  by (induction fs cp s rule: read_hex.induct) (auto split: option.splits)

lemma read_seq_shorter: "read_seq rs s = Some (b, t) \<Longrightarrow> length t \<le> length s"
  by (induction rs s arbitrary: b rule: read_seq.induct) (auto split: if_splits intro: le_SucI)

lemma read_unicode_shorter:
  assumes "read_unicode s = Some (n, t)"
  shows "length t \<le> length s"
proof -
  obtain c1 s1 where s1: "read_hex4 s = Some (c1, s1)" using assms by (auto simp: read_unicode_def split: option.splits)
  have a: "length s1 \<le> length s" by (rule read_hex_shorter [OF s1])
  have "length t \<le> length s1"
  proof (cases "0xD800 \<le> c1 \<and> c1 \<le> 0xDBFF")
    case True
    obtain a b s2 where s2: "s1 = a # b # s2" using assms s1 True by (auto simp: read_unicode_def split: list.splits)
    obtain c2 where "read_hex4 s2 = Some (c2, t)"
      using assms s1 True s2 by (auto simp: read_unicode_def split: if_splits option.splits)
    then have "length t \<le> length s2" by (rule read_hex_shorter)
    then show ?thesis using s2 by simp
  next
    case False
    then show ?thesis using assms s1 by (simp add: read_unicode_def split: if_splits)
  qed
  with a show ?thesis by simp
qed

lemma read_char_shorter: "read_char s = Some (b, t) \<Longrightarrow> length t < length s"
  by (auto simp: read_char_def less_Suc_eq_le split: list.splits option.splits if_splits
      dest!: read_unicode_shorter read_seq_shorter)

function read_string :: "string \<Rightarrow> (string \<times> string) option" where
  "read_string s = (if s \<noteq> [] \<and> hd s = CHR 0x22 then Some ([], tl s) else
     (case read_char s of None \<Rightarrow> None | Some (b, t) \<Rightarrow> map_option (\<lambda>(b', t'). (b @ b', t')) (read_string t)))"
  by pat_completeness auto

termination
  by (relation "measure length") (auto dest: read_char_shorter)

declare read_string.simps [simp del]

text \<open>The lexer reads a string exactly as the reference does.\<close>

lemma scan_string_loop_reads:
  assumes "lex_ok lx"
  shows "case read_string (pending lx) of
      None \<Rightarrow> (\<exists>lx'. scan_string_loop lx = (ParseErrorToken, lx'))
    | Some (b, t) \<Rightarrow> (\<exists>lx'. scan_string_loop lx = (ValueString, lx') \<and> token_buffer lx' = token_buffer lx @ b \<and> pending lx' = t \<and> lex_ok lx'
        \<and> total_read lx \<le> total_read lx')"
  using assms
proof (induction lx rule: scan_string_loop.induct)
  case (1 lx)
  note ss = scan_string_loop.simps [of lx] read_string.simps [of "pending lx"]
  show ?case
  proof (cases "pending lx")
    case Nil
    then have "current (lex_get lx) = None" using "1.prems" by (simp add: lex_simps)
    then show ?thesis using Nil ss by (simp add: scan_string_char_def read_char_def lex_error_def)
  next
    case (Cons c cs)
    have c: "current (lex_get lx) = Some c" "pending (lex_get lx) = cs" "lex_ok (lex_get lx)"
      "token_buffer (lex_get lx) = token_buffer lx" "total_read lx \<le> total_read (lex_get lx)"
      using Cons "1.prems" by (simp_all add: lex_simps)
    show ?thesis
    proof (cases "c = CHR 0x22")
      case True
      then show ?thesis using Cons c ss by (simp add: scan_string_char_def)
    next
      case False
      have sr: "step_reads (lex_get lx) (read_char (pending lx)) (scan_string_char (lex_get lx))"
        using scan_string_char_reads [OF c(3,1) False] c(2) Cons by simp
      show ?thesis
      proof (cases "read_char (pending lx)")
        case None
        then show ?thesis using sr Cons False ss by (auto simp: step_reads_def)
      next
        case (Some r)
        obtain b t where r: "r = (b, t)" by fastforce
        obtain l' where l': "scan_string_char (lex_get lx) = Inr l'" "pending l' = t" "token_buffer l' = token_buffer lx @ b" "lex_ok l'"
            "total_read lx \<le> total_read l'"
          using sr Some r c by (auto simp: step_reads_def)
        have e: "scan_string_loop lx = scan_string_loop l'"
          "read_string (pending lx) = map_option (\<lambda>(b', t'). (b @ b', t')) (read_string (pending l'))"
          using ss l' Some r Cons False by simp_all
        show ?thesis using "1.IH" [OF l'(1) l'(4)] l' unfolding e by (auto split: option.splits)
      qed
    qed
  qed
qed

lemma scan_string_reads:
  assumes "lex_ok lx"
  shows "case read_string (pending lx) of
      None \<Rightarrow> (\<exists>lx'. scan_string lx = (ParseErrorToken, lx'))
    | Some (b, t) \<Rightarrow> (\<exists>lx'. scan_string lx = (ValueString, lx') \<and> token_buffer lx' = b \<and> pending lx' = t \<and> lex_ok lx'
        \<and> total_read lx \<le> total_read lx')"
  using scan_string_loop_reads [of "lex_reset lx"] assms
  by (auto simp: scan_string_def lex_simps split: option.splits)

subsubsection \<open>A reference reading of numbers\<close>

text \<open>\<open>read_number\<close> is the grammar: an optional minus sign, an integer without leading zeros, an optional fraction and an optional
  exponent, each as long as it can be.\<close>

abbreviation dig :: "char \<Rightarrow> bool" where
  "dig c \<equiv> in_range 0x30 0x39 (Some c)"

abbreviation starts_with :: "(char \<Rightarrow> bool) \<Rightarrow> string \<Rightarrow> bool" where
  "starts_with P s \<equiv> s \<noteq> [] \<and> P (hd s)"

definition read_digits :: "string \<Rightarrow> (string \<times> string) option" where
  "read_digits s = (if starts_with dig s then Some (takeWhile dig s, dropWhile dig s) else None)"

definition read_exponent :: "string \<Rightarrow> (string \<times> string) option" where
  "read_exponent s = (if starts_with (\<lambda>c. c = CHR ''+'' \<or> c = CHR ''-'') s
     then map_option (\<lambda>(x, r). (hd s # x, r)) (read_digits (tl s)) else read_digits s)"

definition read_exp_opt :: "token_type \<Rightarrow> string \<Rightarrow> (token_type \<times> string \<times> string) option" where
  "read_exp_opt ty s = (if starts_with (\<lambda>c. c = CHR ''e'' \<or> c = CHR ''E'') s
     then map_option (\<lambda>(x, r). (ValueFloat, hd s # x, r)) (read_exponent (tl s)) else Some (ty, [], s))"

definition read_tail :: "token_type \<Rightarrow> string \<Rightarrow> (token_type \<times> string \<times> string) option" where
  "read_tail ty s = (if starts_with (\<lambda>c. c = CHR ''.'') s
     then (case read_digits (tl s) of None \<Rightarrow> None | Some (d, r) \<Rightarrow> map_option (\<lambda>(ty, x, r). (ty, CHR ''.'' # d @ x, r)) (read_exp_opt ValueFloat r))
     else read_exp_opt ty s)"

definition read_unsigned :: "token_type \<Rightarrow> string \<Rightarrow> (token_type \<times> string \<times> string) option" where
  "read_unsigned ty s = (if starts_with (\<lambda>c. c = CHR ''0'') s then map_option (\<lambda>(ty, x, r). (ty, CHR ''0'' # x, r)) (read_tail ty (tl s))
     else if starts_with dig s then map_option (\<lambda>(ty, x, r). (ty, takeWhile dig s @ x, r)) (read_tail ty (dropWhile dig s)) else None)"

definition read_number :: "string \<Rightarrow> (token_type \<times> string \<times> string) option" where
  "read_number s = (if starts_with (\<lambda>c. c = CHR ''-'') s
     then map_option (\<lambda>(ty, x, r). (ty, CHR ''-'' # x, r)) (read_unsigned ValueInteger (tl s)) else read_unsigned ValueUnsigned s)"

definition number_reads :: "lexer \<Rightarrow> (token_type \<times> string \<times> string) option \<Rightarrow> token_type \<times> lexer \<Rightarrow> bool" where
  "number_reads lx r out = (case r of
     None \<Rightarrow> (\<exists>lx'. out = (ParseErrorToken, lx'))
   | Some (ty, x, t) \<Rightarrow> (\<exists>lx'. out = number_value ty lx' \<and> pending lx' = t \<and> token_buffer lx' = token_buffer lx @ x \<and> lex_ok lx'
       \<and> total_read lx \<le> total_read lx'))"

lemma number_reads_done:
  "lex_ok lx \<Longrightarrow> number_reads lx (Some (ty, [], pending lx)) (scan_number_done ty (lex_get lx))"
  by (auto simp: number_reads_def scan_number_done_def lex_simps)

lemma number_reads_error [simp]: "number_reads lx None (lex_error m lx')"
  by (auto simp: number_reads_def lex_error_def)

text \<open>Reading one more character in front.\<close>

lemma number_reads_step:
  assumes "number_reads lx' r out" and "token_buffer lx' = token_buffer lx @ b" and "total_read lx \<le> total_read lx'"
  shows "number_reads lx (map_option (\<lambda>(ty, x, t). (ty, b @ x, t)) r) out"
  using assms by (auto simp: number_reads_def split: option.splits)

lemma number_reads_cons:
  assumes "lex_ok lx" and "pending lx = c # cs" and "number_reads (add_current (lex_get lx)) r out"
  shows "number_reads lx (map_option (\<lambda>(ty, x, t). (ty, c # x, t)) r) out"
  using number_reads_step [OF assms(3), of lx "[c]"] assms(1,2) by (simp add: lex_simps to_char_type_def)

lemma lex_get_head:
  assumes "lex_ok lx"
  shows "in_range lo hi (current (lex_get lx)) \<longleftrightarrow> starts_with (\<lambda>c. in_range lo hi (Some c)) (pending lx)"
    "current (lex_get lx) = Some c \<longleftrightarrow> starts_with (\<lambda>d. d = c) (pending lx)"
  using assms by (auto simp: lex_simps in_range_def split: list.splits)

lemma next_ok: "lex_ok lx \<Longrightarrow> lex_ok (add_current (lex_get lx)) \<and> pending (add_current (lex_get lx)) = tl (pending lx)"
  by (simp add: lex_simps)

lemma any2_reads:
  "lex_ok lx \<Longrightarrow> number_reads lx (Some (ty, takeWhile dig (pending lx), dropWhile dig (pending lx))) (scan_number_any2 ty lx)"
proof (induction ty lx rule: scan_number_any2.induct)
  case (1 ty lx)
  show ?case
  proof (cases "starts_with dig (pending lx)")
    case True
    then obtain c cs where c: "pending lx = c # cs" "dig c" by (cases "pending lx") auto
    have d: "is_digit (current (lex_get lx))" using lex_get_head [OF "1.prems"] True by blast
    have "number_reads (add_current (lex_get lx)) (Some (ty, takeWhile dig cs, dropWhile dig cs)) (scan_number_any2 ty (add_current (lex_get lx)))"
      using "1.IH" [OF refl d] next_ok [OF "1.prems"] c by simp
    from number_reads_cons [OF "1.prems" c(1) this] show ?thesis
      using c d by (simp add: scan_number_any2.simps [of ty lx] Let_def)
  next
    case False
    then have "\<not> is_digit (current (lex_get lx))" using lex_get_head [OF "1.prems"] by blast
    moreover have "takeWhile dig (pending lx) = []" "dropWhile dig (pending lx) = pending lx"
      using False by (cases "pending lx"; simp)+
    ultimately show ?thesis using number_reads_done [OF "1.prems", of ty] by (simp add: scan_number_any2.simps [of ty lx] Let_def)
  qed
qed

lemma digits_any2_reads:
  assumes "lex_ok lx" "starts_with dig (pending lx)"
  shows "number_reads lx (Some (ty, takeWhile dig (pending lx), dropWhile dig (pending lx))) (scan_number_any2 ty (add_current (lex_get lx)))"
proof -
  obtain c cs where c: "pending lx = c # cs" "dig c" using assms(2) by (cases "pending lx") auto
  show ?thesis using number_reads_cons [OF assms(1) c(1) any2_reads, of ty] next_ok [OF assms(1)] c by simp
qed

lemma sign_reads:
  assumes "lex_ok lx"
  shows "number_reads lx (map_option (\<lambda>(x, r). (ty, x, r)) (read_digits (pending lx))) (scan_number_sign ty lx)"
  using digits_any2_reads [OF assms] lex_get_head [OF assms] by (simp add: scan_number_sign_def Let_def read_digits_def)

lemma exponent_reads:
  assumes "lex_ok lx"
  shows "number_reads lx (map_option (\<lambda>(x, r). (ValueFloat, x, r)) (read_exponent (pending lx))) (scan_number_exponent lx)"
proof (cases "starts_with (\<lambda>c. c = CHR ''+'' \<or> c = CHR ''-'') (pending lx)")
  case True
  then obtain c cs where c: "pending lx = c # cs" by (cases "pending lx") auto
  have "number_reads (add_current (lex_get lx)) (map_option (\<lambda>(x, r). (ValueFloat, x, r)) (read_digits cs))
      (scan_number_sign ValueFloat (add_current (lex_get lx)))"
    using sign_reads next_ok [OF assms] c by fastforce
  from number_reads_cons [OF assms c this] show ?thesis using True c lex_get_head [OF assms]
    by (simp add: scan_number_exponent_def Let_def read_exponent_def option.map_comp comp_def split_def)
next
  case False
  then show ?thesis using digits_any2_reads [OF assms] lex_get_head [OF assms]
    by (auto simp add: scan_number_exponent_def Let_def read_exponent_def read_digits_def)
qed

lemma exp_opt_reads:
  assumes "lex_ok lx"
  shows "number_reads lx (read_exp_opt ty (pending lx))
    (if is_exp (current (lex_get lx)) then scan_number_exponent (add_current (lex_get lx)) else scan_number_done ty (lex_get lx))"
proof (cases "starts_with (\<lambda>c. c = CHR ''e'' \<or> c = CHR ''E'') (pending lx)")
  case True
  then obtain c cs where c: "pending lx = c # cs" by (cases "pending lx") auto
  have "number_reads (add_current (lex_get lx)) (map_option (\<lambda>(x, r). (ValueFloat, x, r)) (read_exponent cs))
      (scan_number_exponent (add_current (lex_get lx)))"
    using exponent_reads next_ok [OF assms] c by fastforce
  from number_reads_cons [OF assms c this] show ?thesis using True c lex_get_head [OF assms]
    by (auto simp add: read_exp_opt_def option.map_comp comp_def split_def)
next
  case False
  then show ?thesis using number_reads_done [OF assms] lex_get_head [OF assms] by (auto simp add: read_exp_opt_def)
qed

lemma decimal2_reads:
  "lex_ok lx \<Longrightarrow> number_reads lx (map_option (\<lambda>(ty, x, r). (ty, takeWhile dig (pending lx) @ x, r)) (read_exp_opt ty (dropWhile dig (pending lx))))
     (scan_number_decimal2 ty lx)"
proof (induction ty lx rule: scan_number_decimal2.induct)
  case (1 ty lx)
  show ?case
  proof (cases "starts_with dig (pending lx)")
    case True
    then obtain c cs where c: "pending lx = c # cs" "dig c" by (cases "pending lx") auto
    have d: "is_digit (current (lex_get lx))" using lex_get_head [OF "1.prems"] True by blast
    have "number_reads (add_current (lex_get lx)) (map_option (\<lambda>(ty, x, r). (ty, takeWhile dig cs @ x, r)) (read_exp_opt ty (dropWhile dig cs)))
       (scan_number_decimal2 ty (add_current (lex_get lx)))"
      using "1.IH" [OF refl d] next_ok [OF "1.prems"] c by simp
    from number_reads_cons [OF "1.prems" c(1) this] show ?thesis
      using c d by (simp add: scan_number_decimal2.simps [of ty lx] Let_def option.map_comp comp_def split_def)
  next
    case False
    then have "\<not> is_digit (current (lex_get lx))" using lex_get_head [OF "1.prems"] by blast
    moreover have "takeWhile dig (pending lx) = []" "dropWhile dig (pending lx) = pending lx"
      using False by (cases "pending lx"; simp)+
    ultimately show ?thesis using exp_opt_reads [OF "1.prems", of ty]
      by (simp add: scan_number_decimal2.simps [of ty lx] Let_def option.map_ident)
  qed
qed

lemma tail_reads:
  assumes "lex_ok lx"
  shows "number_reads lx (read_tail ty (pending lx))
    (if current (lex_get lx) = Some (CHR ''.'') then scan_number_decimal1 (lex_add (decimal_point_char (lex_get lx)) (lex_get lx))
     else if is_exp (current (lex_get lx)) then scan_number_exponent (add_current (lex_get lx)) else scan_number_done ty (lex_get lx))"
proof (cases "starts_with (\<lambda>c. c = CHR ''.'') (pending lx)")
  case True
  then obtain cs where c: "pending lx = CHR ''.'' # cs" by (cases "pending lx") auto
  define l1 where "l1 = lex_add (decimal_point_char (lex_get lx)) (lex_get lx)"
  have l1: "lex_ok l1" "pending l1 = cs" "token_buffer l1 = token_buffer lx @ ''.''" "total_read lx \<le> total_read l1"
    using assms c lex_ok_decimal_point [OF assms] by (simp_all add: l1_def lex_simps)
  have cur: "current (lex_get lx) = Some (CHR ''.'')" using c assms by (simp add: lex_simps)
  have "number_reads l1 (case read_digits cs of None \<Rightarrow> None | Some (d, r) \<Rightarrow> map_option (\<lambda>(ty, x, r). (ty, d @ x, r)) (read_exp_opt ValueFloat r))
      (scan_number_decimal1 l1)"
  proof (cases "starts_with dig cs")
    case True
    then obtain d ds where d: "cs = d # ds" "dig d" by (cases cs) auto
    have "is_digit (current (lex_get l1))" using lex_get_head [OF l1(1)] True l1(2) by blast
    moreover have "number_reads (add_current (lex_get l1)) (map_option (\<lambda>(ty, x, r). (ty, takeWhile dig ds @ x, r)) (read_exp_opt ValueFloat (dropWhile dig ds)))
       (scan_number_decimal2 ValueFloat (add_current (lex_get l1)))"
      using decimal2_reads [of "add_current (lex_get l1)" ValueFloat] next_ok [OF l1(1)] l1(2) d by simp
    from number_reads_cons [OF l1(1) _ this] have "number_reads l1 (map_option (\<lambda>(ty, x, r). (ty, takeWhile dig cs @ x, r)) (read_exp_opt ValueFloat (dropWhile dig cs)))
       (scan_number_decimal2 ValueFloat (add_current (lex_get l1)))"
      using l1(2) d by (simp add: option.map_comp comp_def split_def)
    ultimately show ?thesis using True by (simp add: scan_number_decimal1_def Let_def read_digits_def)
  next
    case False
    then have "\<not> is_digit (current (lex_get l1))" using lex_get_head [OF l1(1)] l1(2) by blast
    then show ?thesis using False by (auto simp add: scan_number_decimal1_def Let_def read_digits_def)
  qed
  from number_reads_step [OF this l1(3,4)] show ?thesis
    unfolding l1_def [symmetric] using cur c
    by (cases "read_digits cs") (auto simp: read_tail_def option.map_comp comp_def split_def)
next
  case False
  then show ?thesis using exp_opt_reads [OF assms(1), of ty] lex_get_head [OF assms(1)] by (auto simp add: read_tail_def)
qed

lemma zero_reads:
  "lex_ok lx \<Longrightarrow> number_reads lx (read_tail ty (pending lx)) (scan_number_zero ty lx)"
  using tail_reads [of lx ty] by (simp add: scan_number_zero_def Let_def)

lemma any1_reads:
  "lex_ok lx \<Longrightarrow>
   number_reads lx (map_option (\<lambda>(ty, x, r). (ty, takeWhile dig (pending lx) @ x, r)) (read_tail ty (dropWhile dig (pending lx))))
     (scan_number_any1 ty lx)"
proof (induction ty lx rule: scan_number_any1.induct)
  case (1 ty lx)
  show ?case
  proof (cases "starts_with dig (pending lx)")
    case True
    then obtain c cs where c: "pending lx = c # cs" "dig c" by (cases "pending lx") auto
    have d: "is_digit (current (lex_get lx))" using lex_get_head [OF "1.prems"] True by blast
    have "number_reads (add_current (lex_get lx)) (map_option (\<lambda>(ty, x, r). (ty, takeWhile dig cs @ x, r)) (read_tail ty (dropWhile dig cs)))
       (scan_number_any1 ty (add_current (lex_get lx)))"
      using "1.IH" [OF refl d] next_ok [OF "1.prems"] c by simp
    from number_reads_cons [OF "1.prems" c(1) this] show ?thesis
      using c d by (simp add: scan_number_any1.simps [of ty lx] Let_def option.map_comp comp_def split_def)
  next
    case False
    then have "\<not> is_digit (current (lex_get lx))" using lex_get_head [OF "1.prems"] by blast
    moreover have "takeWhile dig (pending lx) = []" "dropWhile dig (pending lx) = pending lx"
      using False by (cases "pending lx"; simp)+
    ultimately show ?thesis using tail_reads [OF "1.prems", of ty]
      by (simp add: scan_number_any1.simps [of ty lx] Let_def option.map_ident)
  qed
qed

lemma dig_cases: "dig c \<longleftrightarrow> c = CHR ''0'' \<or> in_range 0x31 0x39 (Some c)"
proof -
  have "code c = 0x30 \<longleftrightarrow> c = CHR ''0''" using of_char_eq_iff [of c "CHR ''0''", where 'a = nat] by simp
  then show ?thesis by (auto simp: in_range_def)
qed

lemma unsigned_reads:
  assumes "lex_ok lx" and "starts_with dig (pending lx)"
  shows "number_reads lx (read_unsigned ty (pending lx))
    (if current (lex_get lx) = Some (CHR ''0'') then scan_number_zero ty (add_current (lex_get lx))
     else scan_number_any1 ty (add_current (lex_get lx)))"
proof -
  obtain c cs where c: "pending lx = c # cs" "dig c" using assms(2) by (cases "pending lx") auto
  have l1: "lex_ok (add_current (lex_get lx))" "pending (add_current (lex_get lx)) = cs"
    using next_ok [OF assms(1)] assms c by (simp_all add: lex_simps)
  have cur: "current (lex_get lx) = Some c" using assms(1) c by (simp add: lex_simps)
  show ?thesis
  proof (cases "c = CHR ''0''")
    case True
    then show ?thesis using number_reads_cons [OF assms(1) c(1) zero_reads [OF l1(1)], of ty] l1(2) cur c
      by (simp add: read_unsigned_def)
  next
    case False
    then show ?thesis using number_reads_cons [OF assms(1) c(1) any1_reads [OF l1(1)], of ty] l1(2) cur c
      by (simp add: read_unsigned_def option.map_comp comp_def split_def)
  qed
qed

text \<open>The state machine of \<^verbatim>\<open>scan_number\<close> reads exactly the grammar.\<close>

lemma scan_number_reads:
  assumes "lex_ok lx" and c: "current lx = Some c" "c = CHR ''-'' \<or> dig c"
  shows "number_reads (lex_reset lx) (read_number (c # pending lx)) (scan_number lx)"
proof (cases "c = CHR ''-''")
  case True
  define l1 where "l1 = add_current (lex_reset lx)"
  have l1: "lex_ok l1" "pending l1 = pending lx" "token_buffer l1 = token_buffer (lex_reset lx) @ ''-''"
    "total_read (lex_reset lx) \<le> total_read l1"
    using assms True by (simp_all add: l1_def lex_simps to_char_type_def)
  have sn: "scan_number lx = scan_number_minus l1" using c True by (simp add: scan_number_def Let_def lex_simps l1_def)
  have "number_reads l1 (read_unsigned ValueInteger (pending l1)) (scan_number_minus l1)"
  proof (cases "starts_with dig (pending l1)")
    case d: True
    then have "current (lex_get l1) = Some (CHR ''0'') \<or> is_digit19 (current (lex_get l1))"
      using dig_cases [of "hd (pending l1)"] lex_get_head [OF l1(1)] by blast
    then show ?thesis using unsigned_reads [OF l1(1) d, of ValueInteger] by (auto simp: scan_number_minus_def Let_def split: if_splits)
  next
    case False
    have "\<not> starts_with (\<lambda>c. c = CHR ''0'') (pending l1)" "\<not> starts_with (\<lambda>c. in_range 0x31 0x39 (Some c)) (pending l1)"
      using False dig_cases by blast+
    then have "current (lex_get l1) \<noteq> Some (CHR ''0'')" "\<not> is_digit19 (current (lex_get l1))"
      using lex_get_head [OF l1(1)] by blast+
    moreover have "read_unsigned ValueInteger (pending l1) = None"
      using False \<open>\<not> starts_with (\<lambda>c. c = CHR ''0'') (pending l1)\<close> by (auto simp: read_unsigned_def)
    ultimately show ?thesis by (simp add: scan_number_minus_def Let_def)
  qed
  from number_reads_step [OF this l1(3,4)] show ?thesis using True sn l1(2) by (simp add: read_number_def)
next
  case False
  then have d: "dig c" using c by blast
  define l1 where "l1 = add_current (lex_reset lx)"
  have l1: "lex_ok l1" "pending l1 = pending lx" "token_buffer l1 = token_buffer (lex_reset lx) @ [c]"
    "total_read (lex_reset lx) \<le> total_read l1"
    using assms by (simp_all add: l1_def lex_simps to_char_type_def)
  show ?thesis
  proof (cases "c = CHR ''0''")
    case True
    have "scan_number lx = scan_number_zero ValueUnsigned l1" using c True by (simp add: scan_number_def Let_def lex_simps l1_def)
    then show ?thesis using number_reads_step [OF zero_reads [OF l1(1)] l1(3,4), of ValueUnsigned] l1(2) True
      by (simp add: read_number_def read_unsigned_def)
  next
    case z: False
    have "in_range 0x31 0x39 (Some c)" using d z dig_cases by blast
    then have "scan_number lx = scan_number_any1 ValueUnsigned l1" using c False z by (simp add: scan_number_def Let_def lex_simps l1_def)
    then show ?thesis using number_reads_step [OF any1_reads [OF l1(1)] l1(3,4), of ValueUnsigned] l1(2) z False d
      by (simp add: read_number_def read_unsigned_def option.map_comp comp_def split_def)
  qed
qed

end
