(* ===== verification/JsonTokens.thy ===== *)
theory JsonTokens
  imports JsonLexer
begin

text \<open>
  Tokens of a JSON text. \<open>read_token\<close> is a reference reading of one token, with its value, from the text alone;
  \<open>lex_scan_reads\<close> shows that \<^const>\<open>lex_scan\<close> of the lexer computes it, and that it leaves the rest of the text.
\<close>

datatype tok =
    Tok token_type | TokString string | TokUnsigned "64 word" | TokInteger "64 word" | TokFloat float64

definition tok_of :: "token_type \<times> lexer \<Rightarrow> tok" where
  "tok_of r = (case fst r of ValueString \<Rightarrow> TokString (token_buffer (snd r)) | ValueUnsigned \<Rightarrow> TokUnsigned (value_unsigned (snd r))
     | ValueInteger \<Rightarrow> TokInteger (value_integer (snd r)) | ValueFloat \<Rightarrow> TokFloat (value_float (snd r)) | t \<Rightarrow> Tok t)"

definition number_tok :: "token_type \<Rightarrow> string \<Rightarrow> tok" where
  "number_tok ty x = (
     if ty = ValueUnsigned \<and> base_value 10 x < 2 ^ 64 then TokUnsigned (of_nat (base_value 10 x))
     else if ty = ValueInteger \<and> snd (strtoll10 x) then TokInteger (fst (strtoll10 x))
     else TokFloat (strtod x))"

abbreviation tok_error :: "tok \<times> string" where
  "tok_error \<equiv> (Tok ParseErrorToken, [])"

definition read_literal :: "string \<Rightarrow> token_type \<Rightarrow> string \<Rightarrow> tok \<times> string" where
  "read_literal text ty s = (if take (length text) s = text then (Tok ty, drop (length text) s) else tok_error)"

abbreviation ws :: "char \<Rightarrow> bool" where
  "ws c \<equiv> is_ws (Some c)"

definition read_token_char :: "char \<Rightarrow> string \<Rightarrow> tok \<times> string" where
  "read_token_char c cs = (
     if c = CHR ''['' then (Tok BeginArray, cs)
     else if c = CHR '']'' then (Tok EndArray, cs)
     else if c = CHR ''{'' then (Tok BeginObject, cs)
     else if c = CHR ''}'' then (Tok EndObject, cs)
     else if c = CHR '':'' then (Tok NameSeparator, cs)
     else if c = CHR '','' then (Tok ValueSeparator, cs)
     else if c = CHR ''t'' then read_literal ''rue'' LiteralTrue cs
     else if c = CHR ''f'' then read_literal ''alse'' LiteralFalse cs
     else if c = CHR ''n'' then read_literal ''ull'' LiteralNull cs
     else if c = CHR 0x22 then (case read_string cs of None \<Rightarrow> tok_error | Some (b, t) \<Rightarrow> (TokString b, t))
     else if c = CHR ''-'' \<or> dig c then (case read_number (c # cs) of None \<Rightarrow> tok_error | Some (ty, x, t) \<Rightarrow> (number_tok ty x, t))
     else if c = CHR 0x00 then (Tok EndOfInput, cs) else tok_error)"

definition read_token :: "string \<Rightarrow> tok \<times> string" where
  "read_token s = (case dropWhile ws s of [] \<Rightarrow> (Tok EndOfInput, []) | c # cs \<Rightarrow> read_token_char c cs)"

text \<open>Between tokens: the text still to read is \<open>s\<close>, and the byte order mark has been dealt with.\<close>

definition lex_at :: "string \<Rightarrow> lexer \<Rightarrow> bool" where
  "lex_at s lx \<longleftrightarrow> pending lx = s \<and> lex_ok lx \<and> 0 < total_read lx"

text \<open>A scan computes a token; unless it is an error, the lexer stands after it.\<close>

definition scans :: "tok \<times> string \<Rightarrow> token_type \<times> lexer \<Rightarrow> bool" where
  "scans r out \<longleftrightarrow> tok_of out = fst r \<and> (fst r \<noteq> Tok ParseErrorToken \<longrightarrow> lex_at (snd r) (snd out))"

lemma scans_error [simp]: "scans tok_error (ParseErrorToken, lx)" "scans tok_error (lex_error m lx)"
  by (simp_all add: scans_def tok_of_def lex_error_def)

lemma number_value_scans:
  assumes "lex_at t lx" and "ty = ValueUnsigned \<or> ty = ValueInteger \<or> ty = ValueFloat"
  shows "scans (number_tok ty (token_buffer lx), t) (number_value ty lx)"
  using assms
  by (auto simp: scans_def number_value_def number_tok_def tok_of_def strtoull10_def Let_def lex_at_def lex_ok_def split: prod.splits)

lemma literal_loop_scans:
  assumes "lex_ok lx" and "0 < total_read lx" and "tok_of (ty, undefined) = Tok ty"
  shows "scans (read_literal w ty (pending lx)) (literal_loop w ty lx)"
  using assms
proof (induction w arbitrary: lx)
  case Nil
  have "tok_of (ty, lx) = Tok ty" using Nil.prems(3) by (auto simp: tok_of_def split: token_type.splits)
  then show ?case using Nil by (simp add: read_literal_def scans_def lex_at_def)
next
  case (Cons c cs)
  show ?case
  proof (cases "\<exists>t. pending lx = c # t")
    case True
    then obtain t where t: "pending lx = c # t" by blast
    have "scans (read_literal cs ty (pending (lex_get lx))) (literal_loop cs ty (lex_get lx))"
      using Cons.prems by (intro Cons.IH) (simp_all add: lex_simps)
    then show ?thesis using t Cons.prems(1) by (simp add: read_literal_def Let_def lex_simps split: if_splits)
  next
    case False
    then have "current (lex_get lx) \<noteq> Some c" using Cons.prems(1) by (auto simp: lex_simps split: list.splits)
    moreover have "take (Suc (length cs)) (pending lx) \<noteq> c # cs" using False by (cases "pending lx") auto
    ultimately show ?thesis by (simp add: read_literal_def Let_def)
  qed
qed

lemma read_exp_opt_type: "read_exp_opt ty s = Some (ty', x, t) \<Longrightarrow> ty' = ty \<or> ty' = ValueFloat"
  by (auto simp: read_exp_opt_def split: if_splits)

lemma read_tail_type: "read_tail ty s = Some (ty', x, t) \<Longrightarrow> ty' = ty \<or> ty' = ValueFloat"
  by (auto simp: read_tail_def split: if_splits option.splits dest: read_exp_opt_type)

lemma read_unsigned_type: "read_unsigned ty s = Some (ty', x, t) \<Longrightarrow> ty' = ty \<or> ty' = ValueFloat"
  by (auto simp: read_unsigned_def split: if_splits dest: read_tail_type)

lemma read_number_type: "read_number s = Some (ty, x, t) \<Longrightarrow> ty = ValueUnsigned \<or> ty = ValueInteger \<or> ty = ValueFloat"
  by (auto simp: read_number_def split: if_splits dest!: read_unsigned_type)

lemma scan_number_scans:
  assumes "lex_ok lx" and "0 < total_read lx" and "current lx = Some c" and "c = CHR ''-'' \<or> dig c"
  shows "scans (case read_number (c # pending lx) of None \<Rightarrow> tok_error | Some (ty, x, t) \<Rightarrow> (number_tok ty x, t)) (scan_number lx)"
proof (cases "read_number (c # pending lx)")
  case None
  then show ?thesis using scan_number_reads [OF assms(1,3,4)] by (auto simp: number_reads_def)
next
  case (Some r)
  obtain ty x t where r: "r = (ty, x, t)" by (cases r) auto
  obtain lx' where lx': "scan_number lx = number_value ty lx'" "pending lx' = t" "token_buffer lx' = x" "lex_ok lx'" "total_read lx \<le> total_read lx'"
    using scan_number_reads [OF assms(1,3,4)] Some r by (auto simp: number_reads_def lex_simps)
  have "lex_at t lx'" using lx' assms(2) by (simp add: lex_at_def)
  from number_value_scans [OF this read_number_type] show ?thesis using Some r lx' by simp
qed

lemma scan_token_scans:
  assumes "lex_ok lx" and "0 < total_read lx"
  shows "scans (case current lx of None \<Rightarrow> (Tok EndOfInput, pending lx) | Some c \<Rightarrow> read_token_char c (pending lx)) (scan_token lx)"
proof (cases "current lx")
  case None
  then show ?thesis using assms by (simp add: scan_token_def scans_def tok_of_def lex_at_def)
next
  case (Some c)
  have at: "lex_at (pending lx) lx" using assms by (simp add: lex_at_def)
  have lit: "scans (read_literal w ty (pending lx)) (literal_loop w ty lx)" if "ty \<in> {LiteralTrue, LiteralFalse, LiteralNull}" for w ty
    using that assms by (intro literal_loop_scans) (auto simp: tok_of_def)
  have str: "scans (case read_string (pending lx) of None \<Rightarrow> tok_error | Some (b, t) \<Rightarrow> (TokString b, t)) (scan_string lx)"
    using scan_string_reads [OF assms(1)] assms(2) by (auto simp: scans_def tok_of_def lex_at_def split: option.splits)
  have num: "scans (case read_number (c # pending lx) of None \<Rightarrow> tok_error | Some (ty, x, t) \<Rightarrow> (number_tok ty x, t)) (scan_number lx)"
    if "c = CHR ''-'' \<or> dig c" using scan_number_scans [OF assms Some that] .
  have plain: "scans (Tok ty, pending lx) (ty, lx)"
    if "ty \<in> {BeginArray, EndArray, BeginObject, EndObject, NameSeparator, ValueSeparator, EndOfInput}" for ty
    using that at by (auto simp: scans_def tok_of_def)
  show ?thesis using lit str num plain
    by (simp add: Some scan_token_def read_token_char_def scan_literal_def del: literal_loop.simps)
qed

lemma skip_whitespace_reads:
  assumes "lex_ok lx"
  shows "lex_ok (skip_whitespace lx) \<and> total_read lx < total_read (skip_whitespace lx)
    \<and> current (skip_whitespace lx) = (case dropWhile ws (pending lx) of [] \<Rightarrow> None | c # cs \<Rightarrow> Some c)
    \<and> pending (skip_whitespace lx) = tl (dropWhile ws (pending lx))"
  using assms
proof (induction lx rule: skip_whitespace.induct)
  case (1 lx)
  have ok: "lex_ok (lex_get lx)" using "1.prems" by (simp add: lex_simps)
  show ?case
  proof (cases "is_ws (current (lex_get lx))")
    case True
    then obtain c cs where c: "pending lx = c # cs" "ws c" using "1.prems" by (auto simp: lex_simps split: list.splits)
    then have "pending (lex_get lx) = cs" using "1.prems" by (simp add: lex_simps)
    moreover have "total_read (lex_get lx) = total_read lx + 1" by (simp add: lex_simps)
    ultimately show ?thesis using "1.IH" [OF refl True ok] True c by (simp add: skip_whitespace.simps [of lx] Let_def)
  next
    case False
    then have "dropWhile ws (pending lx) = pending lx" using "1.prems" by (cases "pending lx") (auto simp: lex_simps)
    then show ?thesis using False ok "1.prems" by (simp add: skip_whitespace.simps [of lx] Let_def lex_simps)
  qed
qed

lemma scan_after_whitespace:
  assumes "lex_ok lx"
  shows "scans (read_token (pending lx)) (scan_token (skip_whitespace lx))"
proof -
  note w = skip_whitespace_reads [OF assms]
  have "scans (case current (skip_whitespace lx) of None \<Rightarrow> (Tok EndOfInput, pending (skip_whitespace lx))
      | Some c \<Rightarrow> read_token_char c (pending (skip_whitespace lx))) (scan_token (skip_whitespace lx))"
    using w by (intro scan_token_scans) linarith+
  moreover have "read_token (pending lx) = (case current (skip_whitespace lx) of None \<Rightarrow> (Tok EndOfInput, pending (skip_whitespace lx))
      | Some c \<Rightarrow> read_token_char c (pending (skip_whitespace lx)))"
  proof -
    define D where "D = dropWhile ws (pending lx)"
    from w show ?thesis unfolding read_token_def D_def [symmetric] by (cases D) simp_all
  qed
  ultimately show ?thesis by simp
qed

text \<open>Every call of \<^const>\<open>lex_scan\<close> but the first.\<close>

lemma lex_scan_reads:
  assumes "lex_at s lx"
  shows "scans (read_token s) (lex_scan lx)"
  using assms scan_after_whitespace [of lx] by (simp add: lex_scan_def lex_at_def)

text \<open>The first call skips a byte order mark.\<close>

definition read_first :: "string \<Rightarrow> tok \<times> string" where
  "read_first s = (if s \<noteq> [] \<and> hd s = CHR 0xEF then (if take 3 s = [CHR 0xEF, CHR 0xBB, CHR 0xBF] then read_token (drop 3 s) else tok_error)
     else read_token s)"

lemma lex_scan_first: "scans (read_first s) (lex_scan (mk_lexer s))"
proof -
  define l0 where "l0 = mk_lexer s"
  have l0: "lex_ok l0" "pending l0 = s" "total_read l0 = 0"
    by (simp_all add: l0_def mk_lexer_def lex_ok_def pending_def get_decimal_point_def)
  have "scans (read_first s) (lex_scan l0)"
  proof (cases "s \<noteq> [] \<and> hd s = CHR 0xEF")
    case False
    then have "current (lex_get l0) \<noteq> Some (CHR 0xEF)" using l0 by (auto simp: lex_simps split: list.splits)
    moreover have "lex_ok (lex_unget (lex_get l0))" "pending (lex_unget (lex_get l0)) = s" using l0 by (simp_all add: lex_simps)
    ultimately show ?thesis using False scan_after_whitespace [of "lex_unget (lex_get l0)"] l0
      by (auto simp: read_first_def Let_def lex_scan_def skip_bom_def)
  next
    case True
    then obtain s1 where s1: "s = CHR 0xEF # s1" by (cases s) auto
    define l1 where "l1 = lex_get l0"
    have l1: "current l1 = Some (CHR 0xEF)" "lex_ok l1" "pending l1 = s1" using l0 s1 by (simp_all add: l1_def lex_simps)
    define l2 where "l2 = lex_get l1"
    have l2: "current l2 = (case s1 of [] \<Rightarrow> None | c # cs \<Rightarrow> Some c)" "lex_ok l2" "pending l2 = tl s1" using l1 by (simp_all add: l2_def lex_simps)
    define l3 where "l3 = lex_get l2"
    have l3: "current l3 = (case tl s1 of [] \<Rightarrow> None | c # cs \<Rightarrow> Some c)" "lex_ok l3" "pending l3 = tl (tl s1)" using l2 by (simp_all add: l3_def lex_simps)
    have sb: "skip_bom l0 = (if current l2 \<noteq> Some (CHR 0xBB) then (False, l2) else (current l3 = Some (CHR 0xBF), l3))"
      using l1 by (simp add: skip_bom_def Let_def l1_def [symmetric] l2_def [symmetric] l3_def [symmetric])
    show ?thesis
    proof (cases "\<exists>s3. s1 = CHR 0xBB # CHR 0xBF # s3")
      case True
      then obtain s3 where "s1 = CHR 0xBB # CHR 0xBF # s3" by blast
      then show ?thesis using sb l0 l2 l3 s1 scan_after_whitespace [OF l3(2)]
        by (simp add: lex_scan_def read_first_def)
    next
      case False
      then have "fst (skip_bom l0) = False" using sb l2 l3 by (auto split: list.splits)
      moreover have "read_first s = tok_error" using False s1 by (cases s1; cases "tl s1") (auto simp: read_first_def)
      ultimately show ?thesis using l0 by (auto simp: lex_scan_def split: prod.splits)
    qed
  qed
  then show ?thesis by (simp add: l0_def)
qed

subsection \<open>A scan never gives input back\<close>

lemma pending_unget_get: "length (pending (lex_unget (lex_get lx))) \<le> length (pending lx)"
  by (auto simp: lex_unget_def lex_get_def pending_def Let_def get_character_def split: option.splits list.splits)

lemma pending_lex_error [simp]: "lex_error m lx = (t, lx') \<Longrightarrow> pending lx' = pending lx"
  by (auto simp: lex_error_def)

lemma pending_number_value [simp]: "pending (snd (number_value ty lx)) = pending lx"
  by (simp add: number_value_def Let_def split_def)

lemma pending_any2: "length (pending (snd (scan_number_any2 ty lx))) \<le> length (pending lx)"
proof (induction ty lx rule: scan_number_any2.induct)
  case (1 ty lx)
  then show ?case using pending_get_le [of lx] pending_unget_get [of lx]
    by (fastforce simp: scan_number_any2.simps [of ty lx] Let_def scan_number_done_def)
qed

lemma pending_sign: "length (pending (snd (scan_number_sign ty lx))) \<le> length (pending lx)"
  using pending_any2 [of ty "add_current (lex_get lx)"] pending_get_le [of lx] by (simp add: scan_number_sign_def Let_def)

lemma pending_exponent: "length (pending (snd (scan_number_exponent lx))) \<le> length (pending lx)"
  using pending_any2 [of ValueFloat "add_current (lex_get lx)"] pending_sign [of ValueFloat "add_current (lex_get lx)"] pending_get_le [of lx]
  by (simp add: scan_number_exponent_def Let_def)

lemma pending_decimal2: "length (pending (snd (scan_number_decimal2 ty lx))) \<le> length (pending lx)"
proof (induction ty lx rule: scan_number_decimal2.induct)
  case (1 ty lx)
  then show ?case using pending_get_le [of lx] pending_unget_get [of lx] pending_exponent [of "add_current (lex_get lx)"]
    by (fastforce simp: scan_number_decimal2.simps [of ty lx] Let_def scan_number_done_def)
qed

lemma pending_decimal1: "length (pending (snd (scan_number_decimal1 lx))) \<le> length (pending lx)"
  using pending_decimal2 [of ValueFloat "add_current (lex_get lx)"] pending_get_le [of lx] by (simp add: scan_number_decimal1_def Let_def)

lemma pending_any1: "length (pending (snd (scan_number_any1 ty lx))) \<le> length (pending lx)"
proof (induction ty lx rule: scan_number_any1.induct)
  case (1 ty lx)
  then show ?case using pending_get_le [of lx] pending_unget_get [of lx] pending_exponent [of "add_current (lex_get lx)"]
      pending_decimal1 [of "lex_add (decimal_point_char (lex_get lx)) (lex_get lx)"]
    by (fastforce simp: scan_number_any1.simps [of ty lx] Let_def scan_number_done_def)
qed

lemma pending_zero: "length (pending (snd (scan_number_zero ty lx))) \<le> length (pending lx)"
  using pending_get_le [of lx] pending_unget_get [of lx] pending_exponent [of "add_current (lex_get lx)"]
    pending_decimal1 [of "lex_add (decimal_point_char (lex_get lx)) (lex_get lx)"]
  by (auto simp: scan_number_zero_def Let_def scan_number_done_def)

lemma pending_minus: "length (pending (snd (scan_number_minus lx))) \<le> length (pending lx)"
  using pending_get_le [of lx] pending_zero [of ValueInteger "add_current (lex_get lx)"] pending_any1 [of ValueInteger "add_current (lex_get lx)"]
  by (auto simp: scan_number_minus_def Let_def)

lemma pending_number: "length (pending (snd (scan_number lx))) \<le> length (pending lx)"
  using pending_minus [of "add_current (lex_reset lx)"] pending_minus [of "lex_reset lx"]
    pending_zero [of ValueUnsigned "add_current (lex_reset lx)"] pending_any1 [of ValueUnsigned "add_current (lex_reset lx)"]
  by (simp add: scan_number_def Let_def)

lemma pending_literal: "length (pending (snd (literal_loop w ty lx))) \<le> length (pending lx)"
proof (induction w arbitrary: lx)
  case (Cons c cs)
  then show ?case using pending_get_le [of lx] order_trans by (fastforce simp: Let_def)
qed simp

lemma pending_string_stop:
  assumes "scan_string_char lx = Inl (t, lx')"
  shows "length (pending lx') \<le> length (pending lx)"
proof -
  obtain c1 l1 where g1: "get_codepoint (lex_get lx) = (c1, l1)" by fastforce
  obtain c2 l2 where g2: "get_codepoint (lex_get (lex_get l1)) = (c2, l2)" by fastforce
  have a: "length (pending l1) \<le> length (pending lx)" using pending_get_codepoint_le [OF g1] pending_get_le [of lx] by linarith
  have b: "length (pending l2) \<le> length (pending l1)" "length (pending (lex_get l1)) \<le> length (pending l1)"
      "length (pending (lex_get (lex_get l1))) \<le> length (pending l1)"
    using pending_get_codepoint_le [OF g2] pending_get_le [of "lex_get l1"] pending_get_le [of l1] by linarith+
  have "scan_escape lx = Inl (t, lx') \<Longrightarrow> length (pending lx') \<le> length (pending lx)"
    using a b pending_get_le [of lx]
    by (auto simp: scan_escape_def scan_unicode_escape_def lex_error_def Let_def g1 g2 split: option.splits if_splits)
  then show ?thesis using assms pending_next_byte_le [of _ lx _ lx']
    by (auto simp: scan_string_char_def lex_error_def split: option.splits if_splits prod.splits)
qed

lemma pending_string: "length (pending (snd (scan_string_loop lx))) \<le> length (pending lx)"
proof (induction lx rule: scan_string_loop.induct)
  case (1 lx)
  show ?case
  proof (cases "scan_string_char (lex_get lx)")
    case (Inl r)
    then show ?thesis using pending_string_stop [of "lex_get lx" "fst r" "snd r"] pending_get_le [of lx]
      by (simp add: scan_string_loop.simps [of lx])
  next
    case (Inr l1)
    then show ?thesis using "1.IH" [OF Inr] pending_string_char(2) [OF Inr] pending_get_le [of lx]
      by (simp add: scan_string_loop.simps [of lx])
  qed
qed

lemma pending_scan_token: "length (pending (snd (scan_token lx))) \<le> length (pending lx)"
  using pending_number [of lx] pending_string [of "lex_reset lx"] pending_literal [of _ _ lx]
  by (auto simp: scan_token_def scan_literal_def scan_string_def split: option.splits simp del: literal_loop.simps)

lemma pending_skip_whitespace:
  "length (pending (skip_whitespace lx)) \<le> length (pending lx) \<and>
   (current (skip_whitespace lx) \<noteq> None \<longrightarrow> length (pending (skip_whitespace lx)) < length (pending lx))"
proof (induction lx rule: skip_whitespace.induct)
  case (1 lx)
  show ?case
  proof (cases "is_ws (current (lex_get lx))")
    case True
    then have "length (pending (lex_get lx)) < length (pending lx)" by (intro pending_get_less) auto
    then show ?thesis using "1.IH" [OF refl True] True by (auto simp: skip_whitespace.simps [of lx] Let_def)
  next
    case False
    then show ?thesis using pending_get_le [of lx] pending_get_less [of lx] by (simp add: skip_whitespace.simps [of lx] Let_def)
  qed
qed

lemma scan_token_at_end: "current lx = None \<Longrightarrow> fst (scan_token lx) = EndOfInput"
  by (simp add: scan_token_def)

lemma pending_scan:
  "length (pending (snd (lex_scan lx))) \<le> length (pending lx)"
  "fst (lex_scan lx) \<noteq> EndOfInput \<Longrightarrow> length (pending (snd (lex_scan lx))) < length (pending lx)"
proof -
  define r where "r = (if total_read lx = 0 then skip_bom lx else (True, lx))"
  have le: "length (pending (snd r)) \<le> length (pending lx)"
    using pending_get_le [of lx] pending_get_le [of "lex_get lx"] pending_get_le [of "lex_get (lex_get lx)"] pending_unget_get [of lx]
    by (auto simp: r_def skip_bom_def Let_def)
  have less: "\<not> fst r \<Longrightarrow> length (pending (snd r)) < length (pending lx)"
    using pending_get_less [of lx] pending_get_le [of "lex_get lx"] pending_get_le [of "lex_get (lex_get lx)"]
    by (auto simp: r_def skip_bom_def Let_def split: if_splits)
  have s: "lex_scan lx = (if \<not> fst r then lex_error ''invalid BOM; must be 0xEF 0xBB 0xBF if given'' (snd r)
      else scan_token (skip_whitespace (snd r)))"
    by (simp add: lex_scan_def r_def split: prod.splits)
  show "length (pending (snd (lex_scan lx))) \<le> length (pending lx)"
    using s le pending_scan_token [of "skip_whitespace (snd r)"] pending_skip_whitespace [of "snd r"] by (auto split: if_splits)
  assume "fst (lex_scan lx) \<noteq> EndOfInput"
  then have "\<not> fst r \<or> current (skip_whitespace (snd r)) \<noteq> None" using s scan_token_at_end [of "skip_whitespace (snd r)"] by (cases "fst r") auto
  then show "length (pending (snd (lex_scan lx))) < length (pending lx)"
    using s le less pending_scan_token [of "skip_whitespace (snd r)"] pending_skip_whitespace [of "snd r"] by (auto split: if_splits)
qed

end
