(* ===== verification/StdMap.thy ===== *)
theory StdMap
  imports Prelude "HOL-Library.Char_ord" "HOL-Library.List_Lexorder"
begin

text \<open>
  \<^verbatim>\<open>std::map\<close> with its iteration order: an association list sorted by key. Strings are compared
  lexicographically by byte, as \<^verbatim>\<open>std::string::operator<\<close> does. \<open>map_set\<close> is \<^verbatim>\<open>m[k] = v\<close>, \<open>map_insert\<close> is
  \<^verbatim>\<open>m.insert({k, v})\<close> (which keeps an existing entry) and \<^verbatim>\<open>m.find(k)\<close> is \<open>map_of m k\<close>.
\<close>

named_theorems std_map_simps \<open>lookup after update of a sorted map\<close>

fun map_set :: "'k::linorder \<Rightarrow> 'v \<Rightarrow> ('k \<times> 'v) list \<Rightarrow> ('k \<times> 'v) list" where
  "map_set k v [] = [(k, v)]"
| "map_set k v ((k', v') # m) =
     (if k < k' then (k, v) # (k', v') # m else if k = k' then (k, v) # m else (k', v') # map_set k v m)"

fun map_insert :: "'k::linorder \<Rightarrow> 'v \<Rightarrow> ('k \<times> 'v) list \<Rightarrow> ('k \<times> 'v) list" where
  "map_insert k v [] = [(k, v)]"
| "map_insert k v ((k', v') # m) =
     (if k < k' then (k, v) # (k', v') # m else if k = k' then (k', v') # m else (k', v') # map_insert k v m)"

definition map_ok :: "('k::linorder \<times> 'v) list \<Rightarrow> bool" where
  "map_ok m = sorted_wrt (<) (map fst m)"

lemma map_ok_simps [simp]: "map_ok []" "map_ok ((k, v) # m) \<longleftrightarrow> (\<forall>k' \<in> set (map fst m). k < k') \<and> map_ok m"
  by (simp_all add: map_ok_def)

lemma map_of_map_set [std_map_simps]: "map_of (map_set k v m) = (map_of m)(k \<mapsto> v)"
  by (induction k v m rule: map_set.induct) (auto simp: fun_eq_iff)

lemma keys_map_set: "set (map fst (map_set k v m)) = insert k (set (map fst m))"
  by (induction k v m rule: map_set.induct) auto

lemma map_ok_map_set: "map_ok m \<Longrightarrow> map_ok (map_set k v m)"
proof (induction k v m rule: map_set.induct)
  case (2 k v k' v' m)
  then show ?case using keys_map_set [of k v m] by fastforce
qed simp

lemma keys_map_insert: "set (map fst (map_insert k v m)) = insert k (set (map fst m))"
  by (induction k v m rule: map_insert.induct) auto

lemma map_ok_map_insert: "map_ok m \<Longrightarrow> map_ok (map_insert k v m)"
proof (induction k v m rule: map_insert.induct)
  case (2 k v k' v' m)
  then show ?case using keys_map_insert [of k v m] by fastforce
qed simp

lemma map_of_absent: "\<forall>k' \<in> set (map fst m). k < k' \<Longrightarrow> map_of m (k :: 'k::linorder) = None"
  by (induction m) auto

lemma map_of_map_insert [std_map_simps]:
  "map_ok m \<Longrightarrow> map_of (map_insert k v m) = (case map_of m k of None \<Rightarrow> (map_of m)(k \<mapsto> v) | Some w \<Rightarrow> map_of m)"
proof (induction k v m rule: map_insert.induct)
  case (2 k v k' v' m)
  consider "k < k'" | "k = k'" | "k' < k" by (meson linorder_cases)
  then show ?case
  proof cases
    case 1
    then have "\<forall>q \<in> set (map fst ((k', v') # m)). k < q" using 2(2) by fastforce
    from map_of_absent [OF this] show ?thesis using 1 by simp
  next
    case 2
    then show ?thesis by simp
  next
    case 3
    then show ?thesis using 2 by (auto simp: fun_eq_iff split: option.splits)
  qed
qed simp

lemma map_insert_present: "map_ok m \<Longrightarrow> map_of m k = Some w \<Longrightarrow> map_insert k v m = m"
proof (induction k v m rule: map_insert.induct)
  case (2 k v k' v' m)
  show ?case
  proof (cases "k < k'")
    case True
    then have "\<forall>q \<in> set (map fst ((k', v') # m)). k < q" using 2(2) by fastforce
    from map_of_absent [OF this] show ?thesis using 2(3) by simp
  next
    case False
    then show ?thesis using 2 by (auto split: if_splits)
  qed
qed simp

text \<open>Setting keys in increasing order is appending.\<close>

lemma map_set_last: "\<forall>k' \<in> set (map fst m). k' < k \<Longrightarrow> map_set k v m = m @ [(k, v)]"
  by (induction m) auto

end
