(* ===== verification/JsonParser.thy ===== *)
theory JsonParser
  imports JsonTokens StdMap
begin

text \<open>
  JSON values, and the parser that builds them (\<^verbatim>\<open>src/opt/nlohmann/json.hpp\<close>: classes \<^verbatim>\<open>parser\<close> and
  \<^verbatim>\<open>json_sax_dom_parser\<close>, the exceptions they throw, and \<^verbatim>\<open>basic_json::parse\<close>).

  A pointer of \<^verbatim>\<open>ref_stack\<close> is the path from the root to the value it points to. A failing assertion is an error value of
  its own. The loop of \<^verbatim>\<open>sax_parse_internal\<close> is \<open>sax_loop\<close>; one pass through it is the switch on the last token
  (\<open>value_switch\<close>) and the evaluation of the state (\<open>state_evaluation\<close>).
\<close>

subsection \<open>Values\<close>

datatype json =
    JNull | JObject "(string \<times> json) list" | JArray "json list" | JString string | JBoolean bool
  | JInteger "64 word" | JUnsigned "64 word" | JFloat float64 | JDiscarded

datatype step = Index nat | Key string

type_synonym path = "step list"

fun json_at :: "path \<Rightarrow> json \<Rightarrow> json" where
  "json_at [] j = j"
| "json_at (Index i # p) (JArray xs) = json_at p (xs ! i)"
| "json_at (Key k # p) (JObject m) = json_at p (the (map_of m k))"
| "json_at _ j = j"

fun json_put :: "path \<Rightarrow> json \<Rightarrow> json \<Rightarrow> json" where
  "json_put [] v j = v"
| "json_put (Index i # p) v (JArray xs) = JArray (xs[i := json_put p v (xs ! i)])"
| "json_put (Key k # p) v (JObject m) = JObject (map_set k (json_put p v (the (map_of m k))) m)"
| "json_put _ v j = j"

subsection \<open>Exceptions\<close>

datatype json_error =
    ParseException nat nat string      \<comment> \<open>\<^verbatim>\<open>parse_error\<close>: id, byte, \<^verbatim>\<open>what()\<close>\<close>
  | TypeException nat string           \<comment> \<open>\<^verbatim>\<open>type_error\<close>\<close>
  | RangeException nat string          \<comment> \<open>\<^verbatim>\<open>out_of_range\<close>\<close>
  | JsonAssertion                      \<comment> \<open>a failing \<^verbatim>\<open>assert\<close>\<close>
  | JsonOverflow                       \<comment> \<open>an array or a string accessed past its end, or a number converted out of range\<close>

definition exception_name :: "string \<Rightarrow> nat \<Rightarrow> string" where
  "exception_name ename i = ''[json.exception.'' @ ename @ ''.'' @ dec_of_nat i @ ''] ''"

definition position_string :: "position_t \<Rightarrow> string" where
  "position_string pos = '' at line '' @ dec_of_nat (lines_read pos + 1) @ '', column '' @ dec_of_nat (chars_read_current_line pos)"

definition parse_error_create :: "nat \<Rightarrow> position_t \<Rightarrow> string \<Rightarrow> json_error" where
  "parse_error_create i pos what_arg = ParseException i (chars_read_total pos)
     (exception_name ''parse_error'' i @ ''parse error'' @ position_string pos @ '': '' @ what_arg)"

definition type_error_create :: "nat \<Rightarrow> string \<Rightarrow> json_error" where
  "type_error_create i what_arg = TypeException i (exception_name ''type_error'' i @ what_arg)"

definition out_of_range_create :: "nat \<Rightarrow> string \<Rightarrow> json_error" where
  "out_of_range_create i what_arg = RangeException i (exception_name ''out_of_range'' i @ what_arg)"

subsection \<open>The document builder\<close>

record sax_dom =
  root :: json
  ref_stack :: "path list"
  object_element :: "path option"
  errored :: bool

definition handle_value :: "json \<Rightarrow> sax_dom \<Rightarrow> json_error + (path \<times> sax_dom)" where
  "handle_value v d = (
     if ref_stack d = [] then Inr ([], d\<lparr>root := v\<rparr>) else
     let back = last (ref_stack d) in
     case json_at back (root d) of
       JArray xs \<Rightarrow> Inr (back @ [Index (length xs)], d\<lparr>root := json_put back (JArray (xs @ [v])) (root d)\<rparr>)
     | JObject m \<Rightarrow> (case object_element d of
         None \<Rightarrow> Inl JsonAssertion
       | Some q \<Rightarrow> Inr (q, d\<lparr>root := json_put q v (root d)\<rparr>))
     | _ \<Rightarrow> Inl JsonAssertion)"

definition sax_value :: "json \<Rightarrow> sax_dom \<Rightarrow> json_error + sax_dom" where
  "sax_value v d = map_sum id snd (handle_value v d)"

definition start_object :: "sax_dom \<Rightarrow> json_error + sax_dom" where
  "start_object d = map_sum id (\<lambda>(p, d). d\<lparr>ref_stack := ref_stack d @ [p]\<rparr>) (handle_value (JObject []) d)"

definition start_array :: "sax_dom \<Rightarrow> json_error + sax_dom" where
  "start_array d = map_sum id (\<lambda>(p, d). d\<lparr>ref_stack := ref_stack d @ [p]\<rparr>) (handle_value (JArray []) d)"

text \<open>\<^verbatim>\<open>key\<close>: \<^verbatim>\<open>operator[]\<close> of the map adds a null when the key is new.\<close>

definition sax_key :: "string \<Rightarrow> sax_dom \<Rightarrow> json_error + sax_dom" where
  "sax_key k d = (let back = last (ref_stack d) in
     case json_at back (root d) of
       JObject m \<Rightarrow> Inr (d\<lparr>root := json_put back (JObject (map_insert k JNull m)) (root d), object_element := Some (back @ [Key k])\<rparr>)
     | _ \<Rightarrow> Inl JsonAssertion)"

definition sax_pop :: "sax_dom \<Rightarrow> sax_dom" where
  "sax_pop d = d\<lparr>ref_stack := butlast (ref_stack d)\<rparr>"

subsection \<open>The parser\<close>

record parser =
  last_token :: token_type
  m_lexer :: lexer
  allow_exceptions :: bool

definition get_token :: "parser \<Rightarrow> parser" where
  "get_token p = (let (t, lx) = lex_scan (m_lexer p) in p\<lparr>last_token := t, m_lexer := lx\<rparr>)"

definition mk_parser :: "string \<Rightarrow> bool \<Rightarrow> parser" where
  "mk_parser s allow = get_token \<lparr>last_token = Uninitialized, m_lexer = mk_lexer s, allow_exceptions = allow\<rparr>"

abbreviation quote :: string where
  "quote \<equiv> [CHR 0x27]"

definition exception_message :: "token_type \<Rightarrow> string \<Rightarrow> parser \<Rightarrow> string" where
  "exception_message expected ctx p = ''syntax error '' @ (if ctx \<noteq> [] then ''while parsing '' @ ctx @ '' '' else []) @ ''- '' @
     (if last_token p = ParseErrorToken then error_message (m_lexer p) @ ''; last read: '' @ quote @ get_token_string (m_lexer p) @ quote
      else ''unexpected '' @ token_type_name (last_token p)) @
     (if expected \<noteq> Uninitialized then ''; expected '' @ token_type_name expected else [])"

text \<open>One pass through the loop: it returns, goes to the state evaluation, or starts over (with the flag
  \<^verbatim>\<open>skip_to_state_evaluation\<close>).\<close>

datatype loop_step = Return bool parser sax_dom | Break parser sax_dom | Continue parser sax_dom "bool list" bool

definition sax_parse_error :: "json_error \<Rightarrow> parser \<Rightarrow> sax_dom \<Rightarrow> json_error + loop_step" where
  "sax_parse_error ex p d = (if allow_exceptions p then Inl ex else Inr (Return False p (d\<lparr>errored := True\<rparr>)))"

definition syntax_error :: "token_type \<Rightarrow> string \<Rightarrow> parser \<Rightarrow> sax_dom \<Rightarrow> json_error + loop_step" where
  "syntax_error expected ctx p d = sax_parse_error (parse_error_create 101 (position (m_lexer p)) (exception_message expected ctx p)) p d"

definition jbind :: "json_error + 'a \<Rightarrow> ('a \<Rightarrow> json_error + 'b) \<Rightarrow> json_error + 'b" where
  "jbind m f = (case m of Inl e \<Rightarrow> Inl e | Inr x \<Rightarrow> f x)"

text \<open>The key and the colon of a member, both after an opening brace and after a comma.\<close>

definition parse_key :: "parser \<Rightarrow> sax_dom \<Rightarrow> bool list \<Rightarrow> json_error + loop_step" where
  "parse_key p d states = (
     if last_token p \<noteq> ValueString then syntax_error ValueString ''object key'' p d else
     jbind (sax_key (token_buffer (m_lexer p)) d) (\<lambda>d.
     let p = get_token p in
     if last_token p \<noteq> NameSeparator then syntax_error NameSeparator ''object separator'' p d
     else Inr (Continue (get_token p) d states False)))"

definition value_switch :: "parser \<Rightarrow> sax_dom \<Rightarrow> bool list \<Rightarrow> json_error + loop_step" where
  "value_switch p d states = (case last_token p of
     BeginObject \<Rightarrow> jbind (start_object d) (\<lambda>d. let p = get_token p in
       if last_token p = EndObject then Inr (Break p (sax_pop d)) else parse_key p d (False # states))
   | BeginArray \<Rightarrow> jbind (start_array d) (\<lambda>d. let p = get_token p in
       if last_token p = EndArray then Inr (Break p (sax_pop d)) else Inr (Continue p d (True # states) False))
   | ValueFloat \<Rightarrow>
       if \<not> isfinite (value_float (m_lexer p))
       then sax_parse_error (out_of_range_create 406 (''number overflow parsing '' @ quote @ get_token_string (m_lexer p) @ quote)) p d
       else jbind (sax_value (JFloat (value_float (m_lexer p))) d) (\<lambda>d. Inr (Break p d))
   | LiteralFalse \<Rightarrow> jbind (sax_value (JBoolean False) d) (\<lambda>d. Inr (Break p d))
   | LiteralNull \<Rightarrow> jbind (sax_value JNull d) (\<lambda>d. Inr (Break p d))
   | LiteralTrue \<Rightarrow> jbind (sax_value (JBoolean True) d) (\<lambda>d. Inr (Break p d))
   | ValueInteger \<Rightarrow> jbind (sax_value (JInteger (value_integer (m_lexer p))) d) (\<lambda>d. Inr (Break p d))
   | ValueString \<Rightarrow> jbind (sax_value (JString (token_buffer (m_lexer p))) d) (\<lambda>d. Inr (Break p d))
   | ValueUnsigned \<Rightarrow> jbind (sax_value (JUnsigned (value_unsigned (m_lexer p))) d) (\<lambda>d. Inr (Break p d))
   | ParseErrorToken \<Rightarrow> syntax_error Uninitialized ''value'' p d
   | _ \<Rightarrow> syntax_error LiteralOrValue ''value'' p d)"

text \<open>\<open>states\<close> has the back of the vector in front; \<open>True\<close> is an array.\<close>

definition state_evaluation :: "parser \<Rightarrow> sax_dom \<Rightarrow> bool list \<Rightarrow> json_error + loop_step" where
  "state_evaluation p d states = (case states of
     [] \<Rightarrow> Inr (Return True p d)
   | True # rest \<Rightarrow>
       (let p = get_token p in
        if last_token p = ValueSeparator then Inr (Continue (get_token p) d states False)
        else if last_token p = EndArray then Inr (Continue p (sax_pop d) rest True)
        else syntax_error EndArray ''array'' p d)
   | False # rest \<Rightarrow>
       (let p = get_token p in
        if last_token p = ValueSeparator then parse_key (get_token p) d states
        else if last_token p = EndObject then Inr (Continue p (sax_pop d) rest True)
        else syntax_error EndObject ''object'' p d))"

definition loop_body :: "parser \<Rightarrow> sax_dom \<Rightarrow> bool list \<Rightarrow> bool \<Rightarrow> json_error + loop_step" where
  "loop_body p d states skip = jbind (if skip then Inr (Break p d) else value_switch p d states)
     (\<lambda>r. case r of Break p d \<Rightarrow> state_evaluation p d states | _ \<Rightarrow> Inr r)"

subsubsection \<open>Termination\<close>

definition parser_measure :: "parser \<Rightarrow> nat" where
  "parser_measure p = 2 * length (pending (m_lexer p)) + (if last_token p = EndOfInput then 0 else 1)"

lemma get_token_shrinks: "parser_measure (get_token p) \<le> parser_measure p"
  "last_token (get_token p) \<noteq> EndOfInput \<Longrightarrow> length (pending (m_lexer (get_token p))) < length (pending (m_lexer p))"
  "length (pending (m_lexer (get_token p))) \<le> length (pending (m_lexer p))"
  using pending_scan [of "m_lexer p"] by (auto simp: get_token_def parser_measure_def split_def Let_def)

lemma parse_key_shrinks:
  assumes "parse_key p d st = Inr (Continue p' d' st' skip)"
  shows "parser_measure p' < parser_measure p"
proof -
  have 1: "last_token p = ValueString" "last_token (get_token p) = NameSeparator" "p' = get_token (get_token p)"
    using assms by (auto simp: parse_key_def syntax_error_def sax_parse_error_def jbind_def Let_def split: if_splits sum.splits)
  then show ?thesis using get_token_shrinks [of p] get_token_shrinks(1) [of "get_token p"] by (auto simp: parser_measure_def)
qed

lemma parse_key_not_break: "parse_key p d st \<noteq> Inr (Break p' d')"
  by (auto simp: parse_key_def syntax_error_def sax_parse_error_def jbind_def Let_def split: if_splits sum.splits)

lemma value_switch_shrinks:
  "value_switch p d st = Inr (Continue p' d' st' skip) \<Longrightarrow> parser_measure p' < parser_measure p"
  "value_switch p d st = Inr (Break p' d') \<Longrightarrow> parser_measure p' \<le> parser_measure p"
proof -
  have lt: "parser_measure (get_token p) < parser_measure p" if "last_token p \<noteq> EndOfInput"
    using that get_token_shrinks(2,3) [of p] by (auto simp: parser_measure_def)
  show "value_switch p d st = Inr (Continue p' d' st' skip) \<Longrightarrow> parser_measure p' < parser_measure p"
    using lt get_token_shrinks(1) [of p]
    by (auto simp: value_switch_def syntax_error_def sax_parse_error_def jbind_def Let_def
        split: token_type.splits if_splits sum.splits dest!: parse_key_shrinks)
  show "value_switch p d st = Inr (Break p' d') \<Longrightarrow> parser_measure p' \<le> parser_measure p"
    using get_token_shrinks(1) [of p] parse_key_not_break
    by (auto simp: value_switch_def syntax_error_def sax_parse_error_def jbind_def Let_def
        split: token_type.splits if_splits sum.splits)
qed

lemma state_evaluation_shrinks:
  assumes "state_evaluation p d st = Inr (Continue p' d' st' skip)"
  shows "parser_measure p' < parser_measure p"
proof -
  have lt: "parser_measure (get_token p) < parser_measure p" if "last_token (get_token p) \<noteq> EndOfInput"
    using that get_token_shrinks(2) [of p] by (auto simp: parser_measure_def)
  show ?thesis
    using assms lt get_token_shrinks(1) [of "get_token p"] parse_key_shrinks [of "get_token (get_token p)" d st p' d' st' skip]
    by (auto simp: state_evaluation_def syntax_error_def sax_parse_error_def Let_def split: list.splits bool.splits if_splits)
qed

lemma loop_body_shrinks:
  assumes "loop_body p d st skip = Inr (Continue p' d' st' skip')"
  shows "parser_measure p' < parser_measure p"
proof (cases skip)
  case True
  then show ?thesis using assms state_evaluation_shrinks by (simp add: loop_body_def jbind_def)
next
  case False
  then show ?thesis using assms value_switch_shrinks [of p d st] state_evaluation_shrinks [of _ _ st p' d' st' skip']
    by (fastforce simp: loop_body_def jbind_def split: sum.splits loop_step.splits)
qed

function sax_loop :: "parser \<Rightarrow> sax_dom \<Rightarrow> bool list \<Rightarrow> bool \<Rightarrow> json_error + (bool \<times> parser \<times> sax_dom)" where
  "sax_loop p d states skip = (case loop_body p d states skip of
     Inl e \<Rightarrow> Inl e
   | Inr (Return b p d) \<Rightarrow> Inr (b, p, d)
   | Inr (Continue p d states skip) \<Rightarrow> sax_loop p d states skip
   | Inr (Break p d) \<Rightarrow> Inl JsonAssertion)"
  by pat_completeness auto

termination
  by (relation "measure (\<lambda>(p, _). parser_measure p)") (auto intro: loop_body_shrinks)

declare sax_loop.simps [simp del]

definition sax_parse_internal :: "parser \<Rightarrow> sax_dom \<Rightarrow> json_error + (bool \<times> parser \<times> sax_dom)" where
  "sax_parse_internal p d = sax_loop p d [] False"

text \<open>\<^verbatim>\<open>parser::parse\<close> without a callback.\<close>

definition parser_parse :: "bool \<Rightarrow> parser \<Rightarrow> json_error + json" where
  "parser_parse strict p = jbind (sax_parse_internal p \<lparr>root = JNull, ref_stack = [], object_element = None, errored = False\<rparr>) (\<lambda>(r, p, d).
     let p = (if strict then get_token p else p) in
     jbind (if strict \<and> last_token p \<noteq> EndOfInput then syntax_error EndOfInput ''value'' p d else Inr (Return r p d)) (\<lambda>s.
     case s of Return r p d \<Rightarrow> Inr (if errored d then JDiscarded else root d) | _ \<Rightarrow> Inl JsonAssertion))"

definition json_parse :: "string \<Rightarrow> bool \<Rightarrow> json_error + json" where
  "json_parse s allow = parser_parse True (mk_parser s allow)"

end
