(* ===== verification/JsonDump.thy ===== *)
theory JsonDump
  imports JsonParser
begin

text \<open>
  The serializer of the JSON library (\<^verbatim>\<open>src/opt/nlohmann/json.hpp\<close>, class \<^verbatim>\<open>serializer\<close>).

  The output adapter is the text written so far. \<^verbatim>\<open>string_buffer\<close> and \<^verbatim>\<open>number_buffer\<close> are arrays of 512 and 64 bytes: writing past
  their end, like reading past the end of the indentation string, is the error \<^const>\<open>JsonOverflow\<close>. The text of a floating point
  number (the Grisu2 algorithm of \<^verbatim>\<open>to_chars\<close>) is a parameter.
\<close>

subsection \<open>The UTF-8 decoder\<close>

definition utf8d_types :: "nat list" where
  "utf8d_types = replicate 128 0 @ replicate 16 1 @ replicate 16 9 @ replicate 32 7 @ replicate 2 8 @ replicate 30 2 @
     [0xA] @ replicate 12 3 @ [4] @ replicate 2 3 @ [0xB] @ replicate 3 6 @ [5] @ replicate 11 8"

definition utf8d_states :: "nat list" where
  "utf8d_states =
     [0, 1, 2, 3, 5, 8, 7, 1, 1, 1, 4, 6, 1, 1, 1, 1] @
     [1, 1, 1, 1, 1, 1, 1, 1, 1, 1, 1, 1, 1, 1, 1, 1, 1, 0, 1, 1, 1, 1, 1, 0, 1, 0, 1, 1, 1, 1, 1, 1] @
     [1, 2, 1, 1, 1, 1, 1, 2, 1, 2, 1, 1, 1, 1, 1, 1, 1, 1, 1, 1, 1, 1, 1, 2, 1, 1, 1, 1, 1, 1, 1, 1] @
     [1, 2, 1, 1, 1, 1, 1, 1, 1, 2, 1, 1, 1, 1, 1, 1, 1, 1, 1, 1, 1, 1, 1, 3, 1, 3, 1, 1, 1, 1, 1, 1] @
     [1, 3, 1, 1, 1, 1, 1, 3, 1, 3, 1, 1, 1, 1, 1, 1, 1, 3, 1, 1, 1, 1, 1, 1, 1, 1, 1, 1, 1, 1, 1, 1]"

definition utf8d :: "nat list" where
  "utf8d = utf8d_types @ utf8d_states"

abbreviation UTF8_ACCEPT :: nat where "UTF8_ACCEPT \<equiv> 0"
abbreviation UTF8_REJECT :: nat where "UTF8_REJECT \<equiv> 1"

text \<open>State and code point after a byte. The code point is shifted at most three times between two accepting states, so it stays
  far below 32 bits.\<close>

definition decode :: "nat \<Rightarrow> nat \<Rightarrow> nat \<Rightarrow> nat \<times> nat" where
  "decode state codep byte = (
     let type = utf8d ! byte;
         codep = (if state \<noteq> UTF8_ACCEPT then (byte AND 0x3F) OR push_bit 6 codep else drop_bit type 0xFF AND byte)
     in (utf8d ! (256 + state * 16 + type), codep))"

subsection \<open>Strings\<close>

datatype error_handler_t = Strict | Replace | Ignore

record escaper =
  written :: string                \<comment> \<open>what the output has got\<close>
  string_buffer :: string          \<comment> \<open>its first \<^verbatim>\<open>bytes\<close> bytes\<close>
  bytes_after_last_accept :: nat
  undumped_chars :: nat
  utf8_state :: nat
  codepoint :: nat

definition hex_lower :: "nat \<Rightarrow> char" where
  "hex_lower d = char_of (if d < 10 then 0x30 + d else 0x57 + d)"

text \<open>\<^verbatim>\<open>%04x\<close> of a 16-bit number.\<close>

definition hex4_lower :: "nat \<Rightarrow> string" where
  "hex4_lower n = [hex_lower (n div 4096 mod 16), hex_lower (n div 256 mod 16), hex_lower (n div 16 mod 16), hex_lower (n mod 16)]"

definition hex2_upper :: "nat \<Rightarrow> string" where
  "hex2_upper n = [hex_upper (n div 16 mod 16), hex_upper (n mod 16)]"

text \<open>Writing \<open>s\<close> at the end of the buffer; \<open>extra\<close> is the null byte \<^verbatim>\<open>snprintf\<close> writes after it.\<close>

definition put_buffer :: "string \<Rightarrow> nat \<Rightarrow> escaper \<Rightarrow> json_error + escaper" where
  "put_buffer s extra x = (if length (string_buffer x) + length s + extra \<le> 512
     then Inr (x\<lparr>string_buffer := string_buffer x @ s\<rparr>) else Inl JsonOverflow)"

definition flush_buffer :: "escaper \<Rightarrow> escaper" where
  "flush_buffer x = (if 512 - length (string_buffer x) < 13
     then x\<lparr>written := written x @ string_buffer x, string_buffer := []\<rparr> else x)"

text \<open>The text of an accepted code point, whose last byte is \<open>c\<close>, and the room it needs besides.\<close>

definition escape_codepoint :: "bool \<Rightarrow> nat \<Rightarrow> char \<Rightarrow> string \<times> nat" where
  "escape_codepoint ensure_ascii cp c = (let bs = CHR 0x5C in
     if cp = 0x08 then (bs # ''b'', 0)
     else if cp = 0x09 then (bs # ''t'', 0)
     else if cp = 0x0A then (bs # ''n'', 0)
     else if cp = 0x0C then (bs # ''f'', 0)
     else if cp = 0x0D then (bs # ''r'', 0)
     else if cp = 0x22 then ([bs, CHR 0x22], 0)
     else if cp = 0x5C then ([bs, bs], 0)
     else if cp \<le> 0x1F \<or> (ensure_ascii \<and> 0x7F \<le> cp) then
       (if cp \<le> 0xFFFF then (bs # ''u'' @ hex4_lower (cp mod 0x10000), 1)
        else (bs # ''u'' @ hex4_lower ((0xD7C0 + drop_bit 10 cp) mod 0x10000) @ bs # ''u'' @ hex4_lower ((0xDC00 + (cp AND 0x3FF)) mod 0x10000), 1))
     else ([c], 0))"

definition escape_accept :: "bool \<Rightarrow> char \<Rightarrow> escaper \<Rightarrow> json_error + escaper" where
  "escape_accept ensure_ascii c x = (let (t, extra) = escape_codepoint ensure_ascii (codepoint x) c in
     jbind (put_buffer t extra x) (\<lambda>x. let x = flush_buffer x in
     Inr (x\<lparr>bytes_after_last_accept := length (string_buffer x), undumped_chars := 0\<rparr>)))"

definition replacement :: "bool \<Rightarrow> string" where
  "replacement ensure_ascii = (if ensure_ascii then CHR 0x5C # ''ufffd'' else [CHR 0xEF, CHR 0xBF, CHR 0xBD])"

text \<open>A rejected byte when errors are ignored or replaced.\<close>

definition escape_reject :: "error_handler_t \<Rightarrow> bool \<Rightarrow> escaper \<Rightarrow> json_error + escaper" where
  "escape_reject h ensure_ascii x = (
     let x = x\<lparr>string_buffer := take (bytes_after_last_accept x) (string_buffer x)\<rparr> in
     jbind (if h = Replace then jbind (put_buffer (replacement ensure_ascii) 0 x) (\<lambda>x. let x = flush_buffer x in
              Inr (x\<lparr>bytes_after_last_accept := length (string_buffer x)\<rparr>)) else Inr x)
       (\<lambda>x. Inr (x\<lparr>undumped_chars := 0, utf8_state := UTF8_ACCEPT\<rparr>)))"

definition escape_incomplete :: "bool \<Rightarrow> char \<Rightarrow> escaper \<Rightarrow> json_error + escaper" where
  "escape_incomplete ensure_ascii c x = jbind (if ensure_ascii then Inr x else put_buffer [c] 0 x)
     (\<lambda>x. Inr (x\<lparr>undumped_chars := undumped_chars x + 1\<rparr>))"

lemma escape_step_undumped:
  "escape_reject h e x = Inr y \<Longrightarrow> undumped_chars y = 0"
  by (auto simp: escape_reject_def jbind_def Let_def split: sum.splits if_splits)

lemma jbind_cong [fundef_cong]: "m = m' \<Longrightarrow> (\<And>x. m' = Inr x \<Longrightarrow> f x = g x) \<Longrightarrow> jbind m f = jbind m' g"
  by (auto simp: jbind_def split: sum.splits)

text \<open>The loop over the bytes; \<open>i\<close> is the index of the next one. After a rejected byte that ends a started sequence, the byte is read
  again.\<close>

function escape_loop :: "error_handler_t \<Rightarrow> bool \<Rightarrow> nat \<Rightarrow> string \<Rightarrow> escaper \<Rightarrow> json_error + escaper" where
  "escape_loop h ensure_ascii i [] x = Inr x"
| "escape_loop h ensure_ascii i (c # cs) x = (
     let (st, cp) = decode (utf8_state x) (codepoint x) (code c); y = x\<lparr>utf8_state := st, codepoint := cp\<rparr> in
     if st = UTF8_ACCEPT then jbind (escape_accept ensure_ascii c y) (\<lambda>x. escape_loop h ensure_ascii (i + 1) cs x)
     else if st = UTF8_REJECT then
       (if h = Strict then Inl (type_error_create 316 (''invalid UTF-8 byte at index '' @ dec_of_nat i @ '': 0x'' @ hex2_upper (code c)))
        else (case escape_reject h ensure_ascii y of Inl e \<Rightarrow> Inl e
          | Inr z \<Rightarrow> if 0 < undumped_chars x then escape_loop h ensure_ascii i (c # cs) z else escape_loop h ensure_ascii (i + 1) cs z))
     else jbind (escape_incomplete ensure_ascii c y) (\<lambda>x. escape_loop h ensure_ascii (i + 1) cs x))"
  by pat_completeness auto

termination
  by (relation "measures [\<lambda>(_, _, _, cs, _). length cs, \<lambda>(_, _, _, _, x). undumped_chars x]")
    (auto dest: escape_step_undumped)

declare escape_loop.simps(2) [simp del]

definition mk_escaper :: escaper where
  "mk_escaper = \<lparr>written = [], string_buffer = [], bytes_after_last_accept = 0, undumped_chars = 0, utf8_state = UTF8_ACCEPT, codepoint = 0\<rparr>"

definition dump_escaped :: "error_handler_t \<Rightarrow> bool \<Rightarrow> string \<Rightarrow> json_error + string" where
  "dump_escaped h ensure_ascii s = jbind (escape_loop h ensure_ascii 0 s mk_escaper) (\<lambda>x.
     if utf8_state x = UTF8_ACCEPT then Inr (written x @ string_buffer x)
     else (case h of
       Strict \<Rightarrow> Inl (type_error_create 316 (''incomplete UTF-8 string; last byte: 0x'' @ hex2_upper (code (last s))))
     | Ignore \<Rightarrow> Inr (written x @ take (bytes_after_last_accept x) (string_buffer x))
     | Replace \<Rightarrow> Inr (written x @ take (bytes_after_last_accept x) (string_buffer x) @ replacement ensure_ascii)))"

subsection \<open>Integers\<close>

function count_digits_loop :: "nat \<Rightarrow> nat \<Rightarrow> nat" where
  "count_digits_loop x n_digits = (if x < 10 then n_digits else if x < 100 then n_digits + 1 else if x < 1000 then n_digits + 2
     else if x < 10000 then n_digits + 3 else count_digits_loop (x div 10000) (n_digits + 4))"
  by pat_completeness auto

termination by (relation "measure fst") auto

declare count_digits_loop.simps [simp del]

definition count_digits :: "64 word \<Rightarrow> nat" where
  "count_digits x = count_digits_loop (unat x) 1"

text \<open>\<^verbatim>\<open>remove_sign\<close>: the magnitude of a negative number, the smallest one included.\<close>

definition remove_sign :: "64 word \<Rightarrow> 64 word" where
  "remove_sign x = - (x + 1) + 1"

text \<open>The row of \<^verbatim>\<open>digits_to_99\<close>.\<close>

definition digits_to_99 :: "nat \<Rightarrow> char \<times> char" where
  "digits_to_99 n = (char_of (0x30 + n div 10), char_of (0x30 + n mod 10))"

definition put_number :: "nat \<Rightarrow> char \<Rightarrow> string \<Rightarrow> json_error + string" where
  "put_number i c buf = (if i < length buf then Inr (buf[i := c]) else Inl JsonOverflow)"

text \<open>The loop that writes two digits at a time, backwards from position \<open>i\<close>.\<close>

function digits_loop :: "nat \<Rightarrow> nat \<Rightarrow> string \<Rightarrow> json_error + string" where
  "digits_loop abs_value i buf = (
     let (a, b) = digits_to_99 (abs_value mod 100) in
     if 100 \<le> abs_value then
       (if i < 2 then Inl JsonOverflow else
        jbind (put_number (i - 1) b buf) (\<lambda>buf. jbind (put_number (i - 2) a buf) (\<lambda>buf. digits_loop (abs_value div 100) (i - 2) buf)))
     else if 10 \<le> abs_value then
       (if i < 2 then Inl JsonOverflow else jbind (put_number (i - 1) b buf) (\<lambda>buf. put_number (i - 2) a buf))
     else (if i < 1 then Inl JsonOverflow else put_number (i - 1) (char_of (0x30 + abs_value)) buf))"
  by pat_completeness auto

termination by (relation "measure fst") auto

declare digits_loop.simps [simp del]

text \<open>\<open>is_signed\<close> tells the instance for \<^verbatim>\<open>number_integer_t\<close> from the one for \<^verbatim>\<open>number_unsigned_t\<close>; \<open>buf\<close> is what
  \<^verbatim>\<open>number_buffer\<close> holds before the call.\<close>

definition dump_integer :: "bool \<Rightarrow> 64 word \<Rightarrow> string \<Rightarrow> json_error + string" where
  "dump_integer is_signed x buf = (
     if x = 0 then Inr ''0'' else
     let is_negative = is_signed \<and> x <s 0;
         abs_value = (if is_negative then remove_sign x else x);
         n_chars = (if is_negative then 1 + count_digits abs_value else count_digits abs_value) in
     if \<not> n_chars < length buf - 1 then Inl JsonAssertion else
     jbind (if is_negative then put_number 0 (CHR ''-'') buf else Inr buf) (\<lambda>buf.
     jbind (digits_loop (unat abs_value) n_chars buf) (\<lambda>buf. Inr (take n_chars buf))))"

subsection \<open>Values\<close>

record serializer =
  ser_out :: string
  indent_string :: string
  error_handler :: error_handler_t
  number_buffer :: string

definition mk_serializer :: "char \<Rightarrow> error_handler_t \<Rightarrow> serializer" where
  "mk_serializer ichar h = \<lparr>ser_out = [], indent_string = replicate 512 ichar, error_handler = h, number_buffer = replicate 64 (CHR 0x00)\<rparr>"

definition write_characters :: "string \<Rightarrow> serializer \<Rightarrow> serializer" where
  "write_characters s x = x\<lparr>ser_out := ser_out x @ s\<rparr>"

definition write_escaped :: "bool \<Rightarrow> string \<Rightarrow> serializer \<Rightarrow> json_error + serializer" where
  "write_escaped ensure_ascii s x = jbind (dump_escaped (error_handler x) ensure_ascii s) (\<lambda>t. Inr (write_characters t x))"

definition write_integer :: "bool \<Rightarrow> 64 word \<Rightarrow> serializer \<Rightarrow> json_error + serializer" where
  "write_integer is_signed i x = jbind (dump_integer is_signed i (number_buffer x)) (\<lambda>t. Inr (write_characters t x))"

text \<open>The indentation string grows, with spaces, when the next level does not fit; it is doubled once.\<close>

definition grow_indent :: "nat \<Rightarrow> serializer \<Rightarrow> serializer" where
  "grow_indent new_indent x = (if length (indent_string x) < new_indent
     then x\<lparr>indent_string := indent_string x @ replicate (length (indent_string x)) (CHR '' '')\<rparr> else x)"

definition write_indent :: "nat \<Rightarrow> serializer \<Rightarrow> json_error + serializer" where
  "write_indent n x = (if n \<le> length (indent_string x) then Inr (write_characters (take n (indent_string x)) x) else Inl JsonOverflow)"

abbreviation dquote :: string where
  "dquote \<equiv> [CHR 0x22]"

text \<open>The opening and the closing of a container, and what stands before its elements, both pretty-printed and not.\<close>

definition open_container :: "bool \<Rightarrow> char \<Rightarrow> nat \<Rightarrow> serializer \<Rightarrow> serializer" where
  "open_container pretty c new_indent x =
     (if pretty then grow_indent new_indent (write_characters [c, CHR 0x0A] x) else write_characters [c] x)"

definition close_container :: "bool \<Rightarrow> char \<Rightarrow> nat \<Rightarrow> serializer \<Rightarrow> json_error + serializer" where
  "close_container pretty c current_indent x =
     jbind (if pretty then write_indent current_indent (write_characters [CHR 0x0A] x) else Inr x) (\<lambda>x. Inr (write_characters [c] x))"

definition before_element :: "bool \<Rightarrow> nat \<Rightarrow> serializer \<Rightarrow> json_error + serializer" where
  "before_element pretty new_indent x = (if pretty then write_indent new_indent x else Inr x)"

definition write_key :: "bool \<Rightarrow> bool \<Rightarrow> string \<Rightarrow> serializer \<Rightarrow> json_error + serializer" where
  "write_key pretty ensure_ascii k x = jbind (write_escaped ensure_ascii k (write_characters dquote x))
     (\<lambda>x. Inr (write_characters (if pretty then dquote @ '': '' else dquote @ '':'') x))"

abbreviation separator :: "bool \<Rightarrow> string" where
  "separator pretty \<equiv> (if pretty then [CHR '','', CHR 0x0A] else '','')"

text \<open>\<open>float_text\<close> stands for \<^verbatim>\<open>to_chars\<close>. Indentations are \<^verbatim>\<open>unsigned int\<close>s; outside pretty printing
  the indentation is passed on as it is.\<close>

fun json_dump :: "(float64 \<Rightarrow> string) \<Rightarrow> bool \<Rightarrow> bool \<Rightarrow> nat \<Rightarrow> nat \<Rightarrow> json \<Rightarrow> serializer \<Rightarrow> json_error + serializer"
  and dump_members :: "(float64 \<Rightarrow> string) \<Rightarrow> bool \<Rightarrow> bool \<Rightarrow> nat \<Rightarrow> nat \<Rightarrow> (string \<times> json) list \<Rightarrow> serializer \<Rightarrow> json_error + serializer"
  and dump_elems :: "(float64 \<Rightarrow> string) \<Rightarrow> bool \<Rightarrow> bool \<Rightarrow> nat \<Rightarrow> nat \<Rightarrow> json list \<Rightarrow> serializer \<Rightarrow> json_error + serializer" where
  "json_dump float_text pretty ensure_ascii indent_step current_indent (JObject m) x = (
     if m = [] then Inr (write_characters ''{}'' x) else
     let new_indent = (if pretty then (current_indent + indent_step) mod 2 ^ 32 else current_indent) in
     jbind (dump_members float_text pretty ensure_ascii indent_step new_indent m (open_container pretty (CHR ''{'') new_indent x))
       (close_container pretty (CHR ''}'') current_indent))"
| "json_dump float_text pretty ensure_ascii indent_step current_indent (JArray xs) x = (
     if xs = [] then Inr (write_characters ''[]'' x) else
     let new_indent = (if pretty then (current_indent + indent_step) mod 2 ^ 32 else current_indent) in
     jbind (dump_elems float_text pretty ensure_ascii indent_step new_indent xs (open_container pretty (CHR ''['') new_indent x))
       (close_container pretty (CHR '']'') current_indent))"
| "json_dump float_text pretty ensure_ascii indent_step current_indent (JString s) x =
     jbind (write_escaped ensure_ascii s (write_characters dquote x)) (\<lambda>x. Inr (write_characters dquote x))"
| "json_dump float_text pretty ensure_ascii indent_step current_indent (JBoolean b) x = Inr (write_characters (if b then ''true'' else ''false'') x)"
| "json_dump float_text pretty ensure_ascii indent_step current_indent (JInteger i) x = write_integer True i x"
| "json_dump float_text pretty ensure_ascii indent_step current_indent (JUnsigned i) x = write_integer False i x"
| "json_dump float_text pretty ensure_ascii indent_step current_indent (JFloat f) x =
     Inr (write_characters (if isfinite f then float_text f else ''null'') x)"
| "json_dump float_text pretty ensure_ascii indent_step current_indent JDiscarded x = Inr (write_characters ''<discarded>'' x)"
| "json_dump float_text pretty ensure_ascii indent_step current_indent JNull x = Inr (write_characters ''null'' x)"
| "dump_members float_text pretty ensure_ascii indent_step new_indent [] x = Inr x"
| "dump_members float_text pretty ensure_ascii indent_step new_indent ((k, v) # m) x =
     jbind (before_element pretty new_indent x) (\<lambda>x.
     jbind (write_key pretty ensure_ascii k x) (\<lambda>x.
     jbind (json_dump float_text pretty ensure_ascii indent_step new_indent v x) (\<lambda>x.
     if m = [] then Inr x else dump_members float_text pretty ensure_ascii indent_step new_indent m (write_characters (separator pretty) x))))"
| "dump_elems float_text pretty ensure_ascii indent_step new_indent [] x = Inr x"
| "dump_elems float_text pretty ensure_ascii indent_step new_indent (v # vs) x =
     jbind (before_element pretty new_indent x) (\<lambda>x.
     jbind (json_dump float_text pretty ensure_ascii indent_step new_indent v x) (\<lambda>x.
     if vs = [] then Inr x else dump_elems float_text pretty ensure_ascii indent_step new_indent vs (write_characters (separator pretty) x)))"

text \<open>\<^verbatim>\<open>basic_json::dump\<close>: a negative \<open>indent\<close> is compact, any other pretty-prints.\<close>

definition basic_json_dump :: "(float64 \<Rightarrow> string) \<Rightarrow> int \<Rightarrow> char \<Rightarrow> bool \<Rightarrow> error_handler_t \<Rightarrow> json \<Rightarrow> json_error + string" where
  "basic_json_dump float_text indent indent_char ensure_ascii h v = jbind
     (if 0 \<le> indent then json_dump float_text True ensure_ascii (nat indent) 0 v (mk_serializer indent_char h)
      else json_dump float_text False ensure_ascii 0 0 v (mk_serializer indent_char h)) (\<lambda>x. Inr (ser_out x))"

end
