(* ===== verification/JsonGrammar.thy ===== *)
theory JsonGrammar
  imports JsonParser
begin

text \<open>
  A recursive reading of JSON texts (\<open>read_value\<close>), and the proof that the parser with its explicit stack computes it:
  \<open>sax_loop\<close> accepts exactly the texts the grammar derives, and builds their value.
\<close>

subsection \<open>Paths\<close>

fun valid_path :: "path \<Rightarrow> json \<Rightarrow> bool" where
  "valid_path [] j \<longleftrightarrow> True"
| "valid_path (Index i # p) (JArray xs) \<longleftrightarrow> i < length xs \<and> valid_path p (xs ! i)"
| "valid_path (Key k # p) (JObject m) \<longleftrightarrow> (\<exists>v. map_of m k = Some v \<and> valid_path p v)"
| "valid_path _ j \<longleftrightarrow> False"

lemma map_set_set [simp]: "map_set k a (map_set k b m) = map_set k a m"
  by (induction k b m rule: map_set.induct) auto

lemma map_set_insert [simp]: "map_set k a (map_insert k b m) = map_set k a m"
  by (induction k b m rule: map_insert.induct) auto

lemma json_at_put: "valid_path q r \<Longrightarrow> json_at q (json_put q v r) = v"
  by (induction q v r rule: json_put.induct) (auto simp: map_of_map_set)

lemma json_put_put: "valid_path q r \<Longrightarrow> json_put q w (json_put q v r) = json_put q w r"
  by (induction q v r rule: json_put.induct) (auto simp: map_of_map_set)

lemma valid_path_put: "valid_path q r \<Longrightarrow> valid_path q (json_put q v r)"
  by (induction q v r rule: json_put.induct) (auto simp: map_of_map_set)

lemma put_below:
  assumes "valid_path q r"
  shows "json_put (q @ p) v r = json_put q (json_put p v (json_at q r)) r"
    "json_at (q @ p) r = json_at p (json_at q r)" "valid_path (q @ p) r = valid_path p (json_at q r)"
  using assms by (induction q arbitrary: r rule: list.induct; (auto elim: valid_path.elims)?)+

text \<open>Adding a value in a container, by the last pointer of the stack.\<close>

lemma handle_in_array:
  assumes "ref_stack d = stk @ [q]" and "valid_path q r" and "root d = json_put q (JArray xs) r"
  shows "handle_value v d = Inr (q @ [Index (length xs)], d\<lparr>root := json_put q (JArray (xs @ [v])) r\<rparr>)"
  using assms by (simp add: handle_value_def Let_def json_at_put json_put_put)

lemma handle_in_object:
  assumes "ref_stack d = stk @ [q]" and "valid_path q r" and "root d = json_put q (JObject m) r"
    and "object_element d = Some (q @ [Key k])"
  shows "handle_value v d = Inr (q @ [Key k], d\<lparr>root := json_put q (JObject (map_set k v m)) r\<rparr>)"
  using assms put_below(1) [OF valid_path_put [OF assms(2)], of "[Key k]" v "JObject m"]
  by (simp add: handle_value_def Let_def json_at_put json_put_put)

text \<open>The builder is ready to take a value.\<close>

definition ready :: "sax_dom \<Rightarrow> bool" where
  "ready d \<longleftrightarrow> ref_stack d = []
     \<or> (\<exists>stk q r xs. ref_stack d = stk @ [q] \<and> valid_path q r \<and> root d = json_put q (JArray xs) r)
     \<or> (\<exists>stk q r m k. ref_stack d = stk @ [q] \<and> valid_path q r \<and> root d = json_put q (JObject m) r \<and> k \<in> set (map fst m)
          \<and> object_element d = Some (q @ [Key k]))"

text \<open>Where the value goes, the builder can overwrite it: a container is first put there empty and then filled.\<close>

lemma ready_handle:
  assumes "ready d"
  obtains q r where "\<And>v. handle_value v d = Inr (q, d\<lparr>root := json_put q v r\<rparr>)" "valid_path q r"
proof -
  consider (empty) "ref_stack d = []"
    | (array) stk q r xs where "ref_stack d = stk @ [q]" "valid_path q r" "root d = json_put q (JArray xs) r"
    | (object) stk q r m k where "ref_stack d = stk @ [q]" "valid_path q r" "root d = json_put q (JObject m) r" "k \<in> set (map fst m)"
        "object_element d = Some (q @ [Key k])"
    using assms unfolding ready_def by blast
  then show ?thesis
  proof cases
    case empty
    have "handle_value v d = Inr ([], d\<lparr>root := json_put [] v JNull\<rparr>)" for v using empty by (simp add: handle_value_def)
    then show ?thesis using that [of "[]" JNull] by simp
  next
    case array
    let ?r = "json_put q (JArray (xs @ [JNull])) r"
    have "json_put (q @ [Index (length xs)]) v ?r = json_put q (JArray (xs @ [v])) r" for v
      using put_below(1) [OF valid_path_put [OF array(2)], of "[Index (length xs)]" v] array(2)
      by (simp add: json_at_put json_put_put)
    moreover have "valid_path (q @ [Index (length xs)]) ?r"
      using put_below(3) [OF valid_path_put [OF array(2)]] array(2) by (simp add: json_at_put)
    ultimately show ?thesis using that [of "q @ [Index (length xs)]" ?r] handle_in_array [OF array] by simp
  next
    case object
    let ?r = "json_put q (JObject m) r"
    have "json_put (q @ [Key k]) v ?r = json_put q (JObject (map_set k v m)) r" for v
      using put_below(1) [OF valid_path_put [OF object(2)], of "[Key k]" v] object(2)
      by (simp add: json_at_put json_put_put)
    moreover have "map_of m k \<noteq> None" using object(4) by (simp add: map_of_eq_None_iff)
    then have "valid_path (q @ [Key k]) ?r"
      using put_below(3) [OF valid_path_put [OF object(2)]] object(2) by (auto simp: json_at_put)
    ultimately show ?thesis using that [of "q @ [Key k]" ?r] handle_in_object [OF object(1-3,5)] by simp
  qed
qed

subsection \<open>The grammar\<close>

lemma read_token_shorter:
  assumes "read_token s = (tk, t)" and "tk \<noteq> Tok EndOfInput" and "tk \<noteq> Tok ParseErrorToken"
  shows "length t < length s"
proof -
  define lx where "lx = (mk_lexer s)\<lparr>position := \<lparr>chars_read_total = 1, chars_read_current_line = 0, lines_read = 0\<rparr>\<rparr>"
  have at: "lex_at s lx" by (simp add: lx_def lex_at_def mk_lexer_def pending_def lex_ok_def get_decimal_point_def)
  have sc: "scans (tk, t) (lex_scan lx)" using lex_scan_reads [OF at] assms(1) by simp
  then have "fst (lex_scan lx) \<noteq> EndOfInput" using assms(2) by (auto simp: scans_def tok_of_def)
  from pending_scan(2) [OF this] sc assms(3) at show ?thesis by (simp add: scans_def lex_at_def)
qed

abbreviation member_fold :: "(string \<times> json) list \<Rightarrow> (string \<times> json) list \<Rightarrow> (string \<times> json) list" where
  "member_fold \<equiv> fold (\<lambda>(k, v). map_set k v)"

lemma read_token_len:
  "fst (read_token t) = tk \<Longrightarrow> tk \<noteq> Tok EndOfInput \<Longrightarrow> tk \<noteq> Tok ParseErrorToken \<Longrightarrow> length (snd (read_token t)) < length t"
  using read_token_shorter [of t tk "snd (read_token t)"] by (metis prod.collapse)

lemma read_token_lens:
  "read_token s = (Tok BeginArray, t) \<Longrightarrow> length t < length s"
  "read_token s = (Tok BeginObject, t) \<Longrightarrow> length t < length s"
  "read_token s = (TokString b, t) \<Longrightarrow> length t < length s"
  "fst (read_token t) = Tok ValueSeparator \<Longrightarrow> length (snd (read_token t)) < length t"
  "fst (read_token t) = Tok NameSeparator \<Longrightarrow> length (snd (read_token t)) < length t"
  by (auto dest: read_token_shorter read_token_len)

text \<open>A value, the elements of an array up to its bracket, and the members of an object up to its brace. A later member
  replaces an earlier one of the same key.\<close>

function read_value :: "string \<Rightarrow> (json \<times> string) option"
  and read_elems :: "string \<Rightarrow> (json list \<times> string) option"
  and read_members :: "string \<Rightarrow> ((string \<times> json) list \<times> string) option" where
  "read_value s = (case read_token s of
     (TokString b, t) \<Rightarrow> Some (JString b, t)
   | (TokUnsigned n, t) \<Rightarrow> Some (JUnsigned n, t)
   | (TokInteger n, t) \<Rightarrow> Some (JInteger n, t)
   | (TokFloat f, t) \<Rightarrow> if isfinite f then Some (JFloat f, t) else None
   | (Tok LiteralNull, t) \<Rightarrow> Some (JNull, t)
   | (Tok LiteralTrue, t) \<Rightarrow> Some (JBoolean True, t)
   | (Tok LiteralFalse, t) \<Rightarrow> Some (JBoolean False, t)
   | (Tok BeginArray, t) \<Rightarrow> if fst (read_token t) = Tok EndArray then Some (JArray [], snd (read_token t))
       else map_option (map_prod JArray id) (read_elems t)
   | (Tok BeginObject, t) \<Rightarrow> if fst (read_token t) = Tok EndObject then Some (JObject [], snd (read_token t))
       else map_option (map_prod (\<lambda>kvs. JObject (member_fold kvs [])) id) (read_members t)
   | _ \<Rightarrow> None)"
| "read_elems s = (case read_value s of None \<Rightarrow> None | Some (v, t) \<Rightarrow>
     if length s \<le> length t then None
     else if fst (read_token t) = Tok ValueSeparator then map_option (map_prod (Cons v) id) (read_elems (snd (read_token t)))
     else if fst (read_token t) = Tok EndArray then Some ([v], snd (read_token t)) else None)"
| "read_members s = (case read_token s of
     (TokString k, t) \<Rightarrow>
       if fst (read_token t) = Tok NameSeparator then
         (case read_value (snd (read_token t)) of None \<Rightarrow> None | Some (v, t) \<Rightarrow>
            if length s \<le> length t then None
            else if fst (read_token t) = Tok ValueSeparator then map_option (map_prod (Cons (k, v)) id) (read_members (snd (read_token t)))
            else if fst (read_token t) = Tok EndObject then Some ([(k, v)], snd (read_token t)) else None)
       else None
   | _ \<Rightarrow> None)"
  by pat_completeness auto

termination
  by (relation "measure (\<lambda>x. case x of Inl s \<Rightarrow> 2 * length s | Inr (Inl s) \<Rightarrow> Suc (2 * length s) | Inr (Inr s) \<Rightarrow> Suc (2 * length s))")
    (auto dest!: read_token_lens read_token_lens(1-3) [OF sym])

declare read_value.simps [simp del] read_elems.simps [simp del] read_members.simps [simp del]

lemma read_shorter:
  "read_value s = Some (v, t) \<Longrightarrow> length t < length s"
  "read_elems s = Some (vs, t) \<Longrightarrow> length t < length s"
  "read_members s = Some (kvs, t) \<Longrightarrow> length t < length s"
proof -
  have e: "read_elems s = Some (vs, t) \<Longrightarrow> length t < length s" for s vs t
  proof (induction "length s" arbitrary: s vs t rule: less_induct)
    case less
    obtain v t1 where v: "read_value s = Some (v, t1)" "length t1 < length s"
      using less.prems by (auto simp: read_elems.simps [of s] split: option.splits if_splits)
    show ?case
    proof (cases "fst (read_token t1) = Tok ValueSeparator")
      case True
      then obtain vs' where "read_elems (snd (read_token t1)) = Some (vs', t)"
        using less.prems v by (auto simp: read_elems.simps [of s])
      then show ?thesis using less.hyps [of "snd (read_token t1)"] read_token_lens(4) [OF True] v(2) by fastforce
    next
      case False
      then have "fst (read_token t1) = Tok EndArray" "t = snd (read_token t1)"
        using less.prems v by (auto simp: read_elems.simps [of s] split: if_splits)
      then show ?thesis using read_token_len [of t1 "Tok EndArray"] v(2) by simp
    qed
  qed
  have m: "read_members s = Some (kvs, t) \<Longrightarrow> length t < length s" for s kvs t
  proof (induction "length s" arbitrary: s kvs t rule: less_induct)
    case less
    obtain k t0 where k: "read_token s = (TokString k, t0)" "fst (read_token t0) = Tok NameSeparator"
      using less.prems by (auto simp: read_members.simps [of s] split: option.splits if_splits prod.splits tok.splits)
    obtain v t1 where v: "read_value (snd (read_token t0)) = Some (v, t1)" "length t1 < length s"
      using less.prems k by (auto simp: read_members.simps [of s] split: option.splits if_splits)
    show ?case
    proof (cases "fst (read_token t1) = Tok ValueSeparator")
      case True
      then obtain kvs' where "read_members (snd (read_token t1)) = Some (kvs', t)"
        using less.prems v k by (auto simp: read_members.simps [of s])
      then show ?thesis using less.hyps [of "snd (read_token t1)"] read_token_lens(4) [OF True] v(2) by fastforce
    next
      case False
      then have "fst (read_token t1) = Tok EndObject" "t = snd (read_token t1)"
        using less.prems v k by (auto simp: read_members.simps [of s] split: if_splits)
      then show ?thesis using read_token_len [of t1 "Tok EndObject"] v(2) by simp
    qed
  qed
  show "read_elems s = Some (vs, t) \<Longrightarrow> length t < length s" by (rule e)
  show "read_members s = Some (kvs, t) \<Longrightarrow> length t < length s" by (rule m)
  assume v: "read_value s = Some (v, t)"
  obtain tk t0 where tk: "read_token s = (tk, t0)" by fastforce
  have ne: "tk \<noteq> Tok EndOfInput" "tk \<noteq> Tok ParseErrorToken" using v tk by (auto simp: read_value.simps [of s])
  have "length t0 < length s" using read_token_shorter [OF tk ne] .
  moreover have "length t \<le> length t0"
    using v tk e [of t0 _ t] m [of t0 _ t] read_token_len [of t0 "Tok EndArray"] read_token_len [of t0 "Tok EndObject"]
    by (fastforce simp: read_value.simps [of s] split: tok.splits token_type.splits if_splits)
  ultimately show "length t < length s" by simp
qed

lemma read_elems_eq:
  "read_elems s = (case read_value s of None \<Rightarrow> None | Some (v, t) \<Rightarrow>
     if fst (read_token t) = Tok ValueSeparator then map_option (map_prod (Cons v) id) (read_elems (snd (read_token t)))
     else if fst (read_token t) = Tok EndArray then Some ([v], snd (read_token t)) else None)"
  using read_shorter(1) [of s] by (auto simp: read_elems.simps [of s] split: option.splits)

lemma read_members_eq:
  "read_members s = (case read_token s of
     (TokString k, t) \<Rightarrow>
       if fst (read_token t) = Tok NameSeparator then
         (case read_value (snd (read_token t)) of None \<Rightarrow> None | Some (v, t) \<Rightarrow>
            if fst (read_token t) = Tok ValueSeparator then map_option (map_prod (Cons (k, v)) id) (read_members (snd (read_token t)))
            else if fst (read_token t) = Tok EndObject then Some ([(k, v)], snd (read_token t)) else None)
       else None
   | _ \<Rightarrow> None)"
proof -
  have "length t' < length s" if "read_token s = (TokString k, t)" "fst (read_token t) = Tok NameSeparator" "read_value (snd (read_token t)) = Some (v, t')"
    for k t v t'
    using read_token_lens(3) [OF that(1)] read_token_lens(5) [OF that(2)] read_shorter(1) [OF that(3)] by simp
  then show ?thesis by (fastforce simp: read_members.simps [of s] split: option.splits prod.splits tok.splits)
qed

subsection \<open>The parser computes it\<close>

definition run_step :: "json_error + loop_step \<Rightarrow> json_error + (bool \<times> parser \<times> sax_dom)" where
  "run_step r = (case r of
     Inl e \<Rightarrow> Inl e
   | Inr (Return b p d) \<Rightarrow> Inr (b, p, d)
   | Inr (Continue p d states skip) \<Rightarrow> sax_loop p d states skip
   | Inr (Break p d) \<Rightarrow> Inl JsonAssertion)"

lemma sax_loop_run: "sax_loop p d st skip = run_step (loop_body p d st skip)"
  by (simp add: sax_loop.simps [of p d st skip] run_step_def)

text \<open>A rejected text: an exception, or, where exceptions are not allowed, the flag of the builder.\<close>

definition rejects :: "bool \<Rightarrow> json_error + (bool \<times> parser \<times> sax_dom) \<Rightarrow> bool" where
  "rejects allow out = (if allow then \<exists>e. out = Inl e \<and> e \<noteq> JsonAssertion else \<exists>p d. out = Inr (False, p, d) \<and> errored d \<and> \<not> allow_exceptions p)"

lemma rejects_sax_error: "ex \<noteq> JsonAssertion \<Longrightarrow> rejects (allow_exceptions p) (run_step (sax_parse_error ex p d))"
  by (simp add: rejects_def run_step_def sax_parse_error_def)

lemma rejects_syntax_error [simp]: "rejects (allow_exceptions p) (run_step (syntax_error ty c p d))"
  by (simp add: syntax_error_def rejects_sax_error parse_error_create_def)

definition parser_at :: "string \<Rightarrow> parser \<Rightarrow> bool" where
  "parser_at s p \<longleftrightarrow> scans (read_token s) (last_token p, m_lexer p)"

lemma get_token_at:
  assumes "lex_at t (m_lexer p)"
  shows "parser_at t (get_token p)" "allow_exceptions (get_token p) = allow_exceptions p"
  using lex_scan_reads [OF assms] by (simp_all add: parser_at_def get_token_def split_def Let_def)

lemma tok_of_inv:
  "tok_of (ty, lx) = TokString b \<longleftrightarrow> ty = ValueString \<and> token_buffer lx = b"
  "tok_of (ty, lx) = TokUnsigned n \<longleftrightarrow> ty = ValueUnsigned \<and> value_unsigned lx = n"
  "tok_of (ty, lx) = TokInteger n \<longleftrightarrow> ty = ValueInteger \<and> value_integer lx = n"
  "tok_of (ty, lx) = TokFloat f \<longleftrightarrow> ty = ValueFloat \<and> value_float lx = f"
  "tok_of (ty, lx) = Tok ty' \<longleftrightarrow> ty = ty' \<and> ty' \<notin> {ValueString, ValueUnsigned, ValueInteger, ValueFloat}"
  by (cases ty; auto simp: tok_of_def)+

lemma parser_at_tok: "parser_at s p \<Longrightarrow> tok_of (last_token p, m_lexer p) = fst (read_token s)"
  by (simp add: parser_at_def scans_def)

lemma parser_at_rest: "parser_at s p \<Longrightarrow> fst (read_token s) \<noteq> Tok ParseErrorToken \<Longrightarrow> lex_at (snd (read_token s)) (m_lexer p)"
  by (simp add: parser_at_def scans_def)

lemma parser_at_type:
  "parser_at s p \<Longrightarrow> ty \<notin> {ValueString, ValueUnsigned, ValueInteger, ValueFloat} \<Longrightarrow> last_token p = ty \<longleftrightarrow> fst (read_token s) = Tok ty"
  using parser_at_tok [of s p] tok_of_inv(5) [of "last_token p" "m_lexer p" ty] by auto

text \<open>The parser has read value \<open>v\<close> and goes on with \<open>t\<close>.\<close>

definition accepts :: "json \<Rightarrow> string \<Rightarrow> parser \<Rightarrow> sax_dom \<Rightarrow> bool list \<Rightarrow> json_error + (bool \<times> parser \<times> sax_dom) \<Rightarrow> bool" where
  "accepts v t p d st out \<longleftrightarrow> (\<exists>p' d' q d1. out = sax_loop p' d' st True \<and> lex_at t (m_lexer p') \<and> allow_exceptions p' = allow_exceptions p
     \<and> handle_value v d = Inr (q, d1) \<and> root d' = root d1 \<and> ref_stack d' = ref_stack d \<and> errored d' = errored d)"

text \<open>The parser has closed the container at \<open>q\<close>, of value \<open>v\<close>.\<close>

definition closes :: "json \<Rightarrow> path \<Rightarrow> json \<Rightarrow> string \<Rightarrow> parser \<Rightarrow> sax_dom \<Rightarrow> bool list \<Rightarrow> json_error + (bool \<times> parser \<times> sax_dom) \<Rightarrow> bool" where
  "closes v q r t p d st out \<longleftrightarrow> (\<exists>p' d'. out = sax_loop p' d' st True \<and> lex_at t (m_lexer p') \<and> allow_exceptions p' = allow_exceptions p
     \<and> root d' = json_put q v r \<and> ref_stack d' = butlast (ref_stack d) \<and> errored d' = errored d)"

definition value_ok :: "string \<Rightarrow> bool" where
  "value_ok s \<longleftrightarrow> (\<forall>p d st. parser_at s p \<longrightarrow> ready d \<longrightarrow>
     (case read_value s of None \<Rightarrow> rejects (allow_exceptions p) (sax_loop p d st False)
      | Some (v, t) \<Rightarrow> accepts v t p d st (sax_loop p d st False)))"

definition elems_ok :: "string \<Rightarrow> bool" where
  "elems_ok s \<longleftrightarrow> (\<forall>p d st stk q r xs. parser_at s p \<longrightarrow> ref_stack d = stk @ [q] \<longrightarrow> valid_path q r \<longrightarrow> root d = json_put q (JArray xs) r \<longrightarrow>
     (case read_elems s of None \<Rightarrow> rejects (allow_exceptions p) (sax_loop p d (True # st) False)
      | Some (vs, t) \<Rightarrow> closes (JArray (xs @ vs)) q r t p d st (sax_loop p d (True # st) False)))"

definition members_ok :: "string \<Rightarrow> bool" where
  "members_ok s \<longleftrightarrow> (\<forall>p d st stk q r m. parser_at s p \<longrightarrow> ref_stack d = stk @ [q] \<longrightarrow> valid_path q r \<longrightarrow> root d = json_put q (JObject m) r \<longrightarrow>
     (case read_members s of None \<Rightarrow> rejects (allow_exceptions p) (run_step (parse_key p d (False # st)))
      | Some (kvs, t) \<Rightarrow> closes (JObject (member_fold kvs m)) q r t p d st (run_step (parse_key p d (False # st)))))"

lemma loop_skip: "sax_loop p d st True = run_step (state_evaluation p d st)"
  by (simp add: sax_loop_run loop_body_def jbind_def)

lemma after_element:
  assumes "lex_at t (m_lexer p)"
  shows "fst (read_token t) = Tok ValueSeparator \<Longrightarrow> sax_loop p d (True # st) True = sax_loop (get_token (get_token p)) d (True # st) False"
    and "fst (read_token t) = Tok EndArray \<Longrightarrow> sax_loop p d (True # st) True = sax_loop (get_token p) (sax_pop d) st True"
    and "fst (read_token t) \<noteq> Tok ValueSeparator \<Longrightarrow> fst (read_token t) \<noteq> Tok EndArray
      \<Longrightarrow> rejects (allow_exceptions p) (sax_loop p d (True # st) True)"
proof -
  note g = get_token_at [OF assms]
  have ty: "last_token (get_token p) = ValueSeparator \<longleftrightarrow> fst (read_token t) = Tok ValueSeparator"
    "last_token (get_token p) = EndArray \<longleftrightarrow> fst (read_token t) = Tok EndArray"
    by (rule parser_at_type [OF g(1)], simp)+
  show "fst (read_token t) = Tok ValueSeparator \<Longrightarrow> sax_loop p d (True # st) True = sax_loop (get_token (get_token p)) d (True # st) False"
    using ty by (simp add: loop_skip state_evaluation_def run_step_def)
  show "fst (read_token t) = Tok EndArray \<Longrightarrow> sax_loop p d (True # st) True = sax_loop (get_token p) (sax_pop d) st True"
    using ty by (simp add: loop_skip state_evaluation_def run_step_def)
  show "rejects (allow_exceptions p) (sax_loop p d (True # st) True)"
    if "fst (read_token t) \<noteq> Tok ValueSeparator" "fst (read_token t) \<noteq> Tok EndArray"
    using ty g(2) that rejects_syntax_error [of "get_token p"] by (simp add: loop_skip state_evaluation_def)
qed

lemma after_member:
  assumes "lex_at t (m_lexer p)"
  shows "fst (read_token t) = Tok ValueSeparator \<Longrightarrow> sax_loop p d (False # st) True = run_step (parse_key (get_token (get_token p)) d (False # st))"
    and "fst (read_token t) = Tok EndObject \<Longrightarrow> sax_loop p d (False # st) True = sax_loop (get_token p) (sax_pop d) st True"
    and "fst (read_token t) \<noteq> Tok ValueSeparator \<Longrightarrow> fst (read_token t) \<noteq> Tok EndObject
      \<Longrightarrow> rejects (allow_exceptions p) (sax_loop p d (False # st) True)"
proof -
  note g = get_token_at [OF assms]
  have ty: "last_token (get_token p) = ValueSeparator \<longleftrightarrow> fst (read_token t) = Tok ValueSeparator"
    "last_token (get_token p) = EndObject \<longleftrightarrow> fst (read_token t) = Tok EndObject"
    by (rule parser_at_type [OF g(1)], simp)+
  show "fst (read_token t) = Tok ValueSeparator \<Longrightarrow> sax_loop p d (False # st) True = run_step (parse_key (get_token (get_token p)) d (False # st))"
    using ty by (simp add: loop_skip state_evaluation_def)
  show "fst (read_token t) = Tok EndObject \<Longrightarrow> sax_loop p d (False # st) True = sax_loop (get_token p) (sax_pop d) st True"
    using ty by (simp add: loop_skip state_evaluation_def run_step_def)
  show "rejects (allow_exceptions p) (sax_loop p d (False # st) True)"
    if "fst (read_token t) \<noteq> Tok ValueSeparator" "fst (read_token t) \<noteq> Tok EndObject"
    using ty g(2) that rejects_syntax_error [of "get_token p"] by (simp add: loop_skip state_evaluation_def)
qed

lemma next_token_at:
  assumes "lex_at t (m_lexer p)" and "fst (read_token t) = Tok ValueSeparator"
  shows "parser_at (snd (read_token t)) (get_token (get_token p))" "allow_exceptions (get_token (get_token p)) = allow_exceptions p"
proof -
  have "lex_at (snd (read_token t)) (m_lexer (get_token p))"
    using parser_at_rest [OF get_token_at(1) [OF assms(1)]] assms(2) by simp
  from get_token_at [OF this] get_token_at(2) [OF assms(1)]
  show "parser_at (snd (read_token t)) (get_token (get_token p))" "allow_exceptions (get_token (get_token p)) = allow_exceptions p"
    by simp_all
qed

lemma closed_at:
  assumes "lex_at t (m_lexer p)" and "fst (read_token t) = Tok EndArray \<or> fst (read_token t) = Tok EndObject"
  shows "lex_at (snd (read_token t)) (m_lexer (get_token p))"
  using parser_at_rest [OF get_token_at(1) [OF assms(1)]] assms(2) by auto

lemma elems_ok_step:
  assumes v: "value_ok s"
    and rest: "\<And>w t. read_value s = Some (w, t) \<Longrightarrow> fst (read_token t) = Tok ValueSeparator \<Longrightarrow> elems_ok (snd (read_token t))"
  shows "elems_ok s"
  unfolding elems_ok_def
proof (intro allI impI)
  fix p :: parser and d :: sax_dom and st stk q r xs
  assume at: "parser_at s p" and rs: "ref_stack d = stk @ [q]" and vp: "valid_path q r" and rt: "root d = json_put q (JArray xs) r"
  let ?allow = "allow_exceptions p" and ?out = "sax_loop p d (True # st) False"
  have rd: "ready d" unfolding ready_def using rs vp rt by blast
  show "case read_elems s of None \<Rightarrow> rejects ?allow ?out | Some (vs, t) \<Rightarrow> closes (JArray (xs @ vs)) q r t p d st ?out"
  proof (cases "read_value s")
    case None
    then show ?thesis using v at rd unfolding value_ok_def by (auto simp: read_elems_eq [of s])
  next
    case (Some wt)
    obtain w t where wt: "wt = (w, t)" by fastforce
    have "accepts w t p d (True # st) ?out" using v at rd Some wt unfolding value_ok_def by fastforce
    then obtain p1 d1 where p1: "?out = sax_loop p1 d1 (True # st) True" "lex_at t (m_lexer p1)" "allow_exceptions p1 = ?allow"
        "root d1 = json_put q (JArray (xs @ [w])) r" "ref_stack d1 = stk @ [q]" "errored d1 = errored d"
      using handle_in_array [OF rs vp rt, of w] rs unfolding accepts_def by auto
    consider (sep) "fst (read_token t) = Tok ValueSeparator" | (close) "fst (read_token t) = Tok EndArray"
      | (bad) "fst (read_token t) \<noteq> Tok ValueSeparator" "fst (read_token t) \<noteq> Tok EndArray" by blast
    then show ?thesis
    proof cases
      case sep
      let ?p2 = "get_token (get_token p1)"
      note n = next_token_at [OF p1(2) sep]
      have "elems_ok (snd (read_token t))" using rest Some wt sep by blast
      then have "case read_elems (snd (read_token t)) of None \<Rightarrow> rejects (allow_exceptions ?p2) (sax_loop ?p2 d1 (True # st) False)
          | Some (vs, t') \<Rightarrow> closes (JArray ((xs @ [w]) @ vs)) q r t' ?p2 d1 st (sax_loop ?p2 d1 (True # st) False)"
        using n(1) p1(5) vp p1(4) unfolding elems_ok_def by blast
      moreover have "?out = sax_loop ?p2 d1 (True # st) False" using p1(1) after_element(1) [OF p1(2) sep] by simp
      moreover have "read_elems s = map_option (map_prod (Cons w) id) (read_elems (snd (read_token t)))"
        using Some wt sep by (simp add: read_elems_eq [of s])
      ultimately show ?thesis using n(2) p1(3,5,6) rs by (auto simp: closes_def split: option.splits)
    next
      case close
      have "read_elems s = Some ([w], snd (read_token t))" using Some wt close by (simp add: read_elems_eq [of s])
      moreover have "?out = sax_loop (get_token p1) (sax_pop d1) st True" using p1(1) after_element(2) [OF p1(2) close] by simp
      ultimately show ?thesis
        using closed_at [OF p1(2)] close get_token_at(2) [OF p1(2)] p1(3-6) rs
        by (auto simp: closes_def sax_pop_def intro!: exI [of _ "get_token p1"] exI [of _ "sax_pop d1"])
    next
      case bad
      have "read_elems s = None" using Some wt bad by (simp add: read_elems_eq [of s])
      then show ?thesis using after_element(3) [OF p1(2) bad] p1(1,3) by simp
    qed
  qed
qed

text \<open>The value of a member, after its key.\<close>

lemma key_then_value:
  assumes at: "parser_at s p" and rs: "ref_stack d = stk @ [q]" and vp: "valid_path q r" and rt: "root d = json_put q (JObject m) r"
    and k: "read_token s = (TokString k, t)" and c: "fst (read_token t) = Tok NameSeparator"
  obtains p1 d1 where "run_step (parse_key p d st) = sax_loop p1 d1 st False" "parser_at (snd (read_token t)) p1" "ready d1"
    "allow_exceptions p1 = allow_exceptions p" "errored d1 = errored d" "ref_stack d1 = ref_stack d"
    "\<And>v. handle_value v d1 = Inr (q @ [Key k], d1\<lparr>root := json_put q (JObject (map_set k v m)) r\<rparr>)"
proof -
  define d1 where "d1 = d\<lparr>root := json_put q (JObject (map_insert k JNull m)) r, object_element := Some (q @ [Key k])\<rparr>"
  have key: "last_token p = ValueString" "token_buffer (m_lexer p) = k"
    using parser_at_tok [OF at] k tok_of_inv(1) by auto
  have lt: "lex_at t (m_lexer p)" using parser_at_rest [OF at] k by simp
  note g = get_token_at [OF lt]
  have sk: "sax_key k d = Inr d1" using rs vp rt by (simp add: sax_key_def d1_def json_at_put json_put_put)
  have col: "last_token (get_token p) = NameSeparator" using parser_at_type [OF g(1), of NameSeparator] c by simp
  have "lex_at (snd (read_token t)) (m_lexer (get_token p))" using parser_at_rest [OF g(1)] c by simp
  note g2 = get_token_at [OF this]
  have pk: "run_step (parse_key p d st) = sax_loop (get_token (get_token p)) d1 st False"
    using key sk col by (simp add: parse_key_def jbind_def run_step_def)
  have d1: "ref_stack d1 = stk @ [q]" "root d1 = json_put q (JObject (map_insert k JNull m)) r" "object_element d1 = Some (q @ [Key k])"
    using rs by (simp_all add: d1_def)
  have "k \<in> set (map fst (map_insert k JNull m))" using keys_map_insert [of k JNull m] by blast
  then have "ready d1" unfolding ready_def using d1 vp by blast
  moreover have "handle_value v d1 = Inr (q @ [Key k], d1\<lparr>root := json_put q (JObject (map_set k v m)) r\<rparr>)" for v
    using handle_in_object [OF d1(1) vp d1(2,3), of v] by simp
  ultimately show ?thesis using that [OF pk g2(1)] g(2) g2(2) by (simp add: d1_def)
qed

lemma members_ok_step:
  assumes v: "\<And>k t. read_token s = (TokString k, t) \<Longrightarrow> fst (read_token t) = Tok NameSeparator \<Longrightarrow> value_ok (snd (read_token t))"
    and rest: "\<And>k t w t'. read_token s = (TokString k, t) \<Longrightarrow> fst (read_token t) = Tok NameSeparator \<Longrightarrow>
      read_value (snd (read_token t)) = Some (w, t') \<Longrightarrow> fst (read_token t') = Tok ValueSeparator \<Longrightarrow> members_ok (snd (read_token t'))"
  shows "members_ok s"
  unfolding members_ok_def
proof (intro allI impI)
  fix p :: parser and d :: sax_dom and st stk q r m
  assume at: "parser_at s p" and rs: "ref_stack d = stk @ [q]" and vp: "valid_path q r" and rt: "root d = json_put q (JObject m) r"
  let ?allow = "allow_exceptions p" and ?out = "run_step (parse_key p d (False # st))"
  show "case read_members s of None \<Rightarrow> rejects ?allow ?out | Some (kvs, t) \<Rightarrow> closes (JObject (member_fold kvs m)) q r t p d st ?out"
  proof (cases "\<exists>k t. read_token s = (TokString k, t)")
    case False
    then have "last_token p \<noteq> ValueString" using parser_at_tok [OF at] by (metis tok_of_inv(1) prod.collapse)
    then have "rejects ?allow ?out" by (simp add: parse_key_def)
    moreover have "read_members s = None" using False by (auto simp: read_members_eq [of s] split: prod.splits tok.splits)
    ultimately show ?thesis by simp
  next
    case True
    then obtain k t where k: "read_token s = (TokString k, t)" by blast
    show ?thesis
    proof (cases "fst (read_token t) = Tok NameSeparator")
      case False
      have key: "last_token p = ValueString" "token_buffer (m_lexer p) = k" using parser_at_tok [OF at] k tok_of_inv(1) by auto
      have lt: "lex_at t (m_lexer p)" using parser_at_rest [OF at] k by simp
      note g = get_token_at [OF lt]
      have "last_token (get_token p) \<noteq> NameSeparator" using parser_at_type [OF g(1), of NameSeparator] False by simp
      moreover obtain d1 where "sax_key k d = Inr d1" using rs vp rt by (simp add: sax_key_def json_at_put)
      ultimately have "rejects ?allow ?out" using key g(2) rejects_syntax_error [of "get_token p"]
        by (simp add: parse_key_def jbind_def)
      then show ?thesis using False k by (simp add: read_members_eq [of s])
    next
      case c: True
      obtain p1 d1 where p1: "?out = sax_loop p1 d1 (False # st) False" "parser_at (snd (read_token t)) p1" "ready d1"
          "allow_exceptions p1 = ?allow" "errored d1 = errored d" "ref_stack d1 = ref_stack d"
          "\<And>v. handle_value v d1 = Inr (q @ [Key k], d1\<lparr>root := json_put q (JObject (map_set k v m)) r\<rparr>)"
        using key_then_value [OF at rs vp rt k c, of "False # st"] by metis
      have vo: "value_ok (snd (read_token t))" using v k c by blast
      show ?thesis
      proof (cases "read_value (snd (read_token t))")
        case None
        then show ?thesis using vo p1 k c unfolding value_ok_def by (auto simp: read_members_eq [of s])
      next
        case (Some wt)
        obtain w t1 where wt: "wt = (w, t1)" by fastforce
        have "accepts w t1 p1 d1 (False # st) ?out" using vo p1(1-3) Some wt unfolding value_ok_def by fastforce
        then obtain p2 d2 where p2: "?out = sax_loop p2 d2 (False # st) True" "lex_at t1 (m_lexer p2)" "allow_exceptions p2 = ?allow"
            "root d2 = json_put q (JObject (map_set k w m)) r" "ref_stack d2 = stk @ [q]" "errored d2 = errored d"
          using p1(4-7) rs unfolding accepts_def by auto
        consider (sep) "fst (read_token t1) = Tok ValueSeparator" | (close) "fst (read_token t1) = Tok EndObject"
          | (bad) "fst (read_token t1) \<noteq> Tok ValueSeparator" "fst (read_token t1) \<noteq> Tok EndObject" by blast
        then show ?thesis
        proof cases
          case sep
          let ?p3 = "get_token (get_token p2)"
          note n = next_token_at [OF p2(2) sep]
          have "members_ok (snd (read_token t1))" using rest k c Some wt sep by blast
          then have "case read_members (snd (read_token t1)) of None \<Rightarrow> rejects (allow_exceptions ?p3) (run_step (parse_key ?p3 d2 (False # st)))
              | Some (kvs, t') \<Rightarrow> closes (JObject (member_fold kvs (map_set k w m))) q r t' ?p3 d2 st (run_step (parse_key ?p3 d2 (False # st)))"
            using n(1) p2(5) vp p2(4) unfolding members_ok_def by blast
          moreover have "?out = run_step (parse_key ?p3 d2 (False # st))" using p2(1) after_member(1) [OF p2(2) sep] by simp
          moreover have "read_members s = map_option (map_prod (Cons (k, w)) id) (read_members (snd (read_token t1)))"
            using k c Some wt sep by (simp add: read_members_eq [of s])
          ultimately show ?thesis using n(2) p2(3,5,6) rs by (auto simp: closes_def split: option.splits)
        next
          case close
          have "read_members s = Some ([(k, w)], snd (read_token t1))" using k c Some wt close by (simp add: read_members_eq [of s])
          moreover have "?out = sax_loop (get_token p2) (sax_pop d2) st True" using p2(1) after_member(2) [OF p2(2) close] by simp
          ultimately show ?thesis
            using closed_at [OF p2(2)] close get_token_at(2) [OF p2(2)] p2(3-6) rs
            by (auto simp: closes_def sax_pop_def intro!: exI [of _ "get_token p2"] exI [of _ "sax_pop d2"])
        next
          case bad
          have "read_members s = None" using k c Some wt bad by (simp add: read_members_eq [of s])
          then show ?thesis using after_member(3) [OF p2(2) bad] p2(1,3) by simp
        qed
      qed
    qed
  qed
qed

text \<open>A value: scalars first.\<close>

lemma scalar_accepts:
  assumes "ready d" and "lex_at t (m_lexer p)" and "value_switch p d st = jbind (sax_value v d) (\<lambda>d. Inr (Break p d))"
  shows "accepts v t p d st (sax_loop p d st False)"
proof -
  obtain q r where h: "\<And>v. handle_value v d = Inr (q, d\<lparr>root := json_put q v r\<rparr>)" using ready_handle [OF assms(1)] by blast
  have "sax_loop p d st False = sax_loop p (d\<lparr>root := json_put q v r\<rparr>) st True"
    using h assms(3) by (simp add: sax_loop_run loop_body_def jbind_def sax_value_def)
  then show ?thesis using h assms(2) by (auto simp: accepts_def intro!: exI [of _ p])
qed

lemma scalar_switch:
  assumes at: "parser_at s p" and rd: "ready d" and tk: "read_token s = (tk, t)"
    and v: "value_switch p d st = jbind (sax_value v d) (\<lambda>d. Inr (Break p d))" and "tk \<noteq> Tok ParseErrorToken"
    and rv: "read_value s = Some (v, t)"
  shows "case read_value s of None \<Rightarrow> rejects (allow_exceptions p) (sax_loop p d st False)
      | Some (v, t) \<Rightarrow> accepts v t p d st (sax_loop p d st False)"
  using scalar_accepts [OF rd _ v, of t] parser_at_rest [OF at] assms(3,5) rv by simp

lemma reject_switch:
  assumes "value_switch p d st = syntax_error ty c p d" and "read_value s = None"
  shows "case read_value s of None \<Rightarrow> rejects (allow_exceptions p) (sax_loop p d st False)
      | Some (v, t) \<Rightarrow> accepts v t p d st (sax_loop p d st False)"
proof -
  have "run_step (loop_body p d st False) = run_step (syntax_error ty c p d)"
    using assms(1) by (simp add: loop_body_def jbind_def syntax_error_def sax_parse_error_def run_step_def)
  then show ?thesis using assms(2) by (simp add: sax_loop_run)
qed

lemma closes_accepts:
  assumes "closes v q r t p' d2 st out" and h: "\<And>v. handle_value v d = Inr (q, d\<lparr>root := json_put q v r\<rparr>)"
    and "allow_exceptions p' = allow_exceptions p" and "ref_stack d2 = ref_stack d @ [q]" and "errored d2 = errored d"
  shows "accepts v t p d st out"
proof -
  obtain p1 d1 where "out = sax_loop p1 d1 st True" "lex_at t (m_lexer p1)" "allow_exceptions p1 = allow_exceptions p"
     "root d1 = json_put q v r" "ref_stack d1 = ref_stack d" "errored d1 = errored d"
    using assms(1,3-5) unfolding closes_def by auto
  then show ?thesis using h [of v] unfolding accepts_def
    by (intro exI [of _ p1] exI [of _ d1] exI [of _ q] exI [of _ "d\<lparr>root := json_put q v r\<rparr>"]) simp
qed

lemma array_value:
  assumes at: "parser_at s p" and rd: "ready d" and tk: "read_token s = (Tok BeginArray, t)"
    and el: "fst (read_token t) \<noteq> Tok EndArray \<Longrightarrow> elems_ok t"
  shows "case read_value s of None \<Rightarrow> rejects (allow_exceptions p) (sax_loop p d st False)
      | Some (v, t) \<Rightarrow> accepts v t p d st (sax_loop p d st False)"
proof -
  obtain q r where h: "\<And>v. handle_value v d = Inr (q, d\<lparr>root := json_put q v r\<rparr>)" "valid_path q r" using ready_handle [OF rd] by blast
  define d2 where "d2 = d\<lparr>root := json_put q (JArray []) r, ref_stack := ref_stack d @ [q]\<rparr>"
  have sa: "start_array d = Inr d2" using h(1) by (simp add: start_array_def d2_def)
  have ty: "last_token p = BeginArray" using parser_at_type [OF at, of BeginArray] tk by simp
  have lt: "lex_at t (m_lexer p)" using parser_at_rest [OF at] tk by simp
  note g = get_token_at [OF lt]
  have e: "last_token (get_token p) = EndArray \<longleftrightarrow> fst (read_token t) = Tok EndArray" by (rule parser_at_type [OF g(1)]) simp
  have d2: "ref_stack d2 = ref_stack d @ [q]" "root d2 = json_put q (JArray []) r" "errored d2 = errored d" by (simp_all add: d2_def)
  show ?thesis
  proof (cases "fst (read_token t) = Tok EndArray")
    case True
    have "sax_loop p d st False = sax_loop (get_token p) (sax_pop d2) st True"
      using ty sa e True by (simp add: sax_loop_run [of p d] loop_skip loop_body_def value_switch_def jbind_def)
    moreover have "lex_at (snd (read_token t)) (m_lexer (get_token p))" using closed_at [OF lt] True by blast
    moreover have "read_value s = Some (JArray [], snd (read_token t))" using tk True by (simp add: read_value.simps [of s])
    ultimately show ?thesis using h(1) [of "JArray []"] g(2) d2
      by (auto simp: accepts_def sax_pop_def intro!: exI [of _ "get_token p"] exI [of _ "sax_pop d2"])
  next
    case False
    have lp: "sax_loop p d st False = sax_loop (get_token p) d2 (True # st) False"
      using ty sa e False by (simp add: sax_loop_run [of p d] loop_body_def value_switch_def jbind_def run_step_def)
    have "case read_elems t of None \<Rightarrow> rejects (allow_exceptions p) (sax_loop (get_token p) d2 (True # st) False)
        | Some (vs, t) \<Rightarrow> closes (JArray ([] @ vs)) q r t (get_token p) d2 st (sax_loop (get_token p) d2 (True # st) False)"
      using el [OF False, unfolded elems_ok_def, rule_format, OF g(1) d2(1) h(2) d2(2), of st] unfolding g(2) .
    moreover have "read_value s = map_option (map_prod JArray id) (read_elems t)" using tk False by (simp add: read_value.simps [of s])
    ultimately show ?thesis unfolding lp using closes_accepts [OF _ h(1) g(2) d2(1,3)] by (auto split: option.splits)
  qed
qed

lemma object_value:
  assumes at: "parser_at s p" and rd: "ready d" and tk: "read_token s = (Tok BeginObject, t)"
    and el: "fst (read_token t) \<noteq> Tok EndObject \<Longrightarrow> members_ok t"
  shows "case read_value s of None \<Rightarrow> rejects (allow_exceptions p) (sax_loop p d st False)
      | Some (v, t) \<Rightarrow> accepts v t p d st (sax_loop p d st False)"
proof -
  obtain q r where h: "\<And>v. handle_value v d = Inr (q, d\<lparr>root := json_put q v r\<rparr>)" "valid_path q r" using ready_handle [OF rd] by blast
  define d2 where "d2 = d\<lparr>root := json_put q (JObject []) r, ref_stack := ref_stack d @ [q]\<rparr>"
  have sa: "start_object d = Inr d2" using h(1) by (simp add: start_object_def d2_def)
  have ty: "last_token p = BeginObject" using parser_at_type [OF at, of BeginObject] tk by simp
  have lt: "lex_at t (m_lexer p)" using parser_at_rest [OF at] tk by simp
  note g = get_token_at [OF lt]
  have e: "last_token (get_token p) = EndObject \<longleftrightarrow> fst (read_token t) = Tok EndObject" by (rule parser_at_type [OF g(1)]) simp
  have d2: "ref_stack d2 = ref_stack d @ [q]" "root d2 = json_put q (JObject []) r" "errored d2 = errored d" by (simp_all add: d2_def)
  show ?thesis
  proof (cases "fst (read_token t) = Tok EndObject")
    case True
    have "sax_loop p d st False = sax_loop (get_token p) (sax_pop d2) st True"
      using ty sa e True by (simp add: sax_loop_run [of p d] loop_skip loop_body_def value_switch_def jbind_def)
    moreover have "lex_at (snd (read_token t)) (m_lexer (get_token p))" using closed_at [OF lt] True by blast
    moreover have "read_value s = Some (JObject [], snd (read_token t))" using tk True by (simp add: read_value.simps [of s])
    ultimately show ?thesis using h(1) [of "JObject []"] g(2) d2
      by (auto simp: accepts_def sax_pop_def intro!: exI [of _ "get_token p"] exI [of _ "sax_pop d2"])
  next
    case False
    have "value_switch p d st = parse_key (get_token p) d2 (False # st)"
      using ty sa e False by (simp add: value_switch_def jbind_def)
    then have lp: "sax_loop p d st False = run_step (parse_key (get_token p) d2 (False # st))"
      using parse_key_not_break [of "get_token p" d2 "False # st"]
      by (auto simp: sax_loop_run [of p d] loop_body_def jbind_def split: sum.splits loop_step.splits)
    have "case read_members t of None \<Rightarrow> rejects (allow_exceptions p) (run_step (parse_key (get_token p) d2 (False # st)))
        | Some (kvs, t) \<Rightarrow> closes (JObject (member_fold kvs [])) q r t (get_token p) d2 st (run_step (parse_key (get_token p) d2 (False # st)))"
      using el [OF False, unfolded members_ok_def, rule_format, OF g(1) d2(1) h(2) d2(2), of st] unfolding g(2) .
    moreover have "read_value s = map_option (map_prod (\<lambda>kvs. JObject (member_fold kvs [])) id) (read_members t)"
      using tk False by (simp add: read_value.simps [of s])
    ultimately show ?thesis unfolding lp using closes_accepts [OF _ h(1) g(2) d2(1,3)] by (auto split: option.splits)
  qed
qed

lemma value_ok_step:
  assumes el: "\<And>t. read_token s = (Tok BeginArray, t) \<Longrightarrow> elems_ok t"
    and mem: "\<And>t. read_token s = (Tok BeginObject, t) \<Longrightarrow> members_ok t"
  shows "value_ok s"
  unfolding value_ok_def
proof (intro allI impI)
  fix p :: parser and d :: sax_dom and st
  assume at: "parser_at s p" and rd: "ready d"
  let ?goal = "case read_value s of None \<Rightarrow> rejects (allow_exceptions p) (sax_loop p d st False)
      | Some (v, t) \<Rightarrow> accepts v t p d st (sax_loop p d st False)"
  obtain tk t where tk: "read_token s = (tk, t)" by fastforce
  have to: "tok_of (last_token p, m_lexer p) = tk" using parser_at_tok [OF at] tk by simp
  note sc = scalar_switch [OF at rd tk] and vs = value_switch_def [of p d st] and rv = read_value.simps [of s]
  show ?goal
  proof (cases tk)
    case (TokString b)
    then show ?thesis using to tk vs rv by (intro sc) (auto simp: tok_of_inv)
  next
    case (TokUnsigned n)
    then show ?thesis using to tk vs rv by (intro sc) (auto simp: tok_of_inv)
  next
    case (TokInteger n)
    then show ?thesis using to tk vs rv by (intro sc) (auto simp: tok_of_inv)
  next
    case (TokFloat f)
    then have ty: "last_token p = ValueFloat" "value_float (m_lexer p) = f" using to tok_of_inv(4) by auto
    show ?thesis
    proof (cases "isfinite f")
      case True
      then show ?thesis using TokFloat ty tk vs rv by (intro sc) auto
    next
      case False
      let ?ex = "out_of_range_create 406 (''number overflow parsing '' @ quote @ get_token_string (m_lexer p) @ quote)"
      have "run_step (loop_body p d st False) = run_step (sax_parse_error ?ex p d)"
        using False ty vs by (simp add: loop_body_def jbind_def sax_parse_error_def run_step_def)
      moreover have "read_value s = None" using False TokFloat tk rv by simp
      moreover have "?ex \<noteq> JsonAssertion" by (simp add: out_of_range_create_def)
      ultimately show ?thesis using rejects_sax_error [of ?ex p d] by (simp add: sax_loop_run)
    qed
  next
    case (Tok ty)
    have ty: "last_token p = ty" "ty \<notin> {ValueString, ValueUnsigned, ValueInteger, ValueFloat}" using to Tok tok_of_inv(5) by auto
    show ?thesis
    proof (cases ty)
      case LiteralTrue then show ?thesis using Tok ty tk vs rv by (intro sc) auto
    next
      case LiteralFalse then show ?thesis using Tok ty tk vs rv by (intro sc) auto
    next
      case LiteralNull then show ?thesis using Tok ty tk vs rv by (intro sc) auto
    next
      case BeginArray then show ?thesis using array_value [OF at rd _ el] Tok tk by blast
    next
      case BeginObject then show ?thesis using object_value [OF at rd _ mem] Tok tk by blast
    next
      case ParseErrorToken
      then show ?thesis using Tok ty tk vs rv by (intro reject_switch [of _ _ _ Uninitialized "''value''"]) auto
    next
      case Uninitialized
      then show ?thesis using Tok ty tk vs rv by (intro reject_switch [of _ _ _ LiteralOrValue "''value''"]) auto
    next
      case EndArray
      then show ?thesis using Tok ty tk vs rv by (intro reject_switch [of _ _ _ LiteralOrValue "''value''"]) auto
    next
      case EndObject
      then show ?thesis using Tok ty tk vs rv by (intro reject_switch [of _ _ _ LiteralOrValue "''value''"]) auto
    next
      case NameSeparator
      then show ?thesis using Tok ty tk vs rv by (intro reject_switch [of _ _ _ LiteralOrValue "''value''"]) auto
    next
      case ValueSeparator
      then show ?thesis using Tok ty tk vs rv by (intro reject_switch [of _ _ _ LiteralOrValue "''value''"]) auto
    next
      case EndOfInput
      then show ?thesis using Tok ty tk vs rv by (intro reject_switch [of _ _ _ LiteralOrValue "''value''"]) auto
    next
      case LiteralOrValue
      then show ?thesis using Tok ty tk vs rv by (intro reject_switch [of _ _ _ LiteralOrValue "''value''"]) auto
    qed (use ty in auto)
  qed
qed

lemma parser_ok: "value_ok s \<and> elems_ok s \<and> members_ok s"
proof (induction "length s" arbitrary: s rule: less_induct)
  case less
  have v: "value_ok s"
    by (rule value_ok_step) (use less read_token_lens(1,2) [of s] in blast)+
  have "elems_ok s"
  proof (rule elems_ok_step [OF v])
    fix w t assume w: "read_value s = Some (w, t)" "fst (read_token t) = Tok ValueSeparator"
    have "length (snd (read_token t)) < length s" using read_shorter(1) [OF w(1)] read_token_lens(4) [OF w(2)] by linarith
    from less [OF this] show "elems_ok (snd (read_token t))" by blast
  qed
  moreover have "members_ok s"
  proof (rule members_ok_step)
    fix k t assume k: "read_token s = (TokString k, t)" "fst (read_token t) = Tok NameSeparator"
    have l: "length (snd (read_token t)) < length s" using read_token_lens(3) [OF k(1)] read_token_lens(5) [OF k(2)] by linarith
    from less [OF this] show "value_ok (snd (read_token t))" by blast
    fix w t' assume w: "read_value (snd (read_token t)) = Some (w, t')" "fst (read_token t') = Tok ValueSeparator"
    have "length (snd (read_token t')) < length s" using read_shorter(1) [OF w(1)] read_token_lens(4) [OF w(2)] l by linarith
    from less [OF this] show "members_ok (snd (read_token t'))" by blast
  qed
  ultimately show ?case using v by blast
qed

subsection \<open>JSON texts\<close>

definition strip_bom :: "string \<Rightarrow> string option" where
  "strip_bom s = (if s \<noteq> [] \<and> hd s = CHR 0xEF then (if take 3 s = [CHR 0xEF, CHR 0xBB, CHR 0xBF] then Some (drop 3 s) else None) else Some s)"

text \<open>The value of a text: one value, and then nothing but white space (or a null byte).\<close>

definition json_text :: "string \<Rightarrow> json option" where
  "json_text s = (case strip_bom s of None \<Rightarrow> None | Some s \<Rightarrow>
     (case read_value s of None \<Rightarrow> None | Some (v, t) \<Rightarrow> if fst (read_token t) = Tok EndOfInput then Some v else None))"

abbreviation dom0 :: sax_dom where
  "dom0 \<equiv> \<lparr>root = JNull, ref_stack = [], object_element = None, errored = False\<rparr>"

text \<open>What \<^const>\<open>parser_parse\<close> makes of a rejected text.\<close>

definition parse_rejects :: "bool \<Rightarrow> json_error + json \<Rightarrow> bool" where
  "parse_rejects allow out = (if allow then \<exists>e. out = Inl e \<and> e \<noteq> JsonAssertion else out = Inr JDiscarded)"

lemma rejects_parse:
  assumes "rejects (allow_exceptions p) (sax_parse_internal p dom0)"
  shows "parse_rejects (allow_exceptions p) (parser_parse True p)"
proof (cases "allow_exceptions p")
  case True
  then show ?thesis using assms by (auto simp: rejects_def parse_rejects_def parser_parse_def jbind_def)
next
  case False
  then obtain p' d' where "sax_parse_internal p dom0 = Inr (False, p', d')" "errored d'" "\<not> allow_exceptions p'"
    using assms by (auto simp: rejects_def)
  then show ?thesis using False
    by (auto simp: parse_rejects_def parser_parse_def jbind_def Let_def syntax_error_def sax_parse_error_def get_token_def split_def)
qed

lemma mk_parser_simps:
  "last_token (mk_parser s allow) = fst (lex_scan (mk_lexer s))" "m_lexer (mk_parser s allow) = snd (lex_scan (mk_lexer s))"
  "allow_exceptions (mk_parser s allow) = allow"
  by (simp_all add: mk_parser_def get_token_def split_def Let_def)

lemma mk_parser_at:
  "strip_bom s = Some t \<Longrightarrow> parser_at t (mk_parser s allow)"
  "strip_bom s = None \<Longrightarrow> last_token (mk_parser s allow) = ParseErrorToken"
proof -
  assume "strip_bom s = Some t"
  then have "read_first s = read_token t" by (auto simp: strip_bom_def read_first_def split: if_splits)
  then show "parser_at t (mk_parser s allow)" using lex_scan_first [of s] by (simp add: parser_at_def mk_parser_simps)
next
  assume "strip_bom s = None"
  then have "read_first s = tok_error" by (auto simp: strip_bom_def read_first_def split: if_splits)
  then have "tok_of (lex_scan (mk_lexer s)) = Tok ParseErrorToken" using lex_scan_first [of s] by (simp add: scans_def)
  then show "last_token (mk_parser s allow) = ParseErrorToken"
    using tok_of_inv(5) [of "fst (lex_scan (mk_lexer s))" "snd (lex_scan (mk_lexer s))" ParseErrorToken] by (simp add: mk_parser_simps)
qed

lemma json_parse_reads:
  "case json_text s of Some v \<Rightarrow> json_parse s allow = Inr v | None \<Rightarrow> parse_rejects allow (json_parse s allow)"
proof -
  let ?p = "mk_parser s allow"
  show ?thesis
  proof (cases "strip_bom s")
    case None
    have "value_switch ?p dom0 [] = syntax_error Uninitialized ''value'' ?p dom0"
      using mk_parser_at(2) [OF None] by (simp add: value_switch_def)
    then have "run_step (loop_body ?p dom0 [] False) = run_step (syntax_error Uninitialized ''value'' ?p dom0)"
      by (simp add: loop_body_def jbind_def syntax_error_def sax_parse_error_def run_step_def)
    then have "rejects (allow_exceptions ?p) (sax_parse_internal ?p dom0)" by (simp add: sax_parse_internal_def sax_loop_run)
    then show ?thesis using rejects_parse [of ?p] mk_parser_simps(3) [of s allow] None by (auto simp: json_parse_def json_text_def)
  next
    case (Some t0)
    note at = mk_parser_at(1) [OF Some, of allow]
    have "ready dom0" by (simp add: ready_def)
    then have vk: "case read_value t0 of None \<Rightarrow> rejects (allow_exceptions ?p) (sax_loop ?p dom0 [] False)
      | Some (v, t) \<Rightarrow> accepts v t ?p dom0 [] (sax_loop ?p dom0 [] False)"
      using parser_ok [of t0] at unfolding value_ok_def by blast
    show ?thesis
    proof (cases "read_value t0")
      case None
      then have "rejects (allow_exceptions ?p) (sax_parse_internal ?p dom0)" using vk by (simp add: sax_parse_internal_def)
      then show ?thesis using rejects_parse [of ?p] mk_parser_simps(3) [of s allow] None Some by (auto simp: json_parse_def json_text_def)
    next
      case (Some vt)
      obtain v t where vt: "vt = (v, t)" by fastforce
      obtain p' d' where p': "sax_loop ?p dom0 [] False = sax_loop p' d' [] True" "lex_at t (m_lexer p')" "allow_exceptions p' = allow"
          "root d' = v" "errored d' = False"
        using vk Some vt mk_parser_simps(3) [of s allow] by (auto simp: accepts_def handle_value_def)
      have sp: "sax_parse_internal ?p dom0 = Inr (True, p', d')"
        using p'(1) by (simp add: sax_parse_internal_def loop_skip state_evaluation_def run_step_def)
      note g = get_token_at [OF p'(2)]
      have e: "last_token (get_token p') = EndOfInput \<longleftrightarrow> fst (read_token t) = Tok EndOfInput" by (rule parser_at_type [OF g(1)]) simp
      show ?thesis using sp p' e g(2) Some vt \<open>strip_bom s = Some t0\<close>
        by (auto simp: json_text_def json_parse_def parser_parse_def jbind_def Let_def syntax_error_def sax_parse_error_def
            parse_rejects_def parse_error_create_def)
    qed
  qed
qed

text \<open>C1: Parsing a byte string gives exactly the value the grammar of the format assigns to it: if the text is one value, surrounded by
  nothing but white space (a byte order mark may stand in front), the parser returns this value, and otherwise it throws, or returns
  the discarded value when exceptions are off. It never fails an assertion.\<close>

theorem json_parse_text:
  "case json_text s of Some v \<Rightarrow> json_parse s allow = Inr v | None \<Rightarrow> parse_rejects allow (json_parse s allow)"
  by (rule json_parse_reads)

end
