(* ===== verification/JsonNumbers.thy ===== *)
theory JsonNumbers
  imports JsonDump JsonGrammar
begin

text \<open>
  Integers: \<^const>\<open>dump_integer\<close>, which fills a buffer backwards two digits at a time, writes the decimal representation of every
  64-bit integer, and the lexer reads that text back.
\<close>

subsection \<open>Writing\<close>

lemma dec_of_nat_split: "10 \<le> n \<Longrightarrow> dec_of_nat n = dec_of_nat (n div 10) @ [char_of (48 + n mod 10)]"
  by (subst dec_of_nat.simps) simp

lemma dec_of_nat_small: "n < 10 \<Longrightarrow> dec_of_nat n = [char_of (48 + n)]"
  by (subst dec_of_nat.simps) simp

lemma dec_of_nat_split2:
  assumes "10 \<le> n"
  shows "dec_of_nat n = (if 100 \<le> n then dec_of_nat (n div 100) else []) @ [fst (digits_to_99 (n mod 100)), snd (digits_to_99 (n mod 100))]"
proof (cases "100 \<le> n")
  case True
  have "dec_of_nat n = dec_of_nat (n div 10 div 10) @ [char_of (48 + n div 10 mod 10), char_of (48 + n mod 10)]"
    using True dec_of_nat_split [of n] dec_of_nat_split [of "n div 10"] by simp
  moreover have "n div 10 div 10 = n div 100" by (simp add: div_mult2_eq [symmetric])
  moreover have "n mod 100 = 10 * (n div 10 mod 10) + n mod 10" using mod_mult2_eq [of n 10 10] by simp
  ultimately show ?thesis using True by (simp add: digits_to_99_def)
next
  case False
  then show ?thesis using assms dec_of_nat_split [of n] dec_of_nat_small [of "n div 10"] by (simp add: digits_to_99_def)
qed

lemma count_digits_loop_dec: "count_digits_loop x n + 1 = n + length (dec_of_nat x)"
proof (induction x n rule: count_digits_loop.induct)
  case (1 x n)
  show ?case
  proof (cases "x < 10000")
    case True
    consider "x < 10" | "10 \<le> x" "x < 100" | "100 \<le> x" "x < 1000" | "1000 \<le> x" using True by linarith
    then show ?thesis
    proof cases
      case 1
      then show ?thesis by (simp add: count_digits_loop.simps [of x n] dec_of_nat_small)
    next
      case 2
      then show ?thesis by (simp add: count_digits_loop.simps [of x n] dec_of_nat_split dec_of_nat_small)
    next
      case 3
      then show ?thesis by (simp add: count_digits_loop.simps [of x n] dec_of_nat_split dec_of_nat_small)
    next
      case 4
      then show ?thesis using True by (simp add: count_digits_loop.simps [of x n] dec_of_nat_split dec_of_nat_small)
    qed
  next
    case False
    have "dec_of_nat x = dec_of_nat (x div 10 div 10 div 10 div 10)
        @ [char_of (48 + x div 10 div 10 div 10 mod 10), char_of (48 + x div 10 div 10 mod 10), char_of (48 + x div 10 mod 10), char_of (48 + x mod 10)]"
      using False dec_of_nat_split [of x] dec_of_nat_split [of "x div 10"] dec_of_nat_split [of "x div 10 div 10"]
        dec_of_nat_split [of "x div 10 div 10 div 10"] by simp
    moreover have "x div 10 div 10 div 10 div 10 = x div 10000" by (simp add: div_mult2_eq [symmetric])
    ultimately show ?thesis using False 1 by (simp add: count_digits_loop.simps [of x n])
  qed
qed

lemma count_digits_dec: "count_digits w = length (dec_of_nat (unat w))"
  using count_digits_loop_dec [of "unat w" 1] by (simp add: count_digits_def)

lemma digits_loop_dec:
  "length (dec_of_nat n) \<le> i \<Longrightarrow> i \<le> length buf \<Longrightarrow>
   digits_loop n i buf = Inr (take (i - length (dec_of_nat n)) buf @ dec_of_nat n @ drop i buf)"
proof (induction n i buf rule: digits_loop.induct)
  case (1 n i buf)
  obtain a b where ab: "digits_to_99 (n mod 100) = (a, b)" by fastforce
  show ?case
  proof (cases "10 \<le> n")
    case False
    then have i: "1 \<le> i" "dec_of_nat n = [char_of (48 + n)]" using "1.prems" by (simp_all add: dec_of_nat_small)
    then have "digits_loop n i buf = Inr (buf[i - 1 := char_of (48 + n)])"
      using False "1.prems"(2) by (simp add: digits_loop.simps [of n i buf] put_number_def split_def)
    then show ?thesis using i "1.prems"(2) by (simp add: upd_conv_take_nth_drop)
  next
    case True
    have dec: "dec_of_nat n = (if 100 \<le> n then dec_of_nat (n div 100) else []) @ [a, b]"
      using dec_of_nat_split2 [OF True] ab by simp
    then have i: "2 \<le> i" using "1.prems"(1) by simp
    obtain X y1 y2 Z where buf: "buf = X @ y1 # y2 # Z" and X: "length X = i - 2"
    proof -
      have two: "2 \<le> length D \<Longrightarrow> \<exists>y1 y2 Z. D = y1 # y2 # Z" for D :: string by (cases D; cases "tl D"; auto)
      have "2 \<le> length (drop (i - 2) buf)" using i "1.prems"(2) by simp
      from two [OF this] obtain y1 y2 Z where "drop (i - 2) buf = y1 # y2 # Z" by blast
      then have "buf = take (i - 2) buf @ y1 # y2 # Z" by (metis append_take_drop_id)
      then show ?thesis using that [of "take (i - 2) buf"] "1.prems"(2) by simp
    qed
    have i2: "i - 1 = Suc (length X)" "i = Suc (Suc (length X))" using X i by simp_all
    have upd: "buf[i - 1 := b, i - 2 := a] = X @ a # b # Z" using X by (simp add: buf i2 list_update_append)
    have puts: "put_number (i - 1) b buf = Inr (buf[i - 1 := b])" "put_number (i - 2) a (buf[i - 1 := b]) = Inr (X @ a # b # Z)"
      using i "1.prems"(2) upd by (simp_all add: put_number_def)
    show ?thesis
    proof (cases "100 \<le> n")
      case False
      then have "digits_loop n i buf = Inr (X @ a # b # Z)"
        using True i by (subst digits_loop.simps) (simp only: ab prod.case Let_def not_less [symmetric] puts jbind_def sum.case if_False if_True simp_thms)
      then show ?thesis using dec False by (simp add: buf i2(2))
    next
      case big: True
      then have "digits_loop n i buf = digits_loop (n div 100) (i - 2) (X @ a # b # Z)"
        using i by (subst digits_loop.simps) (simp only: ab prod.case Let_def not_less [symmetric] puts jbind_def sum.case if_False if_True simp_thms)
      also have "\<dots> = Inr (take (i - 2 - length (dec_of_nat (n div 100))) (X @ a # b # Z) @ dec_of_nat (n div 100) @ drop (i - 2) (X @ a # b # Z))"
        using big i "1.prems" dec X puts ab by (intro "1.IH" [OF ab [symmetric] refl]) (simp_all add: buf)
      finally show ?thesis using dec big by (simp add: buf i2(2))
    qed
  qed
qed

lemma remove_sign_abs: "x <s (0 :: 64 word) \<Longrightarrow> unat (remove_sign x) = nat (- sint x)"
proof -
  assume "x <s 0"
  then have n: "sint x < 0" by (simp add: word_sless_alt)
  have r: "- (2 ^ 63) \<le> sint x" using sint_greater_eq [of x] by simp
  have "remove_sign x = - x" by (simp add: remove_sign_def)
  also have "\<dots> = of_int (- sint x)" by simp
  finally have "uint (remove_sign x) = (- sint x) mod 2 ^ 64" by (simp add: uint_word_of_int del: of_int_minus)
  also have "\<dots> = - sint x" using n r by (intro mod_pos_pos_trivial) auto
  finally show ?thesis by (simp add: unat_eq_nat_uint)
qed

text \<open>Every 64-bit integer, signed or not, is written as its decimal text, and the buffer of 64 bytes is always large enough.\<close>

lemma dump_integer_dec:
  assumes "length buf = 64"
  shows "dump_integer is_signed x buf = Inr (dec_of_int (if is_signed then sint x else uint x))"
proof (cases "x = 0")
  case True
  moreover have "CHR ''0'' = char_of (48 :: nat)" by code_simp
  ultimately show ?thesis by (simp add: dump_integer_def dec_of_int_def dec_of_nat_small)
next
  case False
  have len: "length (dec_of_nat (unat y)) \<le> 20" for y :: "64 word"
    using unsigned_less [of y, where 'a = nat] by (intro length_dec_of_nat) auto
  show ?thesis
  proof (cases "is_signed \<and> x <s 0")
    case True
    define n where "n = unat (remove_sign x)"
    have n: "n = nat (- sint x)" using remove_sign_abs True by (simp add: n_def)
    have neg: "sint x < 0" using True by (simp add: word_sless_alt)
    have l: "length (dec_of_nat n) \<le> 20" using len by (simp add: n_def)
    have "digits_loop n (Suc (length (dec_of_nat n))) (buf[0 := CHR ''-''])
        = Inr (take 1 (buf[0 := CHR ''-'']) @ dec_of_nat n @ drop (Suc (length (dec_of_nat n))) (buf[0 := CHR ''-'']))"
      using digits_loop_dec [of n "Suc (length (dec_of_nat n))" "buf[0 := CHR ''-'']"] l assms by simp
    moreover have "take 1 (buf[0 := CHR ''-'']) = ''-''" using assms by (cases buf) auto
    ultimately have "dump_integer is_signed x buf = Inr (CHR ''-'' # dec_of_nat n)"
      using True False l assms
      by (simp add: dump_integer_def put_number_def jbind_def count_digits_dec n_def [symmetric])
    then show ?thesis using True neg n by (simp add: dec_of_int_def)
  next
    case pos: False
    have l: "length (dec_of_nat (unat x)) \<le> 20" using len by simp
    have "dump_integer is_signed x buf = Inr (dec_of_nat (unat x))"
      using digits_loop_dec [of "unat x" "length (dec_of_nat (unat x))" buf] l assms False pos
      by (auto simp: dump_integer_def jbind_def count_digits_dec)
    moreover have "unat x = nat (if is_signed then sint x else uint x)" "0 \<le> (if is_signed then sint x else uint x)"
    proof -
      have su: "sint x = uint x" if "0 \<le> sint x"
      proof -
        have "uint (word_of_int (sint x) :: 64 word) = sint x mod 2 ^ 64" by (simp add: uint_word_of_int del: of_int_sint)
        moreover have "sint x mod 2 ^ 64 = sint x" using sint_less [of x] that by (intro mod_pos_pos_trivial) auto
        ultimately show ?thesis by (simp add: scast_id)
      qed
      have "0 \<le> sint x" if is_signed using pos that by (simp add: word_sless_alt not_less)
      with su have e: "(if is_signed then sint x else uint x) = uint x" by simp
      show "0 \<le> (if is_signed then sint x else uint x)" unfolding e by simp
      show "unat x = nat (if is_signed then sint x else uint x)" unfolding e by (rule unat_eq_nat_uint)
    qed
    ultimately show ?thesis by (simp add: dec_of_int_def)
  qed
qed

subsection \<open>Reading\<close>

text \<open>What may follow a number so that it ends there.\<close>

definition number_ends :: "string \<Rightarrow> bool" where
  "number_ends rest \<longleftrightarrow> \<not> starts_with (\<lambda>c. dig c \<or> c = CHR ''.'' \<or> c = CHR ''e'' \<or> c = CHR ''E'') rest"

lemma dig_base_digit: "dig c \<longleftrightarrow> is_base_digit 10 c"
  by (auto simp: in_range_def is_base_digit_def digit_val_def Let_def split: if_splits)

lemma dec_of_nat_dig: "c \<in> set (dec_of_nat n) \<Longrightarrow> dig c"
  using dec_of_nat_digits [of n] by (auto simp: list_all_iff dig_base_digit)

lemma takeWhile_dig_dec:
  assumes "number_ends rest"
  shows "takeWhile dig (dec_of_nat n @ rest) = dec_of_nat n" "dropWhile dig (dec_of_nat n @ rest) = rest"
proof -
  have "takeWhile dig rest = []" "dropWhile dig rest = rest" using assms by (cases rest; auto simp: number_ends_def)+
  then show "takeWhile dig (dec_of_nat n @ rest) = dec_of_nat n" "dropWhile dig (dec_of_nat n @ rest) = rest"
    using dec_of_nat_dig [of _ n] by (simp_all add: takeWhile_append2 dropWhile_append2)
qed

lemma read_tail_end: "number_ends rest \<Longrightarrow> read_tail ty rest = Some (ty, [], rest)"
  by (auto simp: number_ends_def read_tail_def read_exp_opt_def)

lemma read_unsigned_dec:
  assumes "number_ends rest"
  shows "read_unsigned ty (dec_of_nat n @ rest) = Some (ty, dec_of_nat n, rest)"
proof (cases "n = 0")
  case True
  have "dec_of_nat 0 = ''0''" by code_simp
  then show ?thesis using True read_tail_end [OF assms] by (simp add: read_unsigned_def)
next
  case False
  have ne: "dec_of_nat n \<noteq> []" "dig (hd (dec_of_nat n))"
    using dec_of_nat_nonempty [of n] dec_of_nat_dig [OF hd_in_set] by blast+
  moreover have "hd (dec_of_nat n) \<noteq> CHR ''0''" using False by (intro dec_of_nat_no_leading_zero) simp
  ultimately show ?thesis using takeWhile_dig_dec [OF assms, of n] read_tail_end [OF assms] by (simp add: read_unsigned_def)
qed

lemma read_number_dec:
  assumes "number_ends rest"
  shows "read_number (dec_of_nat n @ rest) = Some (ValueUnsigned, dec_of_nat n, rest)"
    "read_number (CHR ''-'' # dec_of_nat n @ rest) = Some (ValueInteger, CHR ''-'' # dec_of_nat n, rest)"
proof -
  have "dec_of_nat n \<noteq> []" "dig (hd (dec_of_nat n))"
    using dec_of_nat_nonempty [of n] dec_of_nat_dig [OF hd_in_set] by blast+
  then have "hd (dec_of_nat n) \<noteq> CHR ''-''" by (auto simp: in_range_def)
  then show "read_number (dec_of_nat n @ rest) = Some (ValueUnsigned, dec_of_nat n, rest)"
    "read_number (CHR ''-'' # dec_of_nat n @ rest) = Some (ValueInteger, CHR ''-'' # dec_of_nat n, rest)"
    using read_unsigned_dec [OF assms] \<open>dec_of_nat n \<noteq> []\<close> by (simp_all add: read_number_def)
qed

lemma read_token_number:
  assumes "c = CHR ''-'' \<or> dig c" and "read_number (c # cs) = Some (ty, x, t)"
  shows "read_token (c # cs) = (number_tok ty x, t)"
proof -
  have "\<not> ws c" "c \<notin> set ''[]{}:,tfn'' " "c \<noteq> CHR 0x22" using assms(1) by (auto simp: in_range_def)
  then show ?thesis using assms by (auto simp: read_token_def read_token_char_def)
qed

text \<open>The lexer reads back what \<^const>\<open>dump_integer\<close> writes: an unsigned number as itself, a negative number as itself.\<close>

lemma read_token_unsigned:
  assumes "number_ends rest"
  shows "read_token (dec_of_int (uint (x :: 64 word)) @ rest) = (TokUnsigned x, rest)"
proof -
  define n where "n = unat x"
  have "n < 2 ^ 64" using unsigned_less [of x, where 'a = nat] by (simp add: n_def)
  then have nt: "number_tok ValueUnsigned (dec_of_nat n) = TokUnsigned x"
    by (simp add: number_tok_def base_value_dec_of_nat n_def)
  obtain c cs where c: "dec_of_nat n = c # cs" using dec_of_nat_nonempty by (meson neq_Nil_conv)
  have "dig c" using dec_of_nat_dig [of c n] c by simp
  then have "read_token (dec_of_nat n @ rest) = (TokUnsigned x, rest)"
    using read_token_number [of c "cs @ rest"] read_number_dec(1) [OF assms, of n] c nt by simp
  then show ?thesis by (simp add: dec_of_int_def n_def)
qed

lemma read_token_negative:
  assumes "number_ends rest" and "x <s (0 :: 64 word)"
  shows "read_token (dec_of_int (sint x) @ rest) = (TokInteger x, rest)"
proof -
  define n where "n = nat (- sint x)"
  have neg: "sint x < 0" using assms(2) by (simp add: word_sless_alt)
  have "- (2 ^ 63) \<le> sint x" using sint_greater_eq [of x] by simp
  then have "strtoll10 (CHR ''-'' # dec_of_nat n) = (x, True)"
    using neg by (simp add: strtoll10_def base_value_dec_of_nat n_def Let_def)
  then have nt: "number_tok ValueInteger (CHR ''-'' # dec_of_nat n) = TokInteger x" by (simp add: number_tok_def)
  have "read_token (CHR ''-'' # dec_of_nat n @ rest) = (TokInteger x, rest)"
    using read_token_number [of "CHR ''-''" "dec_of_nat n @ rest"] read_number_dec(2) [OF assms(1), of n] nt by simp
  then show ?thesis using neg by (simp add: dec_of_int_def n_def)
qed

end
