(* ===== verification/JsonStrings.thy ===== *)
theory JsonStrings
  imports JsonNumbers
begin

text \<open>
  Strings: the table-driven UTF-8 decoder of the serializer and the byte ranges of the lexer accept the same sequences; escaping
  never leaves its buffer; and the lexer reads an escaped string back.
\<close>

subsection \<open>The decoder and the ranges\<close>

text \<open>The state of the decoder while the given ranges are still to come.\<close>

definition range_state :: "(nat \<times> nat) list \<Rightarrow> nat" where
  "range_state rs = (case rs of [] \<Rightarrow> 0 | (lo, hi) # ts \<Rightarrow>
     (if length ts = 0 then 2
      else if length ts = 1 then (if lo = 0xA0 then 4 else if hi = 0x9F then 5 else 3)
      else (if lo = 0x90 then 6 else if hi = 0x8F then 8 else 7)))"

definition range_lists :: "(nat \<times> nat) list set" where
  "range_lists = {[(0x80, 0xBF)], [(0xA0, 0xBF), (0x80, 0xBF)], [(0x80, 0xBF), (0x80, 0xBF)], [(0x80, 0x9F), (0x80, 0xBF)],
     [(0x90, 0xBF), (0x80, 0xBF), (0x80, 0xBF)], [(0x80, 0xBF), (0x80, 0xBF), (0x80, 0xBF)], [(0x80, 0x8F), (0x80, 0xBF), (0x80, 0xBF)]}"

lemma utf8d_offset:
  "k < 0x80 \<Longrightarrow> utf8d ! k = 0"
  "k < 0x10 \<Longrightarrow> utf8d ! (0x80 + k) = 1"
  "k < 0x10 \<Longrightarrow> utf8d ! (0x90 + k) = 9"
  "k < 0x20 \<Longrightarrow> utf8d ! (0xA0 + k) = 7"
  "k < 2 \<Longrightarrow> utf8d ! (0xC0 + k) = 8"
  "k < 0x1E \<Longrightarrow> utf8d ! (0xC2 + k) = 2"
  "utf8d ! 0xE0 = 0xA"
  "k < 0xC \<Longrightarrow> utf8d ! (0xE1 + k) = 3"
  "utf8d ! 0xED = 4"
  "k < 2 \<Longrightarrow> utf8d ! (0xEE + k) = 3"
  "utf8d ! 0xF0 = 0xB"
  "k < 3 \<Longrightarrow> utf8d ! (0xF1 + k) = 6"
  "utf8d ! 0xF4 = 5"
  "k < 0xB \<Longrightarrow> utf8d ! (0xF5 + k) = 8"
  by (simp_all add: utf8d_def utf8d_types_def nth_append)

text \<open>The character class of a byte.\<close>

lemma utf8d_range:
  "0x80 \<le> b \<Longrightarrow> b < 0x90 \<Longrightarrow> utf8d ! b = 1"
  "0x90 \<le> b \<Longrightarrow> b < 0xA0 \<Longrightarrow> utf8d ! b = 9"
  "0xA0 \<le> b \<Longrightarrow> b < 0xC0 \<Longrightarrow> utf8d ! b = 7"
  "0xC0 \<le> b \<Longrightarrow> b < 0xC2 \<Longrightarrow> utf8d ! b = 8"
  "0xC2 \<le> b \<Longrightarrow> b < 0xE0 \<Longrightarrow> utf8d ! b = 2"
  "0xE1 \<le> b \<Longrightarrow> b < 0xED \<Longrightarrow> utf8d ! b = 3"
  "0xEE \<le> b \<Longrightarrow> b < 0xF0 \<Longrightarrow> utf8d ! b = 3"
  "0xF1 \<le> b \<Longrightarrow> b < 0xF4 \<Longrightarrow> utf8d ! b = 6"
  "0xF5 \<le> b \<Longrightarrow> b < 0x100 \<Longrightarrow> utf8d ! b = 8"
  using utf8d_offset(2) [of "b - 0x80"] utf8d_offset(3) [of "b - 0x90"] utf8d_offset(4) [of "b - 0xA0"]
    utf8d_offset(5) [of "b - 0xC0"] utf8d_offset(6) [of "b - 0xC2"] utf8d_offset(8) [of "b - 0xE1"] utf8d_offset(10) [of "b - 0xEE"]
    utf8d_offset(12) [of "b - 0xF1"] utf8d_offset(14) [of "b - 0xF5"]
  by simp_all

lemma utf8d_single:
  "0xE0 \<le> b \<Longrightarrow> b < 0xE1 \<Longrightarrow> utf8d ! b = 0xA"
  "0xED \<le> b \<Longrightarrow> b < 0xEE \<Longrightarrow> utf8d ! b = 4"
  "0xF0 \<le> b \<Longrightarrow> b < 0xF1 \<Longrightarrow> utf8d ! b = 0xB"
  "0xF4 \<le> b \<Longrightarrow> b < 0xF5 \<Longrightarrow> utf8d ! b = 5"
proof -
  have e: "0xE0 \<le> b \<Longrightarrow> b < 0xE1 \<Longrightarrow> b = 0xE0" "0xED \<le> b \<Longrightarrow> b < 0xEE \<Longrightarrow> b = 0xED"
    "0xF0 \<le> b \<Longrightarrow> b < 0xF1 \<Longrightarrow> b = 0xF0" "0xF4 \<le> b \<Longrightarrow> b < 0xF5 \<Longrightarrow> b = 0xF4" by linarith+
  show "0xE0 \<le> b \<Longrightarrow> b < 0xE1 \<Longrightarrow> utf8d ! b = 0xA" "0xED \<le> b \<Longrightarrow> b < 0xEE \<Longrightarrow> utf8d ! b = 4"
    "0xF0 \<le> b \<Longrightarrow> b < 0xF1 \<Longrightarrow> utf8d ! b = 0xB" "0xF4 \<le> b \<Longrightarrow> b < 0xF5 \<Longrightarrow> utf8d ! b = 5"
    using e utf8d_offset(7,9,11,13) by metis+
qed

lemma utf8d_byte:
  assumes "b < 256"
  shows "utf8d ! b = (if b < 0x80 then 0 else if b < 0x90 then 1 else if b < 0xA0 then 9 else if b < 0xC0 then 7 else if b < 0xC2 then 8
    else if b < 0xE0 then 2 else if b < 0xE1 then 0xA else if b < 0xED then 3 else if b < 0xEE then 4 else if b < 0xF0 then 3
    else if b < 0xF1 then 0xB else if b < 0xF4 then 6 else if b < 0xF5 then 5 else 8)"
  using assms by (simp add: utf8d_offset(1) utf8d_range utf8d_single not_less)

lemma utf8d_state: "utf8d ! (256 + i) = utf8d_states ! i"
proof -
  have "length utf8d_types = 256" by (simp add: utf8d_types_def)
  then show ?thesis by (simp add: utf8d_def nth_append)
qed

lemma utf8d_states_nth:
  "utf8d_states ! 0 = 0" "utf8d_states ! (Suc 0) = 1" "utf8d_states ! 2 = 2" "utf8d_states ! 3 = 3" "utf8d_states ! 4 = 5" "utf8d_states ! 5 = 8"
  "utf8d_states ! 6 = 7" "utf8d_states ! 7 = 1" "utf8d_states ! 8 = 1" "utf8d_states ! 9 = 1" "utf8d_states ! 10 = 4" "utf8d_states ! 11 = 6"
  "utf8d_states ! 32 = 1" "utf8d_states ! 33 = 0" "utf8d_states ! 34 = 1" "utf8d_states ! 35 = 1" "utf8d_states ! 36 = 1" "utf8d_states ! 37 = 1"
  "utf8d_states ! 38 = 1" "utf8d_states ! 39 = 0" "utf8d_states ! 40 = 1" "utf8d_states ! 41 = 0" "utf8d_states ! 42 = 1" "utf8d_states ! 43 = 1"
  "utf8d_states ! 48 = 1" "utf8d_states ! 49 = 2" "utf8d_states ! 50 = 1" "utf8d_states ! 51 = 1" "utf8d_states ! 52 = 1" "utf8d_states ! 53 = 1"
  "utf8d_states ! 54 = 1" "utf8d_states ! 55 = 2" "utf8d_states ! 56 = 1" "utf8d_states ! 57 = 2" "utf8d_states ! 58 = 1" "utf8d_states ! 59 = 1"
  "utf8d_states ! 64 = 1" "utf8d_states ! 65 = 1" "utf8d_states ! 66 = 1" "utf8d_states ! 67 = 1" "utf8d_states ! 68 = 1" "utf8d_states ! 69 = 1"
  "utf8d_states ! 70 = 1" "utf8d_states ! 71 = 2" "utf8d_states ! 72 = 1" "utf8d_states ! 73 = 1" "utf8d_states ! 74 = 1" "utf8d_states ! 75 = 1"
  "utf8d_states ! 80 = 1" "utf8d_states ! 81 = 2" "utf8d_states ! 82 = 1" "utf8d_states ! 83 = 1" "utf8d_states ! 84 = 1" "utf8d_states ! 85 = 1"
  "utf8d_states ! 86 = 1" "utf8d_states ! 87 = 1" "utf8d_states ! 88 = 1" "utf8d_states ! 89 = 2" "utf8d_states ! 90 = 1" "utf8d_states ! 91 = 1"
  "utf8d_states ! 96 = 1" "utf8d_states ! 97 = 1" "utf8d_states ! 98 = 1" "utf8d_states ! 99 = 1" "utf8d_states ! 100 = 1" "utf8d_states ! 101 = 1"
  "utf8d_states ! 102 = 1" "utf8d_states ! 103 = 3" "utf8d_states ! 104 = 1" "utf8d_states ! 105 = 3" "utf8d_states ! 106 = 1" "utf8d_states ! 107 = 1"
  "utf8d_states ! 112 = 1" "utf8d_states ! 113 = 3" "utf8d_states ! 114 = 1" "utf8d_states ! 115 = 1" "utf8d_states ! 116 = 1" "utf8d_states ! 117 = 1"
  "utf8d_states ! 118 = 1" "utf8d_states ! 119 = 3" "utf8d_states ! 120 = 1" "utf8d_states ! 121 = 3" "utf8d_states ! 122 = 1" "utf8d_states ! 123 = 1"
  "utf8d_states ! 128 = 1" "utf8d_states ! 129 = 3" "utf8d_states ! 130 = 1" "utf8d_states ! 131 = 1" "utf8d_states ! 132 = 1" "utf8d_states ! 133 = 1"
  "utf8d_states ! 134 = 1" "utf8d_states ! 135 = 1" "utf8d_states ! 136 = 1" "utf8d_states ! 137 = 1" "utf8d_states ! 138 = 1" "utf8d_states ! 139 = 1"
  by (simp_all add: utf8d_states_def)

text \<open>The first byte of a sequence.\<close>

lemma decode_first:
  assumes "b < 256"
  shows "fst (decode 0 cp b) = (if b < 0x80 then 0 else case continuation_ranges b of None \<Rightarrow> 1 | Some rs \<Rightarrow> range_state rs)"
proof -
  have d: "fst (decode 0 cp b) = utf8d_states ! (utf8d ! b)" by (simp add: decode_def Let_def utf8d_state)
  show ?thesis unfolding d
    by (simp add: utf8d_byte [OF assms] utf8d_states_nth continuation_ranges_def range_state_def split: if_split) arith
qed

lemma decode_continue:
  assumes "rs \<in> range_lists" and "b < 256"
  shows "fst (decode (range_state rs) cp b) = (if fst (hd rs) \<le> b \<and> b \<le> snd (hd rs) then range_state (tl rs) else 1)"
proof -
  have d: "fst (decode (range_state rs) cp b) = utf8d_states ! (range_state rs * 16 + utf8d ! b)"
    using utf8d_state [of "range_state rs * 16 + utf8d ! b"] by (simp add: decode_def Let_def add.assoc)
  show ?thesis using assms(1) unfolding d range_lists_def utf8d_byte [OF assms(2)]
    by (elim insertE emptyE; simp add: utf8d_states_nth range_state_def)
qed

lemma continuation_ranges_lists: "continuation_ranges b = Some rs \<Longrightarrow> rs \<in> range_lists \<and> 0x80 \<le> b"
  by (auto simp: continuation_ranges_def range_lists_def split: if_splits)

lemma range_lists_tl: "rs \<in> range_lists \<Longrightarrow> tl rs = [] \<or> tl rs \<in> range_lists" "rs \<in> range_lists \<Longrightarrow> rs \<noteq> []"
  by (auto simp: range_lists_def)

lemma range_state_pos: "rs \<in> range_lists \<Longrightarrow> range_state rs \<noteq> 0 \<and> range_state rs \<noteq> 1"
  by (auto simp: range_lists_def range_state_def)

subsection \<open>The buffer is never left\<close>

text \<open>Between two bytes: what is buffered is what was accepted, at most 499 bytes of it, and, unless it will be escaped as a whole, the
  bytes of the sequence that has been started.\<close>

definition escaper_ok :: "bool \<Rightarrow> escaper \<Rightarrow> bool" where
  "escaper_ok ensure_ascii x \<longleftrightarrow> bytes_after_last_accept x \<le> 499 \<and> bytes_after_last_accept x \<le> length (string_buffer x)
     \<and> length (string_buffer x) \<le> bytes_after_last_accept x + (if ensure_ascii then 0 else undumped_chars x)
     \<and> ((utf8_state x = 0 \<and> undumped_chars x = 0) \<or>
        (\<exists>rs \<in> range_lists. utf8_state x = range_state rs \<and> undumped_chars x + length rs \<le> 4))"

lemma escape_codepoint_length:
  "length (fst (escape_codepoint e cp c)) + snd (escape_codepoint e cp c) \<le> (if e then 13 else 7)"
  by (simp add: escape_codepoint_def Let_def hex4_lower_def)

lemma undumped_le_3: "escaper_ok e x \<Longrightarrow> undumped_chars x \<le> 3"
proof -
  assume "escaper_ok e x"
  moreover have "rs \<in> range_lists \<Longrightarrow> 1 \<le> length rs" for rs by (auto simp: range_lists_def)
  ultimately show ?thesis unfolding escaper_ok_def by fastforce
qed

lemma length_flush: "length (string_buffer x) \<le> 512 \<Longrightarrow> length (string_buffer (flush_buffer x)) \<le> 499"
  by (auto simp: flush_buffer_def)

lemma escape_accept_ok:
  assumes "bytes_after_last_accept x \<le> 499" and "length (string_buffer x) \<le> bytes_after_last_accept x + (if e then 0 else 3)"
    and "utf8_state x = 0"
  shows "\<exists>y. escape_accept e c x = Inr y \<and> escaper_ok e y"
proof -
  obtain t extra where t: "escape_codepoint e (codepoint x) c = (t, extra)" by fastforce
  have "length (string_buffer x) + length t + extra \<le> 512"
    using escape_codepoint_length [of e "codepoint x" c] assms(1,2) t by (auto split: if_splits)
  then have p: "put_buffer t extra x = Inr (x\<lparr>string_buffer := string_buffer x @ t\<rparr>)" by (simp add: put_buffer_def)
  let ?y = "flush_buffer (x\<lparr>string_buffer := string_buffer x @ t\<rparr>)"
  have "length (string_buffer ?y) \<le> 499" using \<open>length (string_buffer x) + length t + extra \<le> 512\<close> by (intro length_flush) simp
  moreover have "utf8_state ?y = 0" using assms(3) by (simp add: flush_buffer_def)
  ultimately show ?thesis by (simp add: escape_accept_def t p jbind_def escaper_ok_def Let_def)
qed

lemma escape_reject_ok:
  assumes "bytes_after_last_accept x \<le> 499" and "bytes_after_last_accept x \<le> length (string_buffer x)"
  shows "\<exists>y. escape_reject h e x = Inr y \<and> escaper_ok e y"
proof (cases "h = Replace")
  case True
  let ?x = "x\<lparr>string_buffer := take (bytes_after_last_accept x) (string_buffer x)\<rparr>"
  have l: "length (replacement e) \<le> 6" by (simp add: replacement_def)
  then have p: "put_buffer (replacement e) 0 ?x = Inr (?x\<lparr>string_buffer := string_buffer ?x @ replacement e\<rparr>)"
    using assms by (simp add: put_buffer_def)
  have "length (string_buffer (flush_buffer (?x\<lparr>string_buffer := string_buffer ?x @ replacement e\<rparr>))) \<le> 499"
    using l assms by (intro length_flush) simp
  then show ?thesis using True p by (simp add: escape_reject_def jbind_def escaper_ok_def Let_def)
next
  case False
  then show ?thesis using assms by (simp add: escape_reject_def jbind_def escaper_ok_def)
qed

lemma escape_incomplete_ok:
  assumes "bytes_after_last_accept x \<le> 499" and "bytes_after_last_accept x \<le> length (string_buffer x)"
    and "length (string_buffer x) \<le> bytes_after_last_accept x + (if e then 0 else undumped_chars x)" and "undumped_chars x \<le> 3"
    and "rs \<in> range_lists" and "utf8_state x = range_state rs" and "undumped_chars x + length rs \<le> 3"
  shows "\<exists>y. escape_incomplete e c x = Inr y \<and> escaper_ok e y"
proof -
  have "escape_incomplete e c x = Inr ((if e then x else x\<lparr>string_buffer := string_buffer x @ [c]\<rparr>)\<lparr>undumped_chars := undumped_chars x + 1\<rparr>)"
    using assms(1,3,4) by (simp add: escape_incomplete_def put_buffer_def jbind_def split: if_splits)
  moreover have "escaper_ok e ((if e then x else x\<lparr>string_buffer := string_buffer x @ [c]\<rparr>)\<lparr>undumped_chars := undumped_chars x + 1\<rparr>)"
    using assms unfolding escaper_ok_def by auto
  ultimately show ?thesis by blast
qed

text \<open>The state after a byte, from either kind of state.\<close>

lemma decode_ok_state:
  assumes "(st = 0 \<and> n = 0) \<or> (\<exists>rs \<in> range_lists. st = range_state rs \<and> n + length rs \<le> 4)" and "b < 256"
  shows "fst (decode st cp b) = 0 \<or> fst (decode st cp b) = 1 \<or> (\<exists>rs \<in> range_lists. fst (decode st cp b) = range_state rs \<and> n + length rs \<le> 3)"
  using assms(1)
proof (elim disjE bexE conjE)
  assume st: "st = 0" "n = 0"
  have "length rs \<le> 3" if "rs \<in> range_lists" for rs using that by (auto simp: range_lists_def)
  then show ?thesis using decode_first [OF assms(2), of cp] continuation_ranges_lists [of b] st
    by (fastforce split: option.splits if_splits)
next
  fix rs assume rs: "rs \<in> range_lists" "st = range_state rs" "n + length rs \<le> 4"
  have "n + length (tl rs) \<le> 3" using rs(3) range_lists_tl(2) [OF rs(1)] by (cases rs) auto
  then show ?thesis using decode_continue [OF rs(1) assms(2), of cp] range_lists_tl(1) [OF rs(1)] rs(2)
    by (auto simp: range_state_def)
qed

lemma escape_loop_ok:
  "escaper_ok e x \<Longrightarrow> escape_loop h e i s x \<noteq> Inl JsonOverflow \<and> (\<forall>y. escape_loop h e i s x = Inr y \<longrightarrow> escaper_ok e y)"
proof (induction h e i s x rule: escape_loop.induct)
  case (2 h e i c cs x)
  obtain st cp where d: "decode (utf8_state x) (codepoint x) (code c) = (st, cp)" by fastforce
  let ?y = "x\<lparr>utf8_state := st, codepoint := cp\<rparr>"
  note inv = "2.prems"
  have b: "bytes_after_last_accept x \<le> 499" "bytes_after_last_accept x \<le> length (string_buffer x)"
    "length (string_buffer x) \<le> bytes_after_last_accept x + (if e then 0 else undumped_chars x)" "undumped_chars x \<le> 3"
    using inv undumped_le_3 [OF inv] unfolding escaper_ok_def by blast+
  have c256: "code c < 256" by (rule of_char_lt_256)
  have st: "st = 0 \<or> st = 1 \<or> (\<exists>rs \<in> range_lists. st = range_state rs \<and> undumped_chars x + length rs \<le> 3)"
    using decode_ok_state [of "utf8_state x" "undumped_chars x" "code c" "codepoint x"] inv c256 d unfolding escaper_ok_def by auto
  note eq = escape_loop.simps(2) [of h e i c cs x]
  consider (accept) "st = 0" | (reject) "st = 1" | (more) rs where "rs \<in> range_lists" "st = range_state rs" "undumped_chars x + length rs \<le> 3"
    using st by blast
  then show ?case
  proof cases
    case accept
    then obtain y where y: "escape_accept e c ?y = Inr y" "escaper_ok e y"
      using escape_accept_ok [of ?y e c] b by (auto split: if_splits)
    then have "escape_loop h e i (c # cs) x = escape_loop h e (i + 1) cs y" using eq d accept by (simp add: jbind_def)
    then show ?thesis using "2.IH"(1) [OF refl d [symmetric] refl accept y] by simp
  next
    case reject
    obtain y where y: "escape_reject h e ?y = Inr y" "escaper_ok e y" using escape_reject_ok [of ?y h e] b by auto
    show ?thesis
    proof (cases "h = Strict")
      case True
      then show ?thesis using eq d reject by (simp add: type_error_create_def)
    next
      case h: False
      show ?thesis
      proof (cases "0 < undumped_chars x")
        case True
        then have "escape_loop h e i (c # cs) x = escape_loop h e i (c # cs) y" using eq d reject h y(1) by simp
        then show ?thesis using "2.IH"(2) [OF refl d [symmetric] refl _ _ h y(1) True y(2)] reject by simp
      next
        case False
        then have "escape_loop h e i (c # cs) x = escape_loop h e (i + 1) cs y" using eq d reject h y(1) by simp
        then show ?thesis using "2.IH"(3) [OF refl d [symmetric] refl _ _ h y(1) False y(2)] reject by simp
      qed
    qed
  next
    case more
    then have ne: "st \<noteq> 0" "st \<noteq> 1" using range_state_pos by auto
    obtain y where y: "escape_incomplete e c ?y = Inr y" "escaper_ok e y"
      using escape_incomplete_ok [of ?y e rs c] b more by (auto split: if_splits)
    then have "escape_loop h e i (c # cs) x = escape_loop h e (i + 1) cs y" using eq d ne by (simp add: jbind_def)
    then show ?thesis using "2.IH"(4) [OF refl d [symmetric] refl ne y] by simp
  qed
qed simp

text \<open>C25: Whatever bytes a string holds and however errors are handled, escaping it stays inside the buffer of 512 bytes.\<close>

theorem dump_escaped_in_bounds: "dump_escaped h e s \<noteq> Inl JsonOverflow"
proof -
  have "escaper_ok e mk_escaper" by (simp add: escaper_ok_def mk_escaper_def)
  from escape_loop_ok [OF this, of h 0 s] show ?thesis
    by (auto simp: dump_escaped_def jbind_def type_error_create_def split: sum.splits error_handler_t.splits)
qed

subsection \<open>Code points\<close>

lemma and_mask_nat: "(x :: nat) AND (2 ^ n - 1) = x mod 2 ^ n"
  by (metis take_bit_eq_mask mask_eq_exp_minus_1 take_bit_eq_mod)

lemma or_shift_nat:
  assumes "x < 2 ^ n"
  shows "(x :: nat) OR push_bit n y = x + y * 2 ^ n"
proof -
  have "x AND push_bit n y = 0"
  proof (rule bit_eqI)
    fix k
    show "bit (x AND push_bit n y) k = bit (0 :: nat) k"
    proof (cases "k < n")
      case True then show ?thesis by (simp add: bit_simps)
    next
      case False
      then have "\<not> bit x k" using assms by (metis bit_take_bit_iff take_bit_nat_eq_self)
      then show ?thesis by (simp add: bit_simps)
    qed
  qed
  then have "x + push_bit n y = x OR push_bit n y" by (rule disjunctive_add_eq_or)
  then show ?thesis by (simp add: push_bit_eq_mult)
qed

lemma utf8_or:
  "x < 64 \<Longrightarrow> 0x80 OR x = 0x80 + (x :: nat)" "x < 64 \<Longrightarrow> 0xC0 OR x = 0xC0 + (x :: nat)"
  "x < 32 \<Longrightarrow> 0xE0 OR x = 0xE0 + (x :: nat)" "x < 16 \<Longrightarrow> 0xF0 OR x = 0xF0 + (x :: nat)"
  using or_shift_nat [of x 6 2] or_shift_nat [of x 6 3] or_shift_nat [of x 5 7] or_shift_nat [of x 4 15]
  by (simp_all add: or.commute push_bit_eq_mult)

lemma utf8_encode_digits:
  "cp < 0x80 \<Longrightarrow> utf8_encode cp = [cp]"
  "a < 32 \<Longrightarrow> x < 64 \<Longrightarrow> 0x80 \<le> a * 64 + x \<Longrightarrow> utf8_encode (a * 64 + x) = [0xC0 + a, 0x80 + x]"
  "a < 16 \<Longrightarrow> x < 64 \<Longrightarrow> y < 64 \<Longrightarrow> 0x800 \<le> (a * 64 + x) * 64 + y \<Longrightarrow>
     utf8_encode ((a * 64 + x) * 64 + y) = [0xE0 + a, 0x80 + x, 0x80 + y]"
  "a < 8 \<Longrightarrow> x < 64 \<Longrightarrow> y < 64 \<Longrightarrow> z < 64 \<Longrightarrow> 0x10000 \<le> ((a * 64 + x) * 64 + y) * 64 + z \<Longrightarrow>
     utf8_encode (((a * 64 + x) * 64 + y) * 64 + z) = [0xF0 + a, 0x80 + x, 0x80 + y, 0x80 + z]"
proof -
  have low: "n AND 0x3F = n mod 64" for n :: nat using and_mask_nat [of n 6] by simp
  have d: "(k * 64 + x) div 64 = k" "(k * 64 + x) mod 64 = x" if "x < 64" for k x :: nat using that by simp_all
  have dd: "drop_bit 6 n = n div 64" "drop_bit 12 n = n div 64 div 64" "drop_bit 18 n = n div 64 div 64 div 64" for n :: nat
    by (simp_all add: drop_bit_eq_div div_mult2_eq [symmetric])
  show "cp < 0x80 \<Longrightarrow> utf8_encode cp = [cp]" by (simp add: utf8_encode_def)
  show "utf8_encode (a * 64 + x) = [0xC0 + a, 0x80 + x]" if "a < 32" "x < 64" "0x80 \<le> a * 64 + x"
    unfolding utf8_encode_def dd low using that by (simp add: d utf8_or)
  show "utf8_encode ((a * 64 + x) * 64 + y) = [0xE0 + a, 0x80 + x, 0x80 + y]"
    if "a < 16" "x < 64" "y < 64" "0x800 \<le> (a * 64 + x) * 64 + y"
    unfolding utf8_encode_def dd low d(1) [OF that(3)] d(2) [OF that(3)] using that by (simp add: d utf8_or)
  show "utf8_encode (((a * 64 + x) * 64 + y) * 64 + z) = [0xF0 + a, 0x80 + x, 0x80 + y, 0x80 + z]"
    if "a < 8" "x < 64" "y < 64" "z < 64" "0x10000 \<le> ((a * 64 + x) * 64 + y) * 64 + z"
    unfolding utf8_encode_def dd low d(1) [OF that(4)] d(2) [OF that(4)] d(1) [OF that(3)] d(2) [OF that(3)]
    using that by (simp add: d utf8_or)
qed

text \<open>The code point the decoder computes for a sequence.\<close>

definition lead_value :: "nat \<Rightarrow> nat" where
  "lead_value b = (if b < 0x80 then b else if b < 0xE0 then b - 0xC0 else if b < 0xF0 then b - 0xE0 else b - 0xF0)"

abbreviation next_value :: "nat \<Rightarrow> char \<Rightarrow> nat" where
  "next_value cp c \<equiv> cp * 64 + (code c - 0x80)"

lemma decode_lead_value:
  assumes "b < 0x80 \<or> continuation_ranges b \<noteq> None" and "b < 256"
  shows "snd (decode 0 cp b) = lead_value b"
proof -
  have m: "(63 :: nat) AND b = b mod 64" "(31 :: nat) AND b = b mod 32" "(15 :: nat) AND b = b mod 16" "(7 :: nat) AND b = b mod 8"
    "(3 :: nat) AND b = b mod 4" "(255 :: nat) AND b = b mod 256"
    using and_mask_nat [of b 6] and_mask_nat [of b 5] and_mask_nat [of b 4] and_mask_nat [of b 3] and_mask_nat [of b 2] and_mask_nat [of b 8]
    by (simp_all add: and.commute)
  have s: "snd (decode 0 cp b) = (drop_bit (utf8d ! b) 255 AND b)" by (simp add: decode_def Let_def)
  have r: "b < 0x80 \<or> 0xC2 \<le> b \<and> b < 0xF5" using assms(1) by (auto simp: continuation_ranges_def split: if_splits)
  have e: "b mod 64 = b - 0xC0" if "0xC0 \<le> b" "b < 0x100" using that mod_if [of b 64] by (auto simp: mod_if)
  consider "b < 0x80" | "0xC2 \<le> b" "b < 0xE0" | "b = 0xE0" | "0xE1 \<le> b" "b < 0xED" | "b = 0xED" | "0xEE \<le> b" "b < 0xF0"
    | "b = 0xF0" | "b = 0xF1" | "b = 0xF2" | "b = 0xF3" | "b = 0xF4" using r by linarith
  then have "(drop_bit (utf8d ! b) 255 AND b) = lead_value b"
  proof cases
    case 2
    then show ?thesis using e by (simp add: utf8d_range drop_bit_eq_div m lead_value_def)
  next
    case 4
    then have "b mod 32 = b - 0xE0" by (auto simp: mod_if)
    then show ?thesis using 4 by (simp add: utf8d_range drop_bit_eq_div m lead_value_def)
  next
    case 6
    then have "b mod 32 = b - 0xE0" by (auto simp: mod_if)
    then show ?thesis using 6 by (simp add: utf8d_range drop_bit_eq_div m lead_value_def)
  qed (simp_all add: utf8d_byte drop_bit_eq_div m lead_value_def)
  then show ?thesis unfolding s .
qed

lemma decode_next_value:
  assumes "st \<noteq> 0" and "0x80 \<le> code c" and "code c \<le> 0xBF"
  shows "snd (decode st cp (code c)) = next_value cp c"
proof -
  have "code c AND 0x3F = code c mod 64" using and_mask_nat [of "code c" 6] by simp
  also have "\<dots> = code c - 0x80" using assms(2,3) by (auto simp: mod_if)
  finally have a: "code c AND 0x3F = code c - 0x80" .
  have "code c - 0x80 < 2 ^ 6" using assms(3) by simp
  from or_shift_nat [OF this, of cp] show ?thesis using assms(1) a by (simp add: decode_def Let_def)
qed

end
