(* ===== verification/JsonEscape.thy ===== *)
theory JsonEscape
  imports JsonStrings
begin

text \<open>
  Escaping and reading back. A byte string is well-formed when it splits into sequences whose bytes lie in the ranges of the lexer
  (\<open>utf8_chars\<close>); then the serializer writes the text of one sequence after the other, and the lexer reads each back. A string that is
  not well-formed is refused.
\<close>

subsection \<open>Well-formed strings\<close>

function utf8_chars :: "string \<Rightarrow> string list option" where
  "utf8_chars [] = Some []"
| "utf8_chars (c # cs) = (if code c < 0x80 then map_option (Cons [c]) (utf8_chars cs)
     else (case continuation_ranges (code c) of None \<Rightarrow> None
       | Some rs \<Rightarrow> (case read_seq rs cs of None \<Rightarrow> None | Some (b, t) \<Rightarrow> map_option (Cons (c # b)) (utf8_chars t))))"
  by pat_completeness auto

termination
  by (relation "measure length") (auto dest: read_seq_shorter)

definition utf8_ok :: "string \<Rightarrow> bool" where
  "utf8_ok s \<longleftrightarrow> utf8_chars s \<noteq> None"

lemma read_seq_append: "read_seq rs s = Some (b, t) \<Longrightarrow> s = b @ t \<and> length b = length rs"
  by (induction rs s arbitrary: b rule: read_seq.induct) (auto split: if_splits)

lemma utf8_chars_concat: "utf8_chars s = Some us \<Longrightarrow> concat us = s"
proof (induction s arbitrary: us rule: utf8_chars.induct)
  case (2 c cs)
  then show ?case by (fastforce split: if_splits option.splits dest: read_seq_append)
qed simp

subsection \<open>One sequence\<close>

definition seq_value :: "string \<Rightarrow> nat" where
  "seq_value w = foldl next_value (lead_value (code (hd w))) (tl w)"

text \<open>The text of a sequence.\<close>

definition char_text :: "bool \<Rightarrow> string \<Rightarrow> string" where
  "char_text e w = (if length w = 1 \<or> e then fst (escape_codepoint e (seq_value w) (last w)) else w)"

abbreviation dumped :: "escaper \<Rightarrow> string" where
  "dumped x \<equiv> written x @ string_buffer x"

lemma escape_accept_dumped:
  "escape_accept e c x = Inr y \<Longrightarrow>
     dumped y = dumped x @ fst (escape_codepoint e (codepoint x) c) \<and> utf8_state y = utf8_state x \<and> undumped_chars y = 0"
  by (auto simp: escape_accept_def jbind_def put_buffer_def flush_buffer_def Let_def split: prod.splits sum.splits if_splits)

lemma escape_incomplete_dumped:
  "escape_incomplete e c x = Inr y \<Longrightarrow>
     dumped y = dumped x @ (if e then [] else [c]) \<and> utf8_state y = utf8_state x \<and> codepoint y = codepoint x"
  by (auto simp: escape_incomplete_def jbind_def put_buffer_def split: sum.splits if_splits)

text \<open>A step of the loop that accepts, and one that goes on.\<close>

lemma loop_accept:
  assumes "escaper_ok e x" and "decode (utf8_state x) (codepoint x) (code c) = (0, cp)"
  obtains y where "escape_loop h e i (c # cs) x = escape_loop h e (i + 1) cs y" "escaper_ok e y" "utf8_state y = 0" "undumped_chars y = 0"
    "dumped y = dumped x @ fst (escape_codepoint e cp c)"
proof -
  let ?x = "x\<lparr>utf8_state := 0, codepoint := cp\<rparr>"
  have "bytes_after_last_accept x \<le> 499" "length (string_buffer x) \<le> bytes_after_last_accept x + (if e then 0 else 3)"
    using assms(1) undumped_le_3 [OF assms(1)] unfolding escaper_ok_def by (auto split: if_splits)
  then obtain y where y: "escape_accept e c ?x = Inr y" "escaper_ok e y" using escape_accept_ok [of ?x e c] by auto
  have "escape_loop h e i (c # cs) x = escape_loop h e (i + 1) cs y" using assms(2) y(1) by (simp add: escape_loop.simps(2) jbind_def)
  then show ?thesis using that [OF _ y(2)] escape_accept_dumped [OF y(1)] by simp
qed

lemma loop_incomplete:
  assumes "escaper_ok e x" and "decode (utf8_state x) (codepoint x) (code c) = (st, cp)" and "st \<noteq> 0" "st \<noteq> 1"
  obtains y where "escape_loop h e i (c # cs) x = escape_loop h e (i + 1) cs y" "escaper_ok e y" "utf8_state y = st" "codepoint y = cp"
    "dumped y = dumped x @ (if e then [] else [c])"
proof -
  let ?x = "x\<lparr>utf8_state := st, codepoint := cp\<rparr>"
  have b: "bytes_after_last_accept x \<le> 499" "bytes_after_last_accept x \<le> length (string_buffer x)"
    "length (string_buffer x) \<le> bytes_after_last_accept x + (if e then 0 else undumped_chars x)" "undumped_chars x \<le> 3"
    using assms(1) undumped_le_3 [OF assms(1)] unfolding escaper_ok_def by blast+
  obtain rs where rs: "rs \<in> range_lists" "st = range_state rs" "undumped_chars x + length rs \<le> 3"
    using decode_ok_state [of "utf8_state x" "undumped_chars x" "code c" "codepoint x"] assms of_char_lt_256 [of c] unfolding escaper_ok_def by auto
  obtain y where y: "escape_incomplete e c ?x = Inr y" "escaper_ok e y"
    using escape_incomplete_ok [of ?x e rs c] b rs by (auto split: if_splits)
  have "escape_loop h e i (c # cs) x = escape_loop h e (i + 1) cs y" using assms(2-4) y(1) by (simp add: escape_loop.simps(2) jbind_def)
  then show ?thesis using that [OF _ y(2)] escape_incomplete_dumped [OF y(1)] by simp
qed

lemma loop_reject:
  assumes "fst (decode (utf8_state x) (codepoint x) (code c)) = 1"
  shows "\<exists>m. escape_loop Strict e i (c # cs) x = Inl (TypeException 316 m)"
  using assms by (cases "decode (utf8_state x) (codepoint x) (code c)") (auto simp: escape_loop.simps(2) type_error_create_def)

lemma range_list_bounds: "rs \<in> range_lists \<Longrightarrow> 0x80 \<le> fst (hd rs) \<and> snd (hd rs) \<le> 0xBF"
  by (auto simp: range_lists_def)

text \<open>The bytes after the first.\<close>

lemma loop_sequence:
  assumes "rs \<in> range_lists" and "escaper_ok e x" and "utf8_state x = range_state rs" and "read_seq rs s = Some (b, t)"
  obtains y where "escape_loop h e i s x = escape_loop h e (i + length b) t y" "escaper_ok e y" "utf8_state y = 0" "undumped_chars y = 0"
    "dumped y = dumped x @ (if e then [] else butlast b) @ fst (escape_codepoint e (foldl next_value (codepoint x) b) (last b))"
  using assms
proof (induction rs arbitrary: s b x i thesis)
  case (Cons r rs)
  obtain c cs b' where s: "s = c # cs" "in_range (fst r) (snd r) (Some c)" "read_seq rs cs = Some (b', t)" "b = c # b'"
    using Cons.prems(5) by (cases s) (auto split: if_splits)
  have c: "0x80 \<le> code c" "code c \<le> 0xBF" using range_list_bounds [OF Cons.prems(2)] s(2) by (auto simp: in_range_def)
  have st: "fst (decode (utf8_state x) (codepoint x) (code c)) = range_state rs"
    using decode_continue [OF Cons.prems(2) of_char_lt_256, of "codepoint x" c] s(2) Cons.prems(4) by (simp add: in_range_def)
  have "utf8_state x \<noteq> 0" using Cons.prems(4) range_state_pos [OF Cons.prems(2)] by simp
  then have d: "decode (utf8_state x) (codepoint x) (code c) = (range_state rs, next_value (codepoint x) c)"
    using st decode_next_value [OF _ c, of "utf8_state x" "codepoint x"] by (metis prod.collapse)
  show ?case
  proof (cases "rs = []")
    case True
    then have b: "b' = []" "cs = t" using s(3) by auto
    have "decode (utf8_state x) (codepoint x) (code c) = (0, next_value (codepoint x) c)" using d True by (simp add: range_state_def)
    from loop_accept [OF Cons.prems(3) this, of h i cs] obtain y where
      "escape_loop h e i (c # cs) x = escape_loop h e (i + 1) cs y" "escaper_ok e y" "utf8_state y = 0" "undumped_chars y = 0"
      "dumped y = dumped x @ fst (escape_codepoint e (next_value (codepoint x) c) c)" by blast
    then show ?thesis using Cons.prems(1) [of y] s b by simp
  next
    case False
    have rs: "rs \<in> range_lists" using range_lists_tl(1) [OF Cons.prems(2)] False by simp
    from loop_incomplete [OF Cons.prems(3) d, of h i cs] obtain y where y:
      "escape_loop h e i (c # cs) x = escape_loop h e (i + 1) cs y" "escaper_ok e y" "utf8_state y = range_state rs"
      "codepoint y = next_value (codepoint x) c" "dumped y = dumped x @ (if e then [] else [c])"
      using range_state_pos [OF rs] by blast
    have "b' \<noteq> []" using read_seq_append [OF s(3)] False by auto
    from Cons.IH [OF _ rs y(2,3) s(3), of "i + 1"] obtain z where
      "escape_loop h e (i + 1) cs y = escape_loop h e (i + 1 + length b') t z" "escaper_ok e z" "utf8_state z = 0" "undumped_chars z = 0"
      "dumped z = dumped y @ (if e then [] else butlast b') @ fst (escape_codepoint e (foldl next_value (codepoint y) b') (last b'))" by blast
    then show ?thesis using Cons.prems(1) [of z] s y \<open>b' \<noteq> []\<close> by (simp split: if_splits)
  qed
qed (simp add: range_lists_def)

text \<open>A sequence of several bytes encodes its value, which is a code point outside ASCII and no surrogate.\<close>

lemma read_seq_ranges: "read_seq rs s = Some (b, t) \<Longrightarrow> list_all2 (\<lambda>r c. fst r \<le> code c \<and> code c \<le> snd r) rs b"
  by (induction rs s arbitrary: b rule: read_seq.induct) (auto simp: in_range_def split: if_splits)

lemma read_seq_exact:
  "list_all2 (\<lambda>r c. fst r \<le> code c \<and> code c \<le> snd r) rs b \<Longrightarrow> read_seq rs (b @ t) = Some (b, t)"
  by (induction rs b rule: list_all2_induct) (auto simp: in_range_def)

lemma seq_value_2:
  assumes "0xC2 \<le> code c" "code c \<le> 0xDF" "0x80 \<le> code d" "code d \<le> 0xBF"
  shows "utf8_encode (seq_value [c, d]) = map code [c, d]" "0x80 \<le> seq_value [c, d]" "seq_value [c, d] < 0x800"
proof -
  have v: "seq_value [c, d] = (code c - 0xC0) * 64 + (code d - 0x80)" using assms by (simp add: seq_value_def lead_value_def)
  show "0x80 \<le> seq_value [c, d]" "seq_value [c, d] < 0x800" unfolding v distrib_right mult.assoc using assms by linarith+
  then show "utf8_encode (seq_value [c, d]) = map code [c, d]"
    unfolding v distrib_right mult.assoc using utf8_encode_digits(2) [of "code c - 0xC0" "code d - 0x80"] assms by simp
qed

lemma seq_value_3:
  assumes "0xE0 \<le> code c" "code c \<le> 0xEF" "0x80 \<le> code d" "code d \<le> 0xBF" "0x80 \<le> code f" "code f \<le> 0xBF"
    and "code c = 0xE0 \<Longrightarrow> 0xA0 \<le> code d" and "code c = 0xED \<Longrightarrow> code d \<le> 0x9F"
  shows "utf8_encode (seq_value [c, d, f]) = map code [c, d, f]" "0x800 \<le> seq_value [c, d, f]" "seq_value [c, d, f] < 0x10000"
    "\<not> (0xD800 \<le> seq_value [c, d, f] \<and> seq_value [c, d, f] \<le> 0xDFFF)"
proof -
  define a x y where axy: "a = code c - 0xE0" "x = code d - 0x80" "y = code f - 0x80"
  have c: "code c = 0xE0 + a" "code d = 0x80 + x" using assms(1,3) by (simp_all add: axy)
  have r: "a < 16" "x < 64" "y < 64" using assms by (auto simp: axy)
  have r': "a = 0 \<Longrightarrow> 32 \<le> x" "a = 13 \<Longrightarrow> x < 32" using assms(7,8) unfolding c by auto
  have lo: "a = 0 \<and> 32 \<le> x \<or> 1 \<le> a" using r'(1) by (cases "a = 0") auto
  have v: "seq_value [c, d, f] = (a * 64 + x) * 64 + y" using assms by (simp add: seq_value_def lead_value_def axy)
  show b: "0x800 \<le> seq_value [c, d, f]" unfolding v distrib_right mult.assoc using lo by (elim disjE conjE) linarith+
  show "seq_value [c, d, f] < 0x10000" unfolding v distrib_right mult.assoc using r by linarith
  show "\<not> (0xD800 \<le> seq_value [c, d, f] \<and> seq_value [c, d, f] \<le> 0xDFFF)"
  proof (cases "a = 13")
    case False
    then have "a \<le> 12 \<or> 14 \<le> a" by linarith
    then show ?thesis unfolding v distrib_right mult.assoc using r(2,3) by (elim disjE) linarith+
  qed (use r r' in \<open>simp add: v\<close>)
  show "utf8_encode (seq_value [c, d, f]) = map code [c, d, f]"
    using utf8_encode_digits(3) [of a x y] r b assms(1,3,5) unfolding v by (simp add: axy)
qed

lemma seq_value_4:
  assumes "0xF0 \<le> code c" "code c \<le> 0xF4" "0x80 \<le> code d" "code d \<le> 0xBF" "0x80 \<le> code f" "code f \<le> 0xBF" "0x80 \<le> code g" "code g \<le> 0xBF"
    and "code c = 0xF0 \<Longrightarrow> 0x90 \<le> code d" and "code c = 0xF4 \<Longrightarrow> code d \<le> 0x8F"
  shows "utf8_encode (seq_value [c, d, f, g]) = map code [c, d, f, g]" "0x10000 \<le> seq_value [c, d, f, g]" "seq_value [c, d, f, g] < 0x110000"
proof -
  define a x y z where axyz: "a = code c - 0xF0" "x = code d - 0x80" "y = code f - 0x80" "z = code g - 0x80"
  have c: "code c = 0xF0 + a" "code d = 0x80 + x" using assms(1,3) by (simp_all add: axyz)
  have r: "a < 5" "x < 64" "y < 64" "z < 64" using assms by (auto simp: axyz)
  have r': "a = 0 \<Longrightarrow> 16 \<le> x" "a = 4 \<Longrightarrow> x < 16" using assms(9,10) unfolding c by auto
  have lo: "a = 0 \<and> 16 \<le> x \<or> 1 \<le> a" using r'(1) by (cases "a = 0") auto
  have hi: "a = 4 \<and> x < 16 \<or> a \<le> 3" using r(1) r'(2) by (cases "a = 4") auto
  have v: "seq_value [c, d, f, g] = ((a * 64 + x) * 64 + y) * 64 + z" using assms by (simp add: seq_value_def lead_value_def axyz)
  show b: "0x10000 \<le> seq_value [c, d, f, g]" unfolding v distrib_right mult.assoc using lo by (elim disjE conjE) linarith+
  show "seq_value [c, d, f, g] < 0x110000" unfolding v distrib_right mult.assoc using hi r(2-4) by (elim disjE conjE) linarith+
  show "utf8_encode (seq_value [c, d, f, g]) = map code [c, d, f, g]"
    using utf8_encode_digits(4) [of a x y z] r b(1) assms(1,3,5,7) unfolding v by (simp add: axyz)
qed

definition seq_ok :: "string \<Rightarrow> bool" where
  "seq_ok w \<longleftrightarrow> utf8_encode (seq_value w) = map code w \<and> 0x80 \<le> seq_value w \<and> seq_value w < 0x110000
     \<and> \<not> (0xD800 \<le> seq_value w \<and> seq_value w \<le> 0xDFFF)"

lemma sequence_ok:
  assumes "continuation_ranges (code c) = Some rs" and "read_seq rs cs = Some (b, t)"
  shows "seq_ok (c # b)"
proof -
  note ra = read_seq_ranges [OF assms(2)]
  consider (two) "0xC2 \<le> code c" "code c \<le> 0xDF" "rs = [(0x80, 0xBF)]"
    | (three) lo hi where "0xE0 \<le> code c" "code c \<le> 0xEF" "rs = [(lo, hi), (0x80, 0xBF)]" "0x80 \<le> lo" "hi \<le> 0xBF"
        "code c = 0xE0 \<Longrightarrow> lo = 0xA0" "code c = 0xED \<Longrightarrow> hi = 0x9F"
    | (four) lo hi where "0xF0 \<le> code c" "code c \<le> 0xF4" "rs = [(lo, hi), (0x80, 0xBF), (0x80, 0xBF)]" "0x80 \<le> lo" "hi \<le> 0xBF"
        "code c = 0xF0 \<Longrightarrow> lo = 0x90" "code c = 0xF4 \<Longrightarrow> hi = 0x8F"
    using assms(1) unfolding continuation_ranges_def by (force split: if_splits)
  then show ?thesis
  proof cases
    case two
    then obtain d where d: "b = [d]" "0x80 \<le> code d" "code d \<le> 0xBF" using ra by (auto simp: list_all2_Cons1)
    show ?thesis using seq_value_2 [OF two(1,2) d(2,3)] d(1) by (simp add: seq_ok_def)
  next
    case three
    then obtain d f where d: "b = [d, f]" "lo \<le> code d" "code d \<le> hi" "0x80 \<le> code f" "code f \<le> 0xBF" using ra by (auto simp: list_all2_Cons1)
    have "utf8_encode (seq_value [c, d, f]) = map code [c, d, f]" "0x800 \<le> seq_value [c, d, f]" "seq_value [c, d, f] < 0x10000"
      "\<not> (0xD800 \<le> seq_value [c, d, f] \<and> seq_value [c, d, f] \<le> 0xDFFF)"
      using seq_value_3 [of c d f] three d by auto
    then show ?thesis unfolding seq_ok_def d(1) by linarith
  next
    case four
    then obtain d f g where d: "b = [d, f, g]" "lo \<le> code d" "code d \<le> hi" "0x80 \<le> code f" "code f \<le> 0xBF" "0x80 \<le> code g" "code g \<le> 0xBF"
      using ra by (auto simp: list_all2_Cons1)
    have "utf8_encode (seq_value [c, d, f, g]) = map code [c, d, f, g]" "0x10000 \<le> seq_value [c, d, f, g]" "seq_value [c, d, f, g] < 0x110000"
      using seq_value_4 [of c d f g] four d by auto
    then show ?thesis unfolding seq_ok_def d(1) by linarith
  qed
qed

subsection \<open>Reading an escape\<close>

lemma hex_value_lower: "d < 16 \<Longrightarrow> hex_value (Some (hex_lower d)) = Some d"
  by (auto simp: hex_lower_def hex_value_def in_range_def)

lemma hex_digits_sum:
  assumes "n < 0x10000"
  shows "push_bit 12 (n div 4096 mod 16) + push_bit 8 (n div 256 mod 16) + push_bit 4 (n div 16 mod 16) + n mod 16 = (n :: nat)"
proof -
  have e: "n div 256 = n div 16 div 16" "n div 4096 = n div 16 div 16 div 16" by (simp_all add: div_mult2_eq [symmetric])
  have "n div 16 div 16 div 16 < 16" using assms by (simp add: div_mult2_eq [symmetric])
  then have m: "n div 16 div 16 div 16 mod 16 = n div 16 div 16 div 16" by simp
  have p: "push_bit 12 x = x * 4096" "push_bit 8 x = x * 256" "push_bit 4 x = x * 16" for x :: nat by (simp_all add: push_bit_eq_mult)
  have "n = 16 * (n div 16) + n mod 16" "n div 16 = 16 * (n div 16 div 16) + n div 16 mod 16"
    "n div 16 div 16 = 16 * (n div 16 div 16 div 16) + n div 16 div 16 mod 16" by simp_all
  then show ?thesis unfolding e p m by linarith
qed

lemma read_hex4_lower: "n < 0x10000 \<Longrightarrow> read_hex4 (hex4_lower n @ s) = Some (n, s)"
  using hex_digits_sum [of n] by (simp add: hex4_lower_def hex_value_lower add.assoc)

lemma read_unicode_bmp:
  "n < 0x10000 \<Longrightarrow> \<not> (0xD800 \<le> n \<and> n \<le> 0xDFFF) \<Longrightarrow> read_unicode (hex4_lower n @ s) = Some (n, s)"
  by (auto simp: read_unicode_def read_hex4_lower)

lemma read_unicode_pair:
  assumes "0x10000 \<le> n" "n < 0x110000"
  shows "read_unicode (hex4_lower ((0xD7C0 + drop_bit 10 n) mod 0x10000) @ CHR 0x5C # CHR ''u'' # hex4_lower ((0xDC00 + (n AND 0x3FF)) mod 0x10000) @ s) = Some (n, s)"
proof -
  define h l where hl: "h = n div 1024" "l = n mod 1024"
  have n: "n = h * 1024 + l" "l < 1024" "64 \<le> h" "h < 1088"
    using assms by (auto simp: hl div_le_mono less_mult_imp_div_less) 
  have "drop_bit 10 n = h" "n AND 0x3FF = l" using and_mask_nat [of n 10] by (simp_all add: hl drop_bit_eq_div)
  then have e: "(0xD7C0 + drop_bit 10 n) mod 0x10000 = 0xD7C0 + h" "(0xDC00 + (n AND 0x3FF)) mod 0x10000 = 0xDC00 + l" using n by simp_all
  have 1: "read_hex4 (hex4_lower (0xD7C0 + h) @ r) = Some (0xD7C0 + h, r)" "read_hex4 (hex4_lower (0xDC00 + l) @ r) = Some (0xDC00 + l, r)" for r
    using n by (simp_all add: read_hex4_lower)
  have 2: "0xD800 \<le> 0xD7C0 + h \<and> 0xD7C0 + h \<le> 0xDBFF" "0xDC00 \<le> 0xDC00 + l \<and> 0xDC00 + l \<le> 0xDFFF" using n by auto
  have 3: "0x10000 + (0xD7C0 + h - 0xD800) * 0x400 + (0xDC00 + l - 0xDC00) = n" using n by linarith
  show ?thesis unfolding read_unicode_def e 1 by (simp add: 1) (use 2 3 in linarith)
qed

lemma code_is: "code c = n \<Longrightarrow> c = char_of n"
  by auto

lemma char_of_special: "char_of (0x08 :: nat) = CHR 0x08" "char_of (0x09 :: nat) = CHR 0x09" "char_of (0x0A :: nat) = CHR 0x0A"
  "char_of (0x0C :: nat) = CHR 0x0C" "char_of (0x0D :: nat) = CHR 0x0D" "char_of (0x22 :: nat) = CHR 0x22" "char_of (0x5C :: nat) = CHR 0x5C"
  by (simp_all add: char_of_def bit_0)

text \<open>The text of one sequence is read back to the sequence.\<close>

definition reads_back :: "bool \<Rightarrow> string \<Rightarrow> bool" where
  "reads_back e w \<longleftrightarrow> char_text e w \<noteq> [] \<and> hd (char_text e w) \<noteq> CHR 0x22 \<and> (\<forall>t. read_char (char_text e w @ t) = Some (w, t))"

lemma ascii_reads_back:
  assumes "code c < 0x80"
  shows "reads_back e [c]"
proof -
  have ct: "char_text e [c] = fst (escape_codepoint e (code c) c)" using assms by (simp add: char_text_def seq_value_def lead_value_def)
  have u: "read_unicode (hex4_lower (code c) @ t) = Some (code c, t)" for t using assms by (simp add: read_unicode_bmp)
  have enc: "map char_of (utf8_encode (code c)) = [c]" using assms by (simp add: utf8_encode_digits(1))
  consider (short) "code c \<in> {0x08, 0x09, 0x0A, 0x0C, 0x0D, 0x22, 0x5C}"
    | (hex) "code c \<notin> {0x08, 0x09, 0x0A, 0x0C, 0x0D, 0x22, 0x5C}" "code c \<le> 0x1F \<or> (e \<and> 0x7F \<le> code c)"
    | (plain) "code c \<notin> {0x08, 0x09, 0x0A, 0x0C, 0x0D, 0x22, 0x5C}" "\<not> (code c \<le> 0x1F \<or> (e \<and> 0x7F \<le> code c))" by blast
  then show ?thesis
  proof cases
    case short
    then show ?thesis unfolding reads_back_def ct
      by (auto simp: escape_codepoint_def Let_def read_char_def simple_escape_def char_of_special dest!: code_is)
  next
    case hex
    then have "fst (escape_codepoint e (code c) c) = CHR 0x5C # ''u'' @ hex4_lower (code c)" using assms by (auto simp: escape_codepoint_def Let_def)
    then show ?thesis unfolding reads_back_def ct by (simp add: read_char_def u enc)
  next
    case plain
    then have e: "fst (escape_codepoint e (code c) c) = [c]" by (auto simp: escape_codepoint_def Let_def)
    have "c \<noteq> CHR 0x22" "c \<noteq> CHR 0x5C" "\<not> code c \<le> 0x1F" "code c \<le> 0x7F" using plain assms by auto
    then show ?thesis unfolding reads_back_def ct e by (simp add: read_char_def)
  qed
qed

lemma sequence_reads_back:
  assumes "continuation_ranges (code c) = Some rs" and "read_seq rs cs = Some (b, r)"
  shows "reads_back e (c # b)"
proof -
  have ok: "seq_ok (c # b)" by (rule sequence_ok [OF assms])
  have c: "0xC2 \<le> code c" using assms(1) by (auto simp: continuation_ranges_def split: if_splits)
  have b: "b \<noteq> []" using read_seq_append [OF assms(2)] assms(1) by (auto simp: continuation_ranges_def split: if_splits)
  let ?v = "seq_value (c # b)"
  show ?thesis
  proof (cases e)
    case False
    have "c \<noteq> CHR 0x22" "c \<noteq> CHR 0x5C" "\<not> code c \<le> 0x1F" "\<not> code c \<le> 0x7F" using c by auto
    then show ?thesis using False b assms(1) read_seq_exact [OF read_seq_ranges [OF assms(2)]]
      unfolding reads_back_def by (simp add: char_text_def read_char_def)
  next
    case True
    have enc: "map char_of (utf8_encode ?v) = c # b" using ok by (simp add: seq_ok_def comp_def)
    show ?thesis
    proof (cases "?v \<le> 0xFFFF")
      case small: True
      then have t: "char_text e (c # b) = CHR 0x5C # ''u'' @ hex4_lower ?v" using True ok by (auto simp: char_text_def escape_codepoint_def Let_def seq_ok_def)
      have "read_unicode (hex4_lower ?v @ t) = Some (?v, t)" for t using small ok by (intro read_unicode_bmp) (auto simp: seq_ok_def)
      then show ?thesis unfolding reads_back_def t by (simp add: read_char_def enc)
    next
      case big: False
      then have t: "char_text e (c # b) = CHR 0x5C # ''u'' @ hex4_lower ((0xD7C0 + drop_bit 10 ?v) mod 0x10000) @
          CHR 0x5C # ''u'' @ hex4_lower ((0xDC00 + (?v AND 0x3FF)) mod 0x10000)"
        using True ok by (auto simp: char_text_def escape_codepoint_def Let_def seq_ok_def)
      have "0x10000 \<le> ?v" "?v < 0x110000" using big ok by (auto simp: seq_ok_def)
      note u = read_unicode_pair [OF this]
      show ?thesis unfolding reads_back_def t by (simp add: read_char_def enc u)
    qed
  qed
qed

lemma read_string_char: "reads_back e w \<Longrightarrow> read_string (char_text e w @ s) = map_option (\<lambda>(b, t). (w @ b, t)) (read_string s)"
  by (subst read_string.simps) (simp add: reads_back_def)

lemma utf8_chars_read_back: "utf8_chars s = Some us \<Longrightarrow> w \<in> set us \<Longrightarrow> reads_back e w"
proof (induction s arbitrary: us rule: utf8_chars.induct)
  case (2 c cs)
  then show ?case by (auto split: if_splits option.splits intro: ascii_reads_back sequence_reads_back)
qed simp

text \<open>The text of a string, and that it is read back to the string.\<close>

definition string_text :: "bool \<Rightarrow> string \<Rightarrow> string" where
  "string_text e s = concat (map (char_text e) (the (utf8_chars s)))"

lemma read_string_text:
  assumes "utf8_ok s"
  shows "read_string (string_text e s @ CHR 0x22 # t) = Some (s, t)"
proof -
  obtain us where us: "utf8_chars s = Some us" using assms by (auto simp: utf8_ok_def)
  have "(\<And>w. w \<in> set us \<Longrightarrow> reads_back e w) \<Longrightarrow> read_string (concat (map (char_text e) us) @ CHR 0x22 # t) = Some (concat us, t)"
    by (induction us) (simp_all add: read_string_char, simp add: read_string.simps)
  then show ?thesis using utf8_chars_read_back [OF us] utf8_chars_concat [OF us] by (simp add: string_text_def us)
qed

subsection \<open>The loop on a whole string\<close>

lemma loop_first:
  assumes "escaper_ok e x" "utf8_state x = 0" "continuation_ranges (code c) = Some rs"
  obtains y where "escape_loop h e i (c # cs) x = escape_loop h e (i + 1) cs y" "escaper_ok e y" "utf8_state y = range_state rs"
    "codepoint y = lead_value (code c)" "dumped y = dumped x @ (if e then [] else [c])" "rs \<in> range_lists"
proof -
  have rs: "rs \<in> range_lists" using continuation_ranges_lists [OF assms(3)] by simp
  have "\<not> code c < 0x80" using assms(3) by (auto simp: continuation_ranges_def split: if_splits)
  then have "decode (utf8_state x) (codepoint x) (code c) = (range_state rs, lead_value (code c))"
    using decode_first [OF of_char_lt_256, of "codepoint x" c] decode_lead_value [of "code c" "codepoint x"] assms(2,3) of_char_lt_256 [of c]
    by (simp add: prod_eq_iff)
  from loop_incomplete [OF assms(1) this, of h i cs] range_state_pos [OF rs] that rs show ?thesis by blast
qed

lemma loop_ascii:
  assumes "escaper_ok e x" "utf8_state x = 0" "code c < 0x80"
  obtains y where "escape_loop h e i (c # cs) x = escape_loop h e (i + 1) cs y" "escaper_ok e y" "utf8_state y = 0"
    "dumped y = dumped x @ char_text e [c]"
proof -
  have "decode (utf8_state x) (codepoint x) (code c) = (0, code c)"
    using decode_first [OF of_char_lt_256, of "codepoint x" c] decode_lead_value [of "code c" "codepoint x"] assms(2,3)
    by (simp add: prod_eq_iff lead_value_def)
  from loop_accept [OF assms(1) this, of h i cs] that show ?thesis using assms(3) by (simp add: char_text_def seq_value_def lead_value_def) blast
qed

lemma sequence_text:
  assumes "seq_ok (c # b)" "b \<noteq> []"
  shows "(if e then [] else [c]) @ (if e then [] else butlast b) @ fst (escape_codepoint e (foldl next_value (lead_value (code c)) b) (last b)) = char_text e (c # b)"
  using assms by (auto simp: char_text_def seq_value_def seq_ok_def escape_codepoint_def Let_def)

lemma loop_string:
  assumes "utf8_chars s = Some us" "escaper_ok e x" "utf8_state x = 0"
  shows "\<exists>y. escape_loop h e i s x = Inr y \<and> utf8_state y = 0 \<and> dumped y = dumped x @ concat (map (char_text e) us)"
  using assms
proof (induction s arbitrary: us i x rule: utf8_chars.induct)
  case (2 c cs)
  note ok = "2.prems"(2,3)
  show ?case
  proof (cases "code c < 0x80")
    case True
    then obtain vs where vs: "utf8_chars cs = Some vs" "us = [c] # vs" using "2.prems"(1) by auto
    from loop_ascii [OF ok True, of h i cs] obtain y where y: "escape_loop h e i (c # cs) x = escape_loop h e (i + 1) cs y" "escaper_ok e y"
      "utf8_state y = 0" "dumped y = dumped x @ char_text e [c]" by blast
    show ?thesis using "2.IH"(1) [OF True vs(1) y(2,3), of "i + 1"] y(1,4) vs(2) by auto
  next
    case False
    then obtain rs b t vs where v: "continuation_ranges (code c) = Some rs" "read_seq rs cs = Some (b, t)" "utf8_chars t = Some vs" "us = (c # b) # vs"
      using "2.prems"(1) by (auto split: option.splits)
    from loop_first [OF ok v(1), of h i cs] obtain y where y: "escape_loop h e i (c # cs) x = escape_loop h e (i + 1) cs y" "escaper_ok e y"
      "utf8_state y = range_state rs" "codepoint y = lead_value (code c)" "dumped y = dumped x @ (if e then [] else [c])" "rs \<in> range_lists" by blast
    from loop_sequence [OF y(6,2,3) v(2), of h "i + 1"] obtain z where z: "escape_loop h e (i + 1) cs y = escape_loop h e (i + 1 + length b) t z"
      "escaper_ok e z" "utf8_state z = 0"
      "dumped z = dumped y @ (if e then [] else butlast b) @ fst (escape_codepoint e (foldl next_value (codepoint y) b) (last b))" by blast
    have "b \<noteq> []" using read_seq_append [OF v(2)] v(1) by (auto simp: continuation_ranges_def split: if_splits)
    then have "dumped z = dumped x @ char_text e (c # b)"
      using z(4) y(4,5) sequence_text [OF sequence_ok [OF v(1,2)], of e] by simp
    then show ?thesis using "2.IH"(2) [OF False v(1,2) refl v(3) z(2,3), of "i + 1 + length b"] y(1) z(1) v(4) by auto
  qed
qed simp

lemma escaper_ok_start: "escaper_ok e mk_escaper" "utf8_state mk_escaper = 0" "dumped mk_escaper = []"
  by (simp_all add: escaper_ok_def mk_escaper_def)

lemma dump_escaped_text:
  assumes "utf8_ok s"
  shows "dump_escaped h e s = Inr (string_text e s)"
proof -
  obtain us where us: "utf8_chars s = Some us" using assms by (auto simp: utf8_ok_def)
  from loop_string [OF us escaper_ok_start(1) [of e] escaper_ok_start(2), of h 0] show ?thesis
    by (auto simp: dump_escaped_def jbind_def string_text_def us escaper_ok_start)
qed

text \<open>A string that is not well-formed stops the loop or leaves it in the middle of a sequence.\<close>

definition malformed :: "json_error + escaper \<Rightarrow> bool" where
  "malformed r \<longleftrightarrow> (case r of Inl ex \<Rightarrow> (\<exists>m. ex = TypeException 316 m) | Inr y \<Rightarrow> utf8_state y \<noteq> 0)"

lemma malformed_reject: "fst (decode (utf8_state x) (codepoint x) (code c)) = 1 \<Longrightarrow> malformed (escape_loop Strict e i (c # cs) x)"
  using loop_reject [of x c e i cs] by (auto simp: malformed_def)

lemma loop_sequence_malformed:
  assumes "rs \<in> range_lists" "escaper_ok e x" "utf8_state x = range_state rs" "read_seq rs s = None"
  shows "malformed (escape_loop Strict e i s x)"
  using assms
proof (induction rs arbitrary: s x i)
  case (Cons r rs)
  show ?case
  proof (cases s)
    case Nil
    then show ?thesis using Cons.prems(3) range_state_pos [OF Cons.prems(1)] by (simp add: malformed_def)
  next
    case s: (Cons c cs)
    show ?thesis
    proof (cases "in_range (fst r) (snd r) (Some c)")
      case False
      then have "fst (decode (utf8_state x) (codepoint x) (code c)) = 1"
        using decode_continue [OF Cons.prems(1) of_char_lt_256, of "codepoint x" c] Cons.prems(3) by (auto simp: in_range_def)
      then show ?thesis unfolding s by (rule malformed_reject)
    next
      case True
      then have seq: "read_seq rs cs = None" using Cons.prems(4) s by simp
      then have "rs \<noteq> []" by auto
      then have rs: "rs \<in> range_lists" using range_lists_tl(1) [OF Cons.prems(1)] by simp
      have "fst (decode (utf8_state x) (codepoint x) (code c)) = range_state rs"
        using decode_continue [OF Cons.prems(1) of_char_lt_256, of "codepoint x" c] True Cons.prems(3) by (simp add: in_range_def)
      then have d: "decode (utf8_state x) (codepoint x) (code c) = (range_state rs, snd (decode (utf8_state x) (codepoint x) (code c)))"
        by (metis prod.collapse)
      from loop_incomplete [OF Cons.prems(2) d, of Strict i cs] range_state_pos [OF rs] obtain y where
        "escape_loop Strict e i (c # cs) x = escape_loop Strict e (i + 1) cs y" "escaper_ok e y" "utf8_state y = range_state rs" by blast
      then show ?thesis unfolding s using Cons.IH [OF rs _ _ seq, of y "i + 1"] by simp
    qed
  qed
qed (simp add: range_lists_def)

lemma loop_malformed:
  assumes "utf8_chars s = None" "escaper_ok e x" "utf8_state x = 0"
  shows "malformed (escape_loop Strict e i s x)"
  using assms
proof (induction s arbitrary: i x rule: utf8_chars.induct)
  case (2 c cs)
  note ok = "2.prems"(2,3)
  show ?case
  proof (cases "code c < 0x80")
    case True
    then have "utf8_chars cs = None" using "2.prems"(1) by simp
    moreover from loop_ascii [OF ok True, of Strict i cs] obtain y where "escape_loop Strict e i (c # cs) x = escape_loop Strict e (i + 1) cs y"
      "escaper_ok e y" "utf8_state y = 0" by blast
    ultimately show ?thesis using "2.IH"(1) [OF True] by simp
  next
    case False
    show ?thesis
    proof (cases "continuation_ranges (code c)")
      case None
      then have "fst (decode (utf8_state x) (codepoint x) (code c)) = 1"
        using decode_first [OF of_char_lt_256, of "codepoint x" c] False ok(2) by simp
      then show ?thesis by (rule malformed_reject)
    next
      case (Some rs)
      from loop_first [OF ok Some, of Strict i cs] obtain y where y: "escape_loop Strict e i (c # cs) x = escape_loop Strict e (i + 1) cs y"
        "escaper_ok e y" "utf8_state y = range_state rs" "rs \<in> range_lists" by blast
      show ?thesis
      proof (cases "read_seq rs cs")
        case None
        show ?thesis unfolding y(1) by (rule loop_sequence_malformed [OF y(4,2,3) None])
      next
        case q: (Some q)
        obtain b t where bt: "read_seq rs cs = Some (b, t)" using q by (cases q) auto
        from loop_sequence [OF y(4,2,3) bt, of Strict "i + 1"] obtain z where
          z: "escape_loop Strict e (i + 1) cs y = escape_loop Strict e (i + 1 + length b) t z" "escaper_ok e z" "utf8_state z = 0" by blast
        have "utf8_chars t = None" using "2.prems"(1) False Some bt by simp
        then show ?thesis using "2.IH"(2) [OF False Some bt refl _ z(2,3)] y(1) z(1) by simp
      qed
    qed
  qed
qed simp

lemma dump_escaped_malformed:
  assumes "\<not> utf8_ok s"
  shows "\<exists>m. dump_escaped Strict e s = Inl (TypeException 316 m)"
proof -
  have "malformed (escape_loop Strict e 0 s mk_escaper)" using loop_malformed [OF _ escaper_ok_start(1,2)] assms by (simp add: utf8_ok_def)
  then show ?thesis by (auto simp: malformed_def dump_escaped_def jbind_def type_error_create_def split: sum.splits)
qed

end
