(* ===== verification/JsonRoundtrip.thy ===== *)
theory JsonRoundtrip
  imports JsonEscape
begin

text \<open>
  Round trip: the text that \<^const>\<open>basic_json_dump\<close> writes for a value, compact or pretty-printed, escaped to ASCII or not, is read
  back to the value. \<open>json_wf\<close> are the values for which this holds: strings in UTF-8, objects with sorted keys, numbers that are
  unsigned or negative.
\<close>

fun json_wf :: "json \<Rightarrow> bool" where
  "json_wf JNull = True"
| "json_wf (JBoolean b) = True"
| "json_wf (JString s) = utf8_ok s"
| "json_wf (JUnsigned n) = True"
| "json_wf (JInteger i) = (sint i < 0)"
| "json_wf (JFloat f) = False"
| "json_wf JDiscarded = False"
| "json_wf (JArray xs) = list_all json_wf xs"
| "json_wf (JObject m) = (map_ok m \<and> list_all (\<lambda>(k, v). utf8_ok k \<and> json_wf v) m)"

subsection \<open>White space\<close>

lemma read_token_ws: "list_all ws w \<Longrightarrow> read_token (w @ s) = read_token s"
  by (simp add: read_token_def dropWhile_append2 list_all_iff)

lemma read_value_ws: "list_all ws w \<Longrightarrow> read_value (w @ s) = read_value s"
  by (subst (1 2) read_value.simps) (simp add: read_token_ws)

lemma read_elems_ws: "list_all ws w \<Longrightarrow> read_elems (w @ s) = read_elems s"
  by (subst (1 2) read_elems_eq) (simp add: read_value_ws)

lemma read_members_ws: "list_all ws w \<Longrightarrow> read_members (w @ s) = read_members s"
  by (subst (1 2) read_members_eq) (simp add: read_token_ws)

lemma read_token_structural:
  "read_token (CHR '']'' # t) = (Tok EndArray, t)" "read_token (CHR ''}'' # t) = (Tok EndObject, t)"
  "read_token (CHR ''['' # t) = (Tok BeginArray, t)" "read_token (CHR ''{'' # t) = (Tok BeginObject, t)"
  "read_token (CHR '','' # t) = (Tok ValueSeparator, t)" "read_token (CHR '':'' # t) = (Tok NameSeparator, t)"
  by (simp_all add: read_token_def read_token_char_def)

lemma read_token_string: "utf8_ok s \<Longrightarrow> read_token (CHR 0x22 # string_text e s @ CHR 0x22 # t) = (TokString s, t)"
  by (simp add: read_token_def read_token_char_def read_string_text)

lemma number_ends_ws: "ws c \<Longrightarrow> number_ends (c # t)"
  by (auto simp: number_ends_def in_range_def)

lemma number_ends_after: "list_all ws w \<Longrightarrow> number_ends (w @ CHR '']'' # t)" "list_all ws w \<Longrightarrow> number_ends (w @ CHR ''}'' # t)"
  "number_ends (CHR '','' # t)" "number_ends []"
proof -
  have e: "number_ends (CHR '']'' # t)" "number_ends (CHR ''}'' # t)" by (simp_all add: number_ends_def in_range_def)
  show "number_ends (w @ CHR '']'' # t)" "number_ends (w @ CHR ''}'' # t)" if "list_all ws w"
    using that e number_ends_ws by (cases w; simp)+
qed (simp_all add: number_ends_def in_range_def)

lemma read_value_start:
  "read_value s = Some r \<Longrightarrow> fst (read_token s) \<noteq> Tok EndArray"
  by (subst (asm) read_value.simps) (auto split: prod.splits)

lemma read_members_start:
  "read_members s = Some r \<Longrightarrow> fst (read_token s) \<noteq> Tok EndObject"
  by (subst (asm) read_members_eq) (auto split: prod.splits)

subsection \<open>What the serializer writes\<close>

text \<open>A serializer that can write at indentation \<open>n\<close>, and one that comes from another by writing \<open>T\<close>.\<close>

definition ser_ok :: "bool \<Rightarrow> nat \<Rightarrow> serializer \<Rightarrow> bool" where
  "ser_ok p n x \<longleftrightarrow> length (number_buffer x) = 64 \<and>
     (p \<longrightarrow> 512 \<le> length (indent_string x) \<and> n \<le> length (indent_string x) \<and> list_all ws (indent_string x))"

definition extends :: "serializer \<Rightarrow> string \<Rightarrow> serializer \<Rightarrow> bool" where
  "extends x T y \<longleftrightarrow> ser_out y = ser_out x @ T \<and> length (number_buffer y) = length (number_buffer x) \<and>
     length (indent_string x) \<le> length (indent_string y) \<and> (list_all ws (indent_string x) \<longrightarrow> list_all ws (indent_string y))"

lemma extends_trans [trans]: "extends x T y \<Longrightarrow> extends y U z \<Longrightarrow> extends x (T @ U) z"
  by (auto simp: extends_def)

lemma extends_ok: "extends x T y \<Longrightarrow> ser_ok p n x \<Longrightarrow> ser_ok p n y"
  by (auto simp: extends_def ser_ok_def)

lemma extends_write: "extends x s (write_characters s x)"
  by (simp add: extends_def write_characters_def)

lemma before_element_writes:
  assumes "ser_ok p n x"
  obtains y w where "before_element p n x = Inr y" "extends x w y" "list_all ws w"
proof (cases p)
  case True
  have "before_element p n x = Inr (write_characters (take n (indent_string x)) x)"
    using assms True by (simp add: before_element_def write_indent_def ser_ok_def)
  moreover have "list_all ws (take n (indent_string x))" using assms True by (auto simp: ser_ok_def list_all_iff dest: in_set_takeD)
  ultimately show ?thesis using that extends_write by blast
next
  case False
  then show ?thesis using that [of x "[]"] by (simp add: before_element_def extends_def)
qed

lemma close_container_writes:
  assumes "ser_ok p n x"
  obtains y w where "close_container p c n x = Inr y" "extends x (w @ [c]) y" "list_all ws w"
proof (cases p)
  case True
  let ?a = "write_characters [CHR 0x0A] x"
  have "ser_ok p n ?a" by (rule extends_ok [OF extends_write assms])
  from before_element_writes [OF this] obtain y w where y: "write_indent n ?a = Inr y" "extends ?a w y" "list_all ws w"
    unfolding before_element_def using True by auto
  have "extends x (([CHR 0x0A] @ w) @ [c]) (write_characters [c] y)"
    by (rule extends_trans [OF extends_trans [OF extends_write y(2)] extends_write])
  moreover have "close_container p c n x = Inr (write_characters [c] y)" using True y(1) by (simp add: close_container_def jbind_def)
  moreover have "list_all ws ([CHR 0x0A] @ w)" using y(3) by simp
  ultimately show ?thesis using that by blast
next
  case False
  then show ?thesis using that [of "write_characters [c] x" "[]"] extends_write by (simp add: close_container_def jbind_def)
qed

lemma open_container_writes:
  assumes "ser_ok p n x" "step \<le> 512"
  defines "n' \<equiv> if p then (n + step) mod 2 ^ 32 else n"
  obtains w where "extends x (c # w) (open_container p c n' x)" "list_all ws w" "ser_ok p n' (open_container p c n' x)"
proof (cases p)
  case True
  let ?a = "write_characters [c, CHR 0x0A] x"
  have r: "list_all ws (replicate k (CHR '' ''))" for k by (simp add: list_all_iff)
  have le: "n' \<le> n + step" by (simp add: n'_def)
  have x: "length (number_buffer x) = 64" "512 \<le> length (indent_string x)" "n \<le> length (indent_string x)" "list_all ws (indent_string x)"
    using assms(1) True by (auto simp: ser_ok_def)
  have "ser_ok p n' (grow_indent n' ?a)"
  proof (cases "length (indent_string x) < n'")
    case long: True
    have "n' \<le> length (indent_string x) + length (indent_string x)" using le x(2,3) assms(2) by linarith
    then show ?thesis using long x r by (simp add: ser_ok_def grow_indent_def write_characters_def)
  next
    case False
    then show ?thesis using x by (simp add: ser_ok_def grow_indent_def write_characters_def)
  qed
  moreover have "extends x [c, CHR 0x0A] (grow_indent n' ?a)"
    using x r by (simp add: extends_def grow_indent_def write_characters_def)
  ultimately show ?thesis using that [of "[CHR 0x0A]"] True by (simp add: open_container_def)
next
  case False
  then have "ser_ok p n' (write_characters [c] x)" using extends_ok [OF extends_write assms(1)] by (simp add: n'_def)
  then show ?thesis using that [of "[]"] False extends_write by (simp add: open_container_def)
qed

lemma write_key_writes:
  assumes "utf8_ok k"
  obtains y w where "write_key p e k x = Inr y" "extends x (CHR 0x22 # string_text e k @ CHR 0x22 # CHR '':'' # w) y" "list_all ws w"
proof -
  let ?w = "if p then '' '' else ''''"
  have "write_key p e k x = Inr (write_characters (CHR 0x22 # CHR '':'' # ?w) (write_characters (string_text e k) (write_characters dquote x)))"
    using assms by (simp add: write_key_def write_escaped_def jbind_def dump_escaped_text)
  moreover have "extends x ((dquote @ string_text e k) @ (CHR 0x22 # CHR '':'' # ?w))
      (write_characters (CHR 0x22 # CHR '':'' # ?w) (write_characters (string_text e k) (write_characters dquote x)))"
    by (rule extends_trans [OF extends_trans [OF extends_write extends_write] extends_write])
  ultimately show ?thesis using that [of _ ?w] by simp
qed

subsection \<open>Values\<close>

definition dumps :: "(float64 \<Rightarrow> string) \<Rightarrow> bool \<Rightarrow> bool \<Rightarrow> nat \<Rightarrow> json \<Rightarrow> bool" where
  "dumps ft p e step v \<longleftrightarrow> (\<forall>n x. ser_ok p n x \<longrightarrow>
     (\<exists>y T. json_dump ft p e step n v x = Inr y \<and> extends x T y \<and> (\<forall>t. number_ends t \<longrightarrow> read_value (T @ t) = Some (v, t))))"

lemma dumpsE:
  assumes "dumps ft p e step v" "ser_ok p n x"
  obtains y T where "json_dump ft p e step n v x = Inr y" "extends x T y" "\<And>t. number_ends t \<Longrightarrow> read_value (T @ t) = Some (v, t)"
  using assms unfolding dumps_def by blast

lemma dumps_scalar:
  assumes "\<And>n x. json_dump ft p e step n v x = Inr (write_characters T x)" and "\<And>t. number_ends t \<Longrightarrow> read_value (T @ t) = Some (v, t)"
  shows "dumps ft p e step v"
  unfolding dumps_def using assms extends_write by blast

lemma elems_dumped:
  assumes "\<And>v. v \<in> set xs \<Longrightarrow> dumps ft p e step v" "xs \<noteq> []" "ser_ok p n x"
  shows "\<exists>y T. dump_elems ft p e step n xs x = Inr y \<and> extends x T y \<and>
     (\<forall>w t. list_all ws w \<longrightarrow> read_elems (T @ w @ CHR '']'' # t) = Some (xs, t))"
  using assms
proof (induction xs arbitrary: x)
  case (Cons v vs)
  obtain a w0 where a: "before_element p n x = Inr a" "extends x w0 a" "list_all ws w0" by (rule before_element_writes [OF Cons.prems(3)])
  have oka: "ser_ok p n a" by (rule extends_ok [OF a(2) Cons.prems(3)])
  obtain b T where b: "json_dump ft p e step n v a = Inr b" "extends a T b" "\<And>t. number_ends t \<Longrightarrow> read_value (T @ t) = Some (v, t)"
    by (rule dumpsE [OF Cons.prems(1) oka]) auto
  have xb: "extends x (w0 @ T) b" by (rule extends_trans [OF a(2) b(2)])
  show ?case
  proof (cases "vs = []")
    case True
    have "read_elems ((w0 @ T) @ w @ CHR '']'' # t) = Some ([v], t)" if "list_all ws w" for w t
      using that by (simp add: read_elems_ws [OF a(3)]) (simp add: read_elems_eq [of "T @ _"] b(3) number_ends_after read_token_ws read_token_structural)
    then show ?thesis using True a(1) b(1) xb by (auto simp: jbind_def)
  next
    case False
    let ?c = "write_characters (separator p) b"
    have okc: "ser_ok p n ?c" by (rule extends_ok [OF extends_trans [OF xb extends_write] Cons.prems(3)])
    from Cons.prems(1) have "\<And>u. u \<in> set vs \<Longrightarrow> dumps ft p e step u" by simp
    from Cons.IH [OF this False okc] obtain y U where y: "dump_elems ft p e step n vs ?c = Inr y" "extends ?c U y"
      "\<And>w t. list_all ws w \<Longrightarrow> read_elems (U @ w @ CHR '']'' # t) = Some (vs, t)" by blast
    obtain s where s: "separator p = CHR '','' # s" "list_all ws s" by (cases p) auto
    have "extends x ((w0 @ T @ CHR '','' # s) @ U) y" using extends_trans [OF extends_trans [OF xb extends_write] y(2)] s(1) by simp
    moreover have "read_elems ((w0 @ T @ CHR '','' # s) @ U @ w @ CHR '']'' # t) = Some (v # vs, t)" if "list_all ws w" for w t
      using that by (simp add: read_elems_ws [OF a(3)])
        (simp add: read_elems_eq [of "T @ _"] b(3) number_ends_after read_token_structural read_elems_ws [OF s(2)] y(3))
    moreover have "dump_elems ft p e step n (v # vs) x = Inr y" using False a(1) b(1) y(1) by (simp add: jbind_def)
    ultimately show ?thesis by (intro exI conjI) (assumption | simp)+
  qed
qed simp

lemma members_dumped:
  assumes "\<And>k v. (k, v) \<in> set m \<Longrightarrow> utf8_ok k \<and> dumps ft p e step v" "m \<noteq> []" "ser_ok p n x"
  shows "\<exists>y T. dump_members ft p e step n m x = Inr y \<and> extends x T y \<and>
     (\<forall>w t. list_all ws w \<longrightarrow> read_members (T @ w @ CHR ''}'' # t) = Some (m, t))"
  using assms
proof (induction m arbitrary: x)
  case (Cons kv m)
  obtain k v where kv: "kv = (k, v)" by fastforce
  have k: "utf8_ok k" "dumps ft p e step v" using Cons.prems(1) [of k v] kv by auto
  obtain a w0 where a: "before_element p n x = Inr a" "extends x w0 a" "list_all ws w0" by (rule before_element_writes [OF Cons.prems(3)])
  obtain q w1 where q: "write_key p e k a = Inr q" "extends a (CHR 0x22 # string_text e k @ CHR 0x22 # CHR '':'' # w1) q" "list_all ws w1"
    by (rule write_key_writes [OF k(1)])
  have okq: "ser_ok p n q" by (rule extends_ok [OF extends_trans [OF a(2) q(2)] Cons.prems(3)])
  obtain b T where b: "json_dump ft p e step n v q = Inr b" "extends q T b" "\<And>t. number_ends t \<Longrightarrow> read_value (T @ t) = Some (v, t)"
    by (rule dumpsE [OF k(2) okq]) blast
  let ?K = "CHR 0x22 # string_text e k @ CHR 0x22 # CHR '':'' # w1 @ T"
  have xb: "extends x (w0 @ ?K) b" using extends_trans [OF a(2) extends_trans [OF q(2) b(2)]] by simp
  have rd: "read_members (w0 @ ?K @ r) = (if fst (read_token r) = Tok ValueSeparator then map_option (map_prod (Cons (k, v)) id) (read_members (snd (read_token r)))
            else if fst (read_token r) = Tok EndObject then Some ([(k, v)], snd (read_token r)) else None)" if "number_ends r" for r
    using that by (simp add: read_members_ws [OF a(3)])
      (simp add: read_members_eq [of "CHR 0x22 # _"] read_token_string [OF k(1)] read_token_structural read_value_ws [OF q(3)] b(3))
  show ?case
  proof (cases "m = []")
    case True
    have "read_members ((w0 @ ?K) @ w @ CHR ''}'' # t) = Some ([(k, v)], t)" if "list_all ws w" for w t
      using rd [OF number_ends_after(2) [OF that]] that by (simp add: read_token_ws read_token_structural)
    then show ?thesis using True a(1) q(1) b(1) xb kv by (auto simp: jbind_def)
  next
    case False
    let ?c = "write_characters (separator p) b"
    have okc: "ser_ok p n ?c" by (rule extends_ok [OF extends_trans [OF xb extends_write] Cons.prems(3)])
    from Cons.prems(1) have "\<And>k v. (k, v) \<in> set m \<Longrightarrow> utf8_ok k \<and> dumps ft p e step v" by auto
    from Cons.IH [OF this False okc] obtain y U where y: "dump_members ft p e step n m ?c = Inr y" "extends ?c U y"
      "\<And>w t. list_all ws w \<Longrightarrow> read_members (U @ w @ CHR ''}'' # t) = Some (m, t)" by blast
    obtain s where s: "separator p = CHR '','' # s" "list_all ws s" by (cases p) auto
    have "extends x ((w0 @ ?K) @ (CHR '','' # s) @ U) y" using extends_trans [OF extends_trans [OF xb extends_write] y(2)] s(1) by simp
    moreover have "read_members (((w0 @ ?K) @ (CHR '','' # s) @ U) @ w @ CHR ''}'' # t) = Some ((k, v) # m, t)" if "list_all ws w" for w t
      using rd [OF number_ends_after(3), of "s @ U @ w @ CHR ''}'' # t"] that by (simp add: read_token_structural read_members_ws [OF s(2)] y(3))
    moreover have "dump_members ft p e step n ((k, v) # m) x = Inr y" using False a(1) q(1) b(1) y(1) by (simp add: jbind_def)
    ultimately show ?thesis using kv by blast
  qed
qed simp

lemma member_fold_sorted: "map_ok (m' @ m) \<Longrightarrow> member_fold m m' = m' @ m"
proof (induction m arbitrary: m')
  case (Cons kv m)
  obtain k v where kv: "kv = (k, v)" by fastforce
  have "\<forall>k' \<in> set (map fst m'). k' < k" using Cons.prems kv by (auto simp: map_ok_def sorted_wrt_append)
  then have "map_set k v m' = m' @ [(k, v)]" by (rule map_set_last)
  then show ?case using Cons.IH [of "m' @ [(k, v)]"] Cons.prems kv by simp
qed simp

lemma dumps_array:
  assumes "\<And>v. v \<in> set xs \<Longrightarrow> dumps ft p e step v" "step \<le> 512"
  shows "dumps ft p e step (JArray xs)"
proof (cases "xs = []")
  case True
  show ?thesis unfolding True
    by (rule dumps_scalar [where T = "''[]''"]) (auto simp: read_value.simps read_token_structural)
next
  case False
  show ?thesis unfolding dumps_def
  proof (intro allI impI)
    fix n x assume ok: "ser_ok p n x"
    let ?n = "if p then (n + step) mod 2 ^ 32 else n"
    obtain w where w: "extends x (CHR ''['' # w) (open_container p (CHR ''['') ?n x)" "list_all ws w" "ser_ok p ?n (open_container p (CHR ''['') ?n x)"
      by (rule open_container_writes [OF ok assms(2)])
    obtain y T where y: "dump_elems ft p e step ?n xs (open_container p (CHR ''['') ?n x) = Inr y" "extends (open_container p (CHR ''['') ?n x) T y"
      "\<And>w t. list_all ws w \<Longrightarrow> read_elems (T @ w @ CHR '']'' # t) = Some (xs, t)"
      using elems_dumped [OF assms(1) False w(3)] by blast
    have oky: "ser_ok p n y" by (rule extends_ok [OF extends_trans [OF w(1) y(2)] ok])
    obtain z u where z: "close_container p (CHR '']'') n y = Inr z" "extends y (u @ '']'') z" "list_all ws u" by (rule close_container_writes [OF oky])
    let ?T = "(CHR ''['' # w @ T) @ (u @ '']'')"
    have "read_value (?T @ t) = Some (JArray xs, t)" for t
    proof -
      have el: "read_elems (w @ T @ u @ CHR '']'' # t) = Some (xs, t)" using y(3) [OF z(3)] read_elems_ws [OF w(2)] by simp
      then have "fst (read_token (w @ T @ u @ CHR '']'' # t)) \<noteq> Tok EndArray"
        using read_value_start by (subst (asm) read_elems_eq) (auto split: option.splits)
      then show ?thesis using el by (subst read_value.simps) (simp add: read_token_structural)
    qed
    moreover have "extends x ?T z" using extends_trans [OF extends_trans [OF w(1) y(2)] z(2)] by simp
    moreover have "json_dump ft p e step n (JArray xs) x = Inr z" using False y(1) z(1) by (simp add: jbind_def Let_def)
    ultimately show "\<exists>y T. json_dump ft p e step n (JArray xs) x = Inr y \<and> extends x T y \<and>
        (\<forall>t. number_ends t \<longrightarrow> read_value (T @ t) = Some (JArray xs, t))" by blast
  qed
qed

lemma dumps_object:
  assumes "\<And>k v. (k, v) \<in> set m \<Longrightarrow> utf8_ok k \<and> dumps ft p e step v" "step \<le> 512" "map_ok m"
  shows "dumps ft p e step (JObject m)"
proof (cases "m = []")
  case True
  show ?thesis unfolding True
    by (rule dumps_scalar [where T = "''{}''"]) (auto simp: read_value.simps read_token_structural)
next
  case False
  show ?thesis unfolding dumps_def
  proof (intro allI impI)
    fix n x assume ok: "ser_ok p n x"
    let ?n = "if p then (n + step) mod 2 ^ 32 else n"
    obtain w where w: "extends x (CHR ''{'' # w) (open_container p (CHR ''{'') ?n x)" "list_all ws w" "ser_ok p ?n (open_container p (CHR ''{'') ?n x)"
      by (rule open_container_writes [OF ok assms(2)])
    obtain y T where y: "dump_members ft p e step ?n m (open_container p (CHR ''{'') ?n x) = Inr y" "extends (open_container p (CHR ''{'') ?n x) T y"
      "\<And>w t. list_all ws w \<Longrightarrow> read_members (T @ w @ CHR ''}'' # t) = Some (m, t)"
      using members_dumped [OF assms(1) False w(3)] by blast
    have oky: "ser_ok p n y" by (rule extends_ok [OF extends_trans [OF w(1) y(2)] ok])
    obtain z u where z: "close_container p (CHR ''}'') n y = Inr z" "extends y (u @ ''}'') z" "list_all ws u" by (rule close_container_writes [OF oky])
    let ?T = "(CHR ''{'' # w @ T) @ (u @ ''}'')"
    have "read_value (?T @ t) = Some (JObject m, t)" for t
    proof -
      have el: "read_members (w @ T @ u @ CHR ''}'' # t) = Some (m, t)" using y(3) [OF z(3)] read_members_ws [OF w(2)] by simp
      then have "fst (read_token (w @ T @ u @ CHR ''}'' # t)) \<noteq> Tok EndObject" by (rule read_members_start)
      then show ?thesis using el member_fold_sorted [of "[]" m] assms(3) by (subst read_value.simps) (simp add: read_token_structural)
    qed
    moreover have "extends x ?T z" using extends_trans [OF extends_trans [OF w(1) y(2)] z(2)] by simp
    moreover have "json_dump ft p e step n (JObject m) x = Inr z" using False y(1) z(1) by (simp add: jbind_def Let_def)
    ultimately show "\<exists>y T. json_dump ft p e step n (JObject m) x = Inr y \<and> extends x T y \<and>
        (\<forall>t. number_ends t \<longrightarrow> read_value (T @ t) = Some (JObject m, t))" by blast
  qed
qed

lemma dumps_string:
  assumes "utf8_ok s"
  shows "dumps ft p e step (JString s)"
proof (rule dumps_scalar)
  fix n x
  show "json_dump ft p e step n (JString s) x = Inr (write_characters (CHR 0x22 # string_text e s @ dquote) x)"
    using assms by (simp add: write_escaped_def jbind_def dump_escaped_text write_characters_def)
next
  fix t
  show "read_value ((CHR 0x22 # string_text e s @ dquote) @ t) = Some (JString s, t)"
    by (simp add: read_value.simps read_token_string [OF assms])
qed

lemma dumps_integer:
  assumes "json_wf v" "v = JInteger i \<or> v = JUnsigned i"
  shows "dumps ft p e step v"
  unfolding dumps_def
proof (intro allI impI)
  fix n x assume "ser_ok p n x"
  then have b: "length (number_buffer x) = 64" by (simp add: ser_ok_def)
  let ?T = "dec_of_int (if v = JInteger i then sint i else uint i)"
  have "json_dump ft p e step n v x = Inr (write_characters ?T x)"
    using assms(2) dump_integer_dec [OF b] by (auto simp: write_integer_def jbind_def)
  moreover have "read_value (?T @ t) = Some (v, t)" if "number_ends t" for t
    using assms read_token_unsigned [OF that, of i] read_token_negative [OF that, of i] by (auto simp: read_value.simps word_sless_alt)
  ultimately show "\<exists>y T. json_dump ft p e step n v x = Inr y \<and> extends x T y \<and> (\<forall>t. number_ends t \<longrightarrow> read_value (T @ t) = Some (v, t))"
    using extends_write by blast
qed

lemma json_dumps: "json_wf v \<Longrightarrow> step \<le> 512 \<Longrightarrow> dumps ft p e step v"
proof (induction v)
  case (JObject m)
  have "utf8_ok k \<and> dumps ft p e step v" if "(k, v) \<in> set m" for k v
    using that JObject by (fastforce simp: list_all_iff)
  then show ?case using dumps_object JObject.prems by auto
next
  case (JArray xs)
  then show ?case by (intro dumps_array) (auto simp: list_all_iff)
next
  case (JBoolean b)
  show ?case by (rule dumps_scalar [where T = "if b then ''true'' else ''false''"])
      (auto simp: read_value.simps read_token_def read_token_char_def read_literal_def)
next
  case JNull
  show ?case by (rule dumps_scalar [where T = "''null''"]) (auto simp: read_value.simps read_token_def read_token_char_def read_literal_def)
next
  case (JString s)
  then show ?case by (simp add: dumps_string)
next
  case (JInteger i)
  then show ?case by (auto intro: dumps_integer)
next
  case (JUnsigned i)
  then show ?case by (auto intro: dumps_integer)
qed simp_all

text \<open>The options with which the text of a value is JSON again.\<close>

definition dump_options_ok :: "int \<Rightarrow> char \<Rightarrow> bool" where
  "dump_options_ok indent c \<longleftrightarrow> indent < 0 \<or> (indent \<le> 512 \<and> ws c)"

lemma dump_is_text:
  assumes "json_wf v" "dump_options_ok indent c"
  obtains T where "basic_json_dump ft indent c e h v = Inr T" "read_value T = Some (v, [])"
proof -
  let ?p = "0 \<le> indent" and ?step = "if 0 \<le> indent then nat indent else 0"
  have ok: "ser_ok ?p 0 (mk_serializer c h)" using assms(2) by (auto simp: ser_ok_def mk_serializer_def dump_options_ok_def list_all_iff)
  have d: "dumps ft ?p e ?step v" by (rule json_dumps [OF assms(1)]) (use assms(2) in \<open>auto simp: dump_options_ok_def\<close>)
  obtain y T where y: "json_dump ft ?p e ?step 0 v (mk_serializer c h) = Inr y" "extends (mk_serializer c h) T y"
    "\<And>t. number_ends t \<Longrightarrow> read_value (T @ t) = Some (v, t)" by (rule dumpsE [OF d ok]) blast
  have "basic_json_dump ft indent c e h v = Inr T"
    using y(1,2) by (auto simp: basic_json_dump_def jbind_def extends_def mk_serializer_def)
  moreover have "read_value T = Some (v, [])" using y(3) [OF number_ends_after(4)] by simp
  ultimately show ?thesis by (rule that)
qed

lemma read_value_no_bom: "read_value s = Some r \<Longrightarrow> strip_bom s = Some s"
proof (rule ccontr)
  assume r: "read_value s = Some r" and "strip_bom s \<noteq> Some s"
  then obtain cs where "s = CHR 0xEF # cs" by (cases s) (auto simp: strip_bom_def split: if_splits)
  then have "fst (read_token s) = Tok ParseErrorToken" by (simp add: read_token_def read_token_char_def in_range_def)
  then show False using r by (subst (asm) read_value.simps) (auto split: prod.splits)
qed

lemma parse_of_text: "read_value T = Some (v, []) \<Longrightarrow> json_parse T allow = Inr v"
  using json_parse_reads [where s = T and allow = allow] read_value_no_bom [of T] by (simp add: json_text_def read_token_def)

text \<open>C3: Dumping a value and parsing the text gives the value back: for every well-formed value, with any indentation up to 512 (by a
  white-space character) or none, escaped to ASCII or not, under any error handler.\<close>

theorem json_dump_parse_roundtrip:
  assumes "json_wf v" and "dump_options_ok indent c"
  shows "\<exists>T. basic_json_dump ft indent c e h v = Inr T \<and> json_parse T allow = Inr v"
proof -
  obtain T where "basic_json_dump ft indent c e h v = Inr T" "read_value T = Some (v, [])" by (rule dump_is_text [OF assms])
  then show ?thesis using parse_of_text by blast
qed

theorem json_dump_parse_roundtrip_witness:
  "\<exists>T. basic_json_dump (\<lambda>_. ''0.0'') 4 (CHR '' '') True Strict
      (JObject [(''keys'', JArray [JString [CHR 0xC3, CHR 0xA9], JInteger (- 7), JNull]), (''op'', JUnsigned 9)]) = Inr T \<and>
     json_parse T True = Inr (JObject [(''keys'', JArray [JString [CHR 0xC3, CHR 0xA9], JInteger (- 7), JNull]), (''op'', JUnsigned 9)])"
  by (rule json_dump_parse_roundtrip) (simp_all add: utf8_ok_def continuation_ranges_def in_range_def dump_options_ok_def)

text \<open>C24: With the strict handler a string is written exactly when it is UTF-8, and then as text that reads back to it; any other string
  makes the serializer throw type error 316.\<close>

theorem dump_escaped_strict:
  "case dump_escaped Strict e s of Inr T \<Rightarrow> utf8_ok s \<and> read_string (T @ dquote) = Some (s, []) | Inl ex \<Rightarrow> \<not> utf8_ok s \<and> (\<exists>m. ex = TypeException 316 m)"
proof (cases "utf8_ok s")
  case True
  then show ?thesis by (simp add: dump_escaped_text read_string_text)
next
  case False
  then show ?thesis using dump_escaped_malformed [OF False, of e] by auto
qed

end
