(* ===== verification/JsonTypes.thy ===== *)
theory JsonTypes
  imports JsonRoundtrip
begin

text \<open>
  What kind of values the parser produces: strings and keys are UTF-8, objects have their keys in order and only once, floating-point
  numbers are finite, signed integers come from a minus sign, and nothing inside is discarded.
\<close>

fun json_typed :: "json \<Rightarrow> bool" where
  "json_typed JNull = True"
| "json_typed (JBoolean b) = True"
| "json_typed (JString s) = utf8_ok s"
| "json_typed (JUnsigned n) = True"
| "json_typed (JInteger i) = (sint i \<le> 0)"
| "json_typed (JFloat f) = isfinite f"
| "json_typed JDiscarded = False"
| "json_typed (JArray xs) = list_all json_typed xs"
| "json_typed (JObject m) = (map_ok m \<and> list_all (\<lambda>(k, v). utf8_ok k \<and> json_typed v) m)"

subsection \<open>Strings\<close>

lemma read_seq_more: "read_seq rs s = Some (b, t) \<Longrightarrow> read_seq rs (s @ u) = Some (b, t @ u)"
  by (induction rs s arbitrary: b rule: read_seq.induct) (auto split: if_splits)

lemma utf8_chars_append: "utf8_chars w = Some us \<Longrightarrow> utf8_chars s = Some vs \<Longrightarrow> utf8_chars (w @ s) = Some (us @ vs)"
proof (induction w arbitrary: us rule: utf8_chars.induct)
  case (2 c cs)
  then show ?case by (auto split: if_splits option.splits simp: read_seq_more)
qed simp

lemma utf8_ok_append: "utf8_ok w \<Longrightarrow> utf8_ok s \<Longrightarrow> utf8_ok (w @ s)"
  using utf8_chars_append by (fastforce simp: utf8_ok_def)

lemma utf8_ok_sequence:
  assumes "continuation_ranges (code c) = Some rs" "list_all2 (\<lambda>r c. fst r \<le> code c \<and> code c \<le> snd r) rs b"
  shows "utf8_ok (c # b)"
proof -
  have "\<not> code c < 0x80" using assms(1) by (auto simp: continuation_ranges_def split: if_splits)
  then show ?thesis using assms(1) read_seq_exact [OF assms(2), of "[]"] by (simp add: utf8_ok_def)
qed

text \<open>The bytes of a code point that is no surrogate.\<close>

lemma utf8_encode_ok_2:
  assumes "0x80 \<le> cp" "cp < 0x800"
  shows "utf8_ok (map char_of (utf8_encode cp))"
proof -
  define a x where ax: "a = cp div 64" "x = cp mod 64"
  have r: "cp = a * 64 + x" "2 \<le> a" "a < 32" "x < 64" using assms by (auto simp: ax)
  have "utf8_encode cp = [0xC0 + a, 0x80 + x]" using utf8_encode_digits(2) [of a x] r assms by simp
  moreover have "utf8_ok [char_of (0xC0 + a), char_of (0x80 + x)]"
    using r by (intro utf8_ok_sequence [where rs = "[(0x80, 0xBF)]"]) (auto simp: continuation_ranges_def)
  ultimately show ?thesis by simp
qed

lemma utf8_encode_ok_3:
  assumes "0x800 \<le> cp" "cp < 0x10000" "\<not> (0xD800 \<le> cp \<and> cp \<le> 0xDFFF)"
  shows "utf8_ok (map char_of (utf8_encode cp))"
proof -
  define a x y where axy: "a = cp div 64 div 64" "x = cp div 64 mod 64" "y = cp mod 64"
  have r: "cp = (a * 64 + x) * 64 + y" "x < 64" "y < 64" by (auto simp: axy)
  have a: "a < 16" using assms(2) unfolding r(1) distrib_right mult.assoc by linarith
  have lo: "a = 0 \<Longrightarrow> 32 \<le> x" using assms(1) r by simp
  have hi: "a = 13 \<Longrightarrow> x < 32" using assms(3) r by simp
  have "utf8_encode cp = [0xE0 + a, 0x80 + x, 0x80 + y]" using utf8_encode_digits(3) [of a x y] r a assms by simp
  moreover have "utf8_ok [char_of (0xE0 + a), char_of (0x80 + x), char_of (0x80 + y)]"
  proof (intro utf8_ok_sequence)
    show "continuation_ranges (code (char_of (0xE0 + a))) = Some [(if a = 0 then 0xA0 else 0x80, if a = 13 then 0x9F else 0xBF), (0x80, 0xBF)]"
      using a by (auto simp: continuation_ranges_def)
    show "list_all2 (\<lambda>r c. fst r \<le> code c \<and> code c \<le> snd r) [(if a = 0 then 0xA0 else 0x80, if a = 13 then 0x9F else 0xBF), (0x80, 0xBF)]
        [char_of (0x80 + x), char_of (0x80 + y)]" using r(2,3) lo hi by auto
  qed
  ultimately show ?thesis by simp
qed

lemma utf8_encode_ok_4:
  assumes "0x10000 \<le> cp" "cp < 0x110000"
  shows "utf8_ok (map char_of (utf8_encode cp))"
proof -
  define a x y z where axyz: "a = cp div 64 div 64 div 64" "x = cp div 64 div 64 mod 64" "y = cp div 64 mod 64" "z = cp mod 64"
  have r: "cp = ((a * 64 + x) * 64 + y) * 64 + z" "x < 64" "y < 64" "z < 64" by (auto simp: axyz)
  have a: "a < 5" using assms(2) unfolding r(1) distrib_right mult.assoc by linarith
  have lo: "a = 0 \<Longrightarrow> 16 \<le> x" using assms(1) r by simp
  have hi: "a = 4 \<Longrightarrow> x < 16" using assms(2) r by simp
  have "utf8_encode cp = [0xF0 + a, 0x80 + x, 0x80 + y, 0x80 + z]" using utf8_encode_digits(4) [of a x y z] r a assms by simp
  moreover have "utf8_ok [char_of (0xF0 + a), char_of (0x80 + x), char_of (0x80 + y), char_of (0x80 + z)]"
  proof (intro utf8_ok_sequence)
    show "continuation_ranges (code (char_of (0xF0 + a))) = Some [(if a = 0 then 0x90 else 0x80, if a = 4 then 0x8F else 0xBF), (0x80, 0xBF), (0x80, 0xBF)]"
      using a by (auto simp: continuation_ranges_def)
    show "list_all2 (\<lambda>r c. fst r \<le> code c \<and> code c \<le> snd r) [(if a = 0 then 0x90 else 0x80, if a = 4 then 0x8F else 0xBF), (0x80, 0xBF), (0x80, 0xBF)]
        [char_of (0x80 + x), char_of (0x80 + y), char_of (0x80 + z)]" using r(2-4) lo hi by auto
  qed
  ultimately show ?thesis by simp
qed

lemma utf8_ok_ascii: "code c < 0x80 \<Longrightarrow> utf8_ok [c]"
  by (simp add: utf8_ok_def)

lemma utf8_encode_ok:
  assumes "cp < 0x110000" "\<not> (0xD800 \<le> cp \<and> cp \<le> 0xDFFF)"
  shows "utf8_ok (map char_of (utf8_encode cp))"
proof -
  consider "cp < 0x80" | "0x80 \<le> cp" "cp < 0x800" | "0x800 \<le> cp" "cp < 0x10000" | "0x10000 \<le> cp" by linarith
  then show ?thesis
    by cases (use assms in \<open>simp_all add: utf8_encode_digits(1) utf8_ok_ascii utf8_encode_ok_2 utf8_encode_ok_3 utf8_encode_ok_4\<close>)
qed

lemma hex_value_bound: "hex_value c = Some d \<Longrightarrow> d < 16"
  by (auto simp: hex_value_def in_range_def split: if_splits option.splits)

lemma read_hex_step:
  assumes "read_hex (f # fs) cp s = Some (n, t)"
  obtains d s' where "d < 16" "read_hex fs (cp + push_bit f d) s' = Some (n, t)"
  using assms by (cases s) (auto split: option.splits dest: hex_value_bound)

lemma read_hex4_bound:
  assumes "read_hex4 s = Some (n, t)"
  shows "n < 0x10000"
proof -
  from assms obtain a s1 where 1: "a < 16" "read_hex [8, 4, 0] (0 + push_bit 12 a) s1 = Some (n, t)" by (rule read_hex_step)
  from 1(2) obtain b s2 where 2: "b < 16" "read_hex [4, 0] (0 + push_bit 12 a + push_bit 8 b) s2 = Some (n, t)" by (rule read_hex_step)
  from 2(2) obtain c s3 where 3: "c < 16" "read_hex [0] (0 + push_bit 12 a + push_bit 8 b + push_bit 4 c) s3 = Some (n, t)" by (rule read_hex_step)
  from 3(2) obtain d s4 where 4: "d < 16" "read_hex [] (0 + push_bit 12 a + push_bit 8 b + push_bit 4 c + push_bit 0 d) s4 = Some (n, t)"
    by (rule read_hex_step)
  have "n = a * 4096 + b * 256 + c * 16 + d" using 4(2) by (simp add: push_bit_eq_mult)
  then show ?thesis using 1(1) 2(1) 3(1) 4(1) by linarith
qed

lemma read_unicode_ok:
  assumes "read_unicode s = Some (cp, t)"
  shows "cp < 0x110000 \<and> \<not> (0xD800 \<le> cp \<and> cp \<le> 0xDFFF)"
proof -
  obtain c1 s1 where s1: "read_hex4 s = Some (c1, s1)" using assms by (auto simp: read_unicode_def split: option.splits)
  have c1: "c1 < 0x10000" by (rule read_hex4_bound [OF s1])
  show ?thesis
  proof (cases "0xD800 \<le> c1 \<and> c1 \<le> 0xDBFF")
    case True
    then obtain c2 where "0xDC00 \<le> c2" "c2 \<le> 0xDFFF" "cp = 0x10000 + (c1 - 0xD800) * 0x400 + (c2 - 0xDC00)"
      using assms s1 by (auto simp: read_unicode_def split: list.splits if_splits option.splits)
    then show ?thesis using True by auto
  next
    case False
    then show ?thesis using assms s1 c1 by (auto simp: read_unicode_def split: if_splits)
  qed
qed

lemma simple_escape_ascii: "simple_escape c = Some b \<Longrightarrow> code b < 0x80"
  by (auto simp: simple_escape_def split: if_splits)

lemma read_char_ok:
  assumes "read_char s = Some (w, t)"
  shows "utf8_ok w"
proof -
  obtain c cs where s: "s = c # cs" using assms by (cases s) (auto simp: read_char_def)
  consider (esc) "c = CHR 0x5C" | (plain) "c \<noteq> CHR 0x5C" "code c \<le> 0x7F" | (seq) "c \<noteq> CHR 0x5C" "\<not> code c \<le> 0x7F" by blast
  then show ?thesis
  proof cases
    case esc
    then show ?thesis using assms s read_unicode_ok utf8_encode_ok utf8_ok_ascii [OF simple_escape_ascii]
      by (auto simp: read_char_def split: list.splits if_splits)
  next
    case plain
    then show ?thesis using assms s utf8_ok_ascii [of c] by (auto simp: read_char_def split: if_splits)
  next
    case seq
    then show ?thesis using assms s read_seq_ranges utf8_ok_sequence by (fastforce simp: read_char_def split: if_splits option.splits)
  qed
qed

lemma read_string_ok: "read_string s = Some (b, t) \<Longrightarrow> utf8_ok b"
proof (induction s arbitrary: b t rule: read_string.induct)
  case (1 s)
  show ?case
  proof (cases "s \<noteq> [] \<and> hd s = CHR 0x22")
    case True
    then show ?thesis using "1.prems" by (subst (asm) read_string.simps) (simp add: utf8_ok_def)
  next
    case False
    then obtain w r b' where r: "read_char s = Some (w, r)" "read_string r = Some (b', t)" "b = w @ b'"
      using "1.prems" by (subst (asm) read_string.simps) (auto split: option.splits)
    show ?thesis unfolding r(3) by (rule utf8_ok_append [OF read_char_ok [OF r(1)] "1.IH" [OF False r(1) refl r(2)]])
  qed
qed

subsection \<open>Tokens\<close>

lemma read_number_negative: "read_number s = Some (ValueInteger, x, t) \<Longrightarrow> \<exists>ds. x = CHR ''-'' # ds"
  by (auto simp: read_number_def split: if_splits dest!: read_unsigned_type)

lemma strtoll10_negative:
  assumes "snd (strtoll10 (CHR ''-'' # ds))"
  shows "sint (fst (strtoll10 (CHR ''-'' # ds))) \<le> 0"
proof -
  define i where i: "i = - int (base_value 10 ds)"
  have r: "- (2 ^ 63) \<le> i" "i \<le> 0" using assms by (auto simp: i strtoll10_def Let_def split: if_splits)
  have "sint (of_int i :: 64 word) = signed_take_bit 63 i" by (simp add: signed_of_int)
  also have "\<dots> = i" by (rule signed_take_bit_int_eq_self) (use r in simp_all)
  finally have "sint (of_int i :: 64 word) \<le> 0" using r(2) by simp
  moreover have "fst (strtoll10 (CHR ''-'' # ds)) = of_int i" unfolding strtoll10_def Let_def i [symmetric] using r by (simp add: i)
  ultimately show ?thesis by simp
qed

definition tok_typed :: "tok \<Rightarrow> bool" where
  "tok_typed tk = (case tk of TokString b \<Rightarrow> utf8_ok b | TokInteger i \<Rightarrow> sint i \<le> 0 | _ \<Rightarrow> True)"

lemma read_token_char_typed: "tok_typed (fst (read_token_char c cs))"
proof -
  have n: "tok_typed (number_tok ty x)" if "read_number (c # cs) = Some (ty, x, t)" for ty x t
    using read_number_negative [of "c # cs" x t] that strtoll10_negative by (auto simp: number_tok_def tok_typed_def)
  show ?thesis
    using read_string_ok [of cs] n by (auto simp: read_token_char_def read_literal_def tok_typed_def split: option.splits)
qed

lemma read_token_typed: "tok_typed (fst (read_token s))"
proof -
  define D where "D = dropWhile ws s"
  show ?thesis unfolding read_token_def D_def [symmetric]
    by (cases D) (simp_all add: read_token_char_typed, simp add: tok_typed_def)
qed

subsection \<open>Values\<close>

definition member_typed :: "string \<times> json \<Rightarrow> bool" where
  "member_typed kv \<longleftrightarrow> utf8_ok (fst kv) \<and> json_typed (snd kv)"

lemma json_typed_object: "json_typed (JObject m) \<longleftrightarrow> map_ok m \<and> list_all member_typed m"
  by (simp add: member_typed_def list_all_iff split_def)

lemma map_set_typed: "list_all member_typed m \<Longrightarrow> member_typed (k, v) \<Longrightarrow> list_all member_typed (map_set k v m)"
  by (induction k v m rule: map_set.induct) auto

lemma member_fold_typed:
  "list_all member_typed kvs \<Longrightarrow> list_all member_typed m \<Longrightarrow> map_ok m \<Longrightarrow>
     list_all member_typed (member_fold kvs m) \<and> map_ok (member_fold kvs m)"
  by (induction kvs arbitrary: m) (auto simp: map_set_typed map_ok_map_set)

lemma read_value_typed:
  assumes elems: "\<And>t vs r. length t < length s \<Longrightarrow> read_elems t = Some (vs, r) \<Longrightarrow> list_all json_typed vs"
    and members: "\<And>t kvs r. length t < length s \<Longrightarrow> read_members t = Some (kvs, r) \<Longrightarrow> list_all member_typed kvs"
    and rd: "read_value s = Some (v, r)"
  shows "json_typed v"
proof -
  obtain tk t where tk: "read_token s = (tk, t)" by fastforce
  have typed: "tok_typed tk" using read_token_typed [of s] tk by simp
  have eq: "read_value s = (case read_token s of
     (TokString b, t) \<Rightarrow> Some (JString b, t)
   | (TokUnsigned n, t) \<Rightarrow> Some (JUnsigned n, t)
   | (TokInteger n, t) \<Rightarrow> Some (JInteger n, t)
   | (TokFloat f, t) \<Rightarrow> if isfinite f then Some (JFloat f, t) else None
   | (Tok LiteralNull, t) \<Rightarrow> Some (JNull, t)
   | (Tok LiteralTrue, t) \<Rightarrow> Some (JBoolean True, t)
   | (Tok LiteralFalse, t) \<Rightarrow> Some (JBoolean False, t)
   | (Tok BeginArray, t) \<Rightarrow> if fst (read_token t) = Tok EndArray then Some (JArray [], snd (read_token t))
       else map_option (map_prod JArray id) (read_elems t)
   | (Tok BeginObject, t) \<Rightarrow> if fst (read_token t) = Tok EndObject then Some (JObject [], snd (read_token t))
       else map_option (map_prod (\<lambda>kvs. JObject (member_fold kvs [])) id) (read_members t)
   | _ \<Rightarrow> None)" by (rule read_value.simps)
  consider (arr) "tk = Tok BeginArray" | (obj) "tk = Tok BeginObject" | (other) "tk \<noteq> Tok BeginArray" "tk \<noteq> Tok BeginObject" by blast
  then show ?thesis
  proof cases
    case arr
    then have "length t < length s" using read_token_lens(1) tk by simp
    then show ?thesis using rd elems arr unfolding eq tk by (auto split: if_splits)
  next
    case obj
    then have l: "length t < length s" using read_token_lens(2) tk by simp
    show ?thesis using rd obj member_fold_typed [OF members [OF l], of _ _ "[]"] unfolding eq tk
      by (auto simp: json_typed_object simp del: json_typed.simps(9) split: if_splits)
  next
    case other
    then show ?thesis using rd typed unfolding eq tk by (auto simp: tok_typed_def split: tok.splits token_type.splits if_splits)
  qed
qed

lemma read_typed:
  "(\<forall>v t. read_value s = Some (v, t) \<longrightarrow> json_typed v) \<and> (\<forall>vs t. read_elems s = Some (vs, t) \<longrightarrow> list_all json_typed vs) \<and>
   (\<forall>kvs t. read_members s = Some (kvs, t) \<longrightarrow> list_all member_typed kvs)"
proof (induction "length s" arbitrary: s rule: less_induct)
  case less
  have v: "json_typed v" if "read_value s = Some (v, t)" for v t
    by (rule read_value_typed [OF _ _ that]) (use less in blast)+
  have e: "list_all json_typed vs" if el: "read_elems s = Some (vs, t)" for vs t
  proof -
    obtain u r where u: "read_value s = Some (u, r)" using el by (subst (asm) read_elems_eq) (auto split: option.splits)
    have "length (snd (read_token r)) < length s" if "fst (read_token r) = Tok ValueSeparator"
      using read_shorter(1) [OF u] read_token_lens(4) [OF that] by simp
    then show ?thesis using el u v [OF u] less by (subst (asm) read_elems_eq) (auto split: if_splits)
  qed
  have m: "list_all member_typed kvs" if ml: "read_members s = Some (kvs, t)" for kvs t
  proof -
    obtain k r1 where k: "read_token s = (TokString k, r1)" "fst (read_token r1) = Tok NameSeparator"
      using ml by (subst (asm) read_members_eq) (auto split: prod.splits tok.splits if_splits)
    obtain u r where u: "read_value (snd (read_token r1)) = Some (u, r)"
      using ml k by (subst (asm) read_members_eq) (auto split: option.splits)
    have l: "length (snd (read_token r1)) < length s" using read_token_lens(3) [OF k(1)] read_token_lens(5) [OF k(2)] by simp
    have kt: "member_typed (k, u)" using read_token_typed [of s] k(1) less l u by (auto simp: tok_typed_def member_typed_def)
    have "length (snd (read_token r)) < length s" if "fst (read_token r) = Tok ValueSeparator"
      using read_shorter(1) [OF u] read_token_lens(4) [OF that] l by simp
    then show ?thesis using ml k u kt less by (subst (asm) read_members_eq) (auto split: if_splits)
  qed
  show ?case using v e m by blast
qed

text \<open>C4: Whatever text is parsed without an exception, the value is well-typed, or it is the discarded value, which the parser returns for
  a text it refuses when exceptions are off. In particular every string and key in it is UTF-8 and keys are unique and sorted.\<close>

theorem json_parse_typed:
  assumes "json_parse s allow = Inr v"
  shows "json_typed v \<or> (v = JDiscarded \<and> \<not> allow)"
proof (cases "json_text s")
  case None
  then show ?thesis using assms json_parse_reads [where s = s and allow = allow] by (auto simp: parse_rejects_def split: if_splits)
next
  case (Some w)
  then have "v = w" using assms json_parse_reads [where s = s and allow = allow] by simp
  moreover obtain u r where "read_value u = Some (w, r)" using Some by (auto simp: json_text_def split: option.splits if_splits)
  then have "json_typed w" using read_typed [of u] by blast
  ultimately show ?thesis by simp
qed

theorem json_parse_typed_witness:
  "json_parse ''[1, -0]'' True = Inr (JArray [JUnsigned 1, JInteger 0]) \<and> json_typed (JArray [JUnsigned 1, JInteger 0])"
proof -
  have n: "read_value ''1, -0]'' = Some (JUnsigned 1, '', -0]'')" "read_value '' -0]'' = Some (JInteger 0, '']'')"
    by (simp_all add: read_value.simps read_token_def read_token_char_def read_number_def read_unsigned_def read_tail_def
        read_exp_opt_def in_range_def number_tok_def strtoull10_def strtoll10_def base_value_def digit_val_def)
  have "read_elems ''1, -0]'' = Some ([JUnsigned 1, JInteger 0], [])"
    by (subst read_elems_eq) (simp add: n read_elems_eq [of "'' -0]''"] read_token_structural)
  then have "read_value ''[1, -0]'' = Some (JArray [JUnsigned 1, JInteger 0], [])"
    using read_value_start [OF n(1)] by (simp add: read_value.simps read_token_structural)
  then have p: "json_parse ''[1, -0]'' True = Inr (JArray [JUnsigned 1, JInteger 0])" by (rule parse_of_text)
  show ?thesis using json_parse_typed [OF p] p by simp
qed

end
