(* ===== verification/RedisModel.thy ===== *)
theory RedisModel
  imports Common
begin

text \<open>
  The Redis client (\<^verbatim>\<open>src/redis/RedisClient.h\<close>, \<^verbatim>\<open>RedisClient.cc\<close>).

  The library hiredis is a parameter: a record of the functions the client calls, over contexts \<open>'c\<close> and the world \<open>'w\<close> outside
  (the Redis server and the connection to it). The client is its fields with the mutex as a flag; locking a mutex that an
  earlier call never released is a deadlock. A call through a null context is a fault, and so is the use of a reply pointer that
  \<^verbatim>\<open>redisGetReply\<close> did not set. The texts that are logged are kept in \<open>redis_log\<close>.
\<close>

subsection \<open>The library\<close>

datatype redisReply =
    ReplyString string | ReplyArray "redisReply list" | ReplyInteger int | ReplyNil | ReplyStatus string | ReplyError string

text \<open>The field \<^verbatim>\<open>str\<close>, a null pointer for the other kinds of reply.\<close>

fun reply_str :: "redisReply \<Rightarrow> string option" where
  "reply_str (ReplyString s) = Some s"
| "reply_str (ReplyStatus s) = Some s"
| "reply_str (ReplyError s) = Some s"
| "reply_str _ = None"

text \<open>\<^verbatim>\<open>redisFormat\<close> makes the words of a command from a format that has no arguments. \<^verbatim>\<open>redisGetReply\<close> returns \<open>None\<close> for
  \<^verbatim>\<open>REDIS_ERR\<close>, which leaves the variable for the reply as it was.\<close>

record ('c, 'w) hiredis =
  redisConnectWithTimeout :: "string \<Rightarrow> int \<Rightarrow> 'w \<Rightarrow> 'c option \<times> 'w"
  ctx_err :: "'c \<Rightarrow> bool"
  redisFormat :: "string \<Rightarrow> string list"
  redisCommandArgv :: "string list \<Rightarrow> 'c \<Rightarrow> 'w \<Rightarrow> redisReply option \<times> 'c \<times> 'w"
  redisAppendCommand :: "string list \<Rightarrow> 'c \<Rightarrow> 'w \<Rightarrow> 'c \<times> 'w"
  redisGetReply :: "'c \<Rightarrow> 'w \<Rightarrow> redisReply option option \<times> 'c \<times> 'w"

definition c_str :: "string \<Rightarrow> string" where
  "c_str s = takeWhile (\<lambda>c. c \<noteq> CHR 0x00) s"

definition to_lower :: "char \<Rightarrow> char" where
  "to_lower c = (let n = of_char c :: nat in if 0x41 \<le> n \<and> n \<le> 0x5A then char_of (n + 0x20) else c)"

definition strcasecmp_eq :: "string \<Rightarrow> string \<Rightarrow> bool" where
  "strcasecmp_eq s t = (map to_lower (c_str s) = map to_lower (c_str t))"

definition status_is :: "string \<Rightarrow> redisReply \<Rightarrow> bool" where
  "status_is t r = (case r of ReplyStatus s \<Rightarrow> strcasecmp_eq s t | _ \<Rightarrow> False)"

subsection \<open>The client\<close>

record 'c RedisClient =
  context_ptr :: "'c option"
  redis_ip :: string
  redis_port :: int
  redis_passwd :: string
  redis_db :: int
  mutex_locked :: bool
  redis_log :: "string option list"

definition mkRedisClient :: "string \<Rightarrow> int \<Rightarrow> string \<Rightarrow> int \<Rightarrow> 'c RedisClient" where
  "mkRedisClient ip port passwd db = \<lparr>context_ptr = None, redis_ip = ip, redis_port = port, redis_passwd = passwd, redis_db = db,
     mutex_locked = False, redis_log = []\<rparr>"

definition redis_lock :: "'c RedisClient \<times> 'w \<Rightarrow> ('c RedisClient \<times> 'w) result" where
  "redis_lock s = (if mutex_locked (fst s) then Inl Deadlock else Inr ((fst s)\<lparr>mutex_locked := True\<rparr>, snd s))"

definition redis_unlock :: "'c RedisClient \<times> 'w \<Rightarrow> 'c RedisClient \<times> 'w" where
  "redis_unlock s = ((fst s)\<lparr>mutex_locked := False\<rparr>, snd s)"

definition redisCommand :: "('c, 'w) hiredis \<Rightarrow> string list \<Rightarrow> 'c RedisClient \<times> 'w \<Rightarrow> (redisReply option \<times> 'c RedisClient \<times> 'w) result" where
  "redisCommand H cmd s = (case context_ptr (fst s) of
     None \<Rightarrow> Inl NullDereference
   | Some c \<Rightarrow> (let (reply, c, w) = redisCommandArgv H cmd c (snd s) in Inr (reply, (fst s)\<lparr>context_ptr := Some c\<rparr>, w)))"

definition Reset :: "'c RedisClient \<Rightarrow> 'c RedisClient" where
  "Reset r = r\<lparr>context_ptr := None\<rparr>"

definition Auth :: "('c, 'w) hiredis \<Rightarrow> 'c RedisClient \<times> 'w \<Rightarrow> (bool \<times> 'c RedisClient \<times> 'w) result" where
  "Auth H s = (if redis_passwd (fst s) = [] then Inr (True, s) else
     rbind (redisCommand H [''AUTH'', c_str (redis_passwd (fst s))] s) (\<lambda>(reply, s).
     Inr (case reply of None \<Rightarrow> False | Some r \<Rightarrow> status_is ''OK'' r, s)))"

text \<open>\<^verbatim>\<open>Ping\<close> and \<^verbatim>\<open>Select\<close> are satisfied with any reply.\<close>

definition Ping :: "('c, 'w) hiredis \<Rightarrow> 'c RedisClient \<times> 'w \<Rightarrow> (bool \<times> 'c RedisClient \<times> 'w) result" where
  "Ping H s = rbind (redisCommand H [''PING''] s) (\<lambda>(reply, s).
     Inr (case reply of None \<Rightarrow> False | Some r \<Rightarrow> if status_is ''PONG'' r then True else True, s))"

definition Select :: "('c, 'w) hiredis \<Rightarrow> 'c RedisClient \<times> 'w \<Rightarrow> (bool \<times> 'c RedisClient \<times> 'w) result" where
  "Select H s = rbind (redisCommand H [''SELECT'', dec_of_int (redis_db (fst s))] s) (\<lambda>(reply, s).
     Inr (case reply of None \<Rightarrow> False | Some r \<Rightarrow> if status_is ''OK'' r then True else True, s))"

definition Connect :: "('c, 'w) hiredis \<Rightarrow> 'c RedisClient \<times> 'w \<Rightarrow> (bool \<times> 'c RedisClient \<times> 'w) result" where
  "Connect H s = (
     let (c, w) = redisConnectWithTimeout H (c_str (redis_ip (fst s))) (redis_port (fst s)) (snd s);
         r = (fst s)\<lparr>context_ptr := c\<rparr> in
     if (case c of None \<Rightarrow> True | Some c \<Rightarrow> ctx_err H c) then Inr (False, Reset r, w) else
     rbind (Auth H (r, w)) (\<lambda>(ok, s). if \<not> ok then Inr (False, s) else
     rbind (Ping H s) (\<lambda>(ok, s). if \<not> ok then Inr (False, s) else
     rbind (Select H s) (\<lambda>(ok, s). Inr (ok, s)))))"

text \<open>The loop of \<^verbatim>\<open>Active\<close>; \<open>count\<close> is at most 3.\<close>

function active_loop :: "('c, 'w) hiredis \<Rightarrow> nat \<Rightarrow> 'c RedisClient \<times> 'w \<Rightarrow> (bool \<times> 'c RedisClient \<times> 'w) result" where
  "active_loop H count s = (if context_ptr (fst s) \<noteq> None then Inr (True, s) else
     rbind (Connect H s) (\<lambda>(_, s). if 3 < count + 1 then Inr (False, s) else active_loop H (count + 1) s))"
  by pat_completeness auto

termination
  by (relation "measure (\<lambda>(_, count, _). 4 - count)") auto

declare active_loop.simps [simp del]

definition Active :: "('c, 'w) hiredis \<Rightarrow> 'c RedisClient \<times> 'w \<Rightarrow> (bool \<times> 'c RedisClient \<times> 'w) result" where
  "Active H s = (if (case context_ptr (fst s) of None \<Rightarrow> False | Some c \<Rightarrow> \<not> ctx_err H c) then Inr (True, s)
     else active_loop H 0 (Reset (fst s), snd s))"

text \<open>\<^verbatim>\<open>Execute\<close>, both overloads. When the client is not active the mutex stays locked.\<close>

definition Execute :: "('c, 'w) hiredis \<Rightarrow> string list \<Rightarrow> 'c RedisClient \<times> 'w \<Rightarrow> (redisReply option \<times> 'c RedisClient \<times> 'w) result" where
  "Execute H cmd s = rbind (redis_lock s) (\<lambda>s. rbind (Active H s) (\<lambda>(ok, s).
     if \<not> ok then Inr (None, s) else
     rbind (redisCommand H cmd s) (\<lambda>(reply, s). Inr (reply, redis_unlock s))))"

definition Execute_text :: "('c, 'w) hiredis \<Rightarrow> string \<Rightarrow> 'c RedisClient \<times> 'w \<Rightarrow> (redisReply option \<times> 'c RedisClient \<times> 'w) result" where
  "Execute_text H cmd s = rbind (redis_lock s) (\<lambda>s. rbind (Active H s) (\<lambda>(ok, s).
     if \<not> ok then Inr (None, s) else
     rbind (redisCommand H (redisFormat H (c_str cmd)) s) (\<lambda>(reply, s). Inr (reply, redis_unlock s))))"

text \<open>The first loop of \<^verbatim>\<open>PipeLine\<close>, and the second with the variable \<^verbatim>\<open>reply\<close>: not set yet, null, or pointing to a reply that
  has been freed.\<close>

fun append_commands :: "('c, 'w) hiredis \<Rightarrow> string list \<Rightarrow> 'c RedisClient \<times> 'w \<Rightarrow> ('c RedisClient \<times> 'w) result" where
  "append_commands H [] s = Inr s"
| "append_commands H (it # cmd) s = (case context_ptr (fst s) of
     None \<Rightarrow> Inl NullDereference
   | Some c \<Rightarrow> (let (c, w) = redisAppendCommand H (redisFormat H (c_str it)) c (snd s) in
       append_commands H cmd ((fst s)\<lparr>context_ptr := Some c\<rparr>, w)))"

datatype reply_var = Unset | Null | Freed

fun get_replies :: "('c, 'w) hiredis \<Rightarrow> nat \<Rightarrow> reply_var \<Rightarrow> 'c RedisClient \<times> 'w \<Rightarrow> ('c RedisClient \<times> 'w) result" where
  "get_replies H 0 var s = Inr s"
| "get_replies H (Suc n) var s = (case context_ptr (fst s) of
     None \<Rightarrow> Inl NullDereference
   | Some c \<Rightarrow> (let (got, c, w) = redisGetReply H c (snd s); r = (fst s)\<lparr>context_ptr := Some c\<rparr> in
       case got of
         None \<Rightarrow> (case var of Unset \<Rightarrow> Inl Uninitialised | Freed \<Rightarrow> Inl UseAfterFree | Null \<Rightarrow> get_replies H n Null (r, w))
       | Some None \<Rightarrow> get_replies H n Null (r, w)
       | Some (Some reply) \<Rightarrow>
           get_replies H n Freed (if status_is ''OK'' reply then r else r\<lparr>redis_log := redis_log r @ [reply_str reply]\<rparr>, w)))"

definition PipeLine :: "('c, 'w) hiredis \<Rightarrow> string list \<Rightarrow> 'c RedisClient \<times> 'w \<Rightarrow> ('c RedisClient \<times> 'w) result" where
  "PipeLine H cmd s = rbind (redis_lock s) (\<lambda>s. rbind (append_commands H cmd s) (\<lambda>s.
     rbind (get_replies H (length cmd) Unset s) (\<lambda>s. Inr (redis_unlock s))))"

definition log_reply :: "string option \<Rightarrow> 'c RedisClient \<times> 'w \<Rightarrow> 'c RedisClient \<times> 'w" where
  "log_reply m s = ((fst s)\<lparr>redis_log := redis_log (fst s) @ [m]\<rparr>, snd s)"

fun mget_values :: "redisReply list \<Rightarrow> string list" where
  "mget_values [] = []"
| "mget_values (rep # reps) = (case rep of ReplyString s \<Rightarrow> [s] | ReplyInteger i \<Rightarrow> [dec_of_int i] | _ \<Rightarrow> []) @ mget_values reps"

definition MGet :: "('c, 'w) hiredis \<Rightarrow> string list \<Rightarrow> 'c RedisClient \<times> 'w \<Rightarrow> (string list \<times> 'c RedisClient \<times> 'w) result" where
  "MGet H cmd s = rbind (Execute H (''MGET'' # cmd) s) (\<lambda>(reply, s).
     Inr (case reply of
       None \<Rightarrow> ([], log_reply None s)
     | Some ReplyNil \<Rightarrow> ([], s)
     | Some (ReplyArray reps) \<Rightarrow> (mget_values reps, s)
     | Some r \<Rightarrow> ([], log_reply (reply_str r) s)))"

text \<open>\<^verbatim>\<open>hmap.insert\<close> keeps the first value of a key; the map is a list of its entries.\<close>

definition hmap_insert :: "string \<Rightarrow> string \<Rightarrow> (string \<times> string) list \<Rightarrow> (string \<times> string) list" where
  "hmap_insert k v m = (if map_of m k = None then m @ [(k, v)] else m)"

text \<open>The loop over pairs; \<open>k\<close> and \<open>v\<close> are the variables \<^verbatim>\<open>key\<close> and \<^verbatim>\<open>value\<close>, which live across iterations.\<close>

fun hgetall_entries :: "redisReply list \<Rightarrow> string \<Rightarrow> string \<Rightarrow> (string \<times> string) list \<Rightarrow> (string \<times> string) list result" where
  "hgetall_entries [] k v m = Inr m"
| "hgetall_entries [rep] k v m = Inl OutOfBounds"
| "hgetall_entries (rep # rep' # reps) k v m = (
     let k = (case rep of ReplyString s \<Rightarrow> s | _ \<Rightarrow> k);
         v = (case rep' of ReplyString s \<Rightarrow> s | ReplyInteger i \<Rightarrow> dec_of_int i | _ \<Rightarrow> v) in
     hgetall_entries reps k v (hmap_insert k v m))"

definition HGetAll :: "('c, 'w) hiredis \<Rightarrow> string \<Rightarrow> 'c RedisClient \<times> 'w \<Rightarrow> ((string \<times> string) list \<times> 'c RedisClient \<times> 'w) result" where
  "HGetAll H cmd s = rbind (Execute H [''HGETALL'', cmd] s) (\<lambda>(reply, s).
     case reply of
       None \<Rightarrow> Inr ([], log_reply None s)
     | Some ReplyNil \<Rightarrow> Inr ([], s)
     | Some (ReplyArray reps) \<Rightarrow> rbind (hgetall_entries reps [] [] []) (\<lambda>m. Inr (m, s))
     | Some r \<Rightarrow> Inr ([], log_reply (reply_str r) s))"

subsection \<open>A server that cannot be reached\<close>

text \<open>Every attempt to connect fails.\<close>

definition unreachable :: "('c, 'w) hiredis \<Rightarrow> bool" where
  "unreachable H \<longleftrightarrow> (\<forall>ip port w. case fst (redisConnectWithTimeout H ip port w) of None \<Rightarrow> True | Some c \<Rightarrow> ctx_err H c)"

lemma Connect_unreachable:
  assumes "unreachable H"
  obtains w' where "Connect H (r, w) = Inr (False, Reset r, w')"
proof -
  obtain c w' where c: "redisConnectWithTimeout H (c_str (redis_ip r)) (redis_port r) w = (c, w')" by fastforce
  have "case fst (redisConnectWithTimeout H (c_str (redis_ip r)) (redis_port r) w) of None \<Rightarrow> True | Some c \<Rightarrow> ctx_err H c"
    using assms unfolding unreachable_def by (elim allE)
  then have "case c of None \<Rightarrow> True | Some c \<Rightarrow> ctx_err H c" unfolding c by simp
  then have "Connect H (r, w) = Inr (False, Reset r, w')" by (simp add: Connect_def c Reset_def)
  then show ?thesis by (rule that)
qed

lemma Reset_id: "context_ptr r = None \<Longrightarrow> Reset r = r"
  by (simp add: Reset_def)

lemma active_loop_unreachable:
  assumes "unreachable H" and "context_ptr r = None" and "count \<le> 3"
  shows "\<exists>w'. active_loop H count (r, w) = Inr (False, r, w')"
  using assms(3)
proof (induction "3 - count" arbitrary: count w)
  case 0
  obtain w1 where w1: "Connect H (r, w) = Inr (False, r, w1)" using Connect_unreachable [OF assms(1), of r w] Reset_id [OF assms(2)] by metis
  have "active_loop H count (r, w) = Inr (False, r, w1)" using 0 by (subst active_loop.simps) (simp add: w1 assms(2))
  then show ?case by blast
next
  case (Suc n)
  obtain w1 where w1: "Connect H (r, w) = Inr (False, r, w1)" using Connect_unreachable [OF assms(1), of r w] Reset_id [OF assms(2)] by metis
  have "active_loop H count (r, w) = active_loop H (count + 1) (r, w1)"
    using Suc.hyps(2) by (subst active_loop.simps) (auto simp: w1 assms(2))
  then show ?case using Suc.hyps(1) [of "count + 1" w1] Suc.hyps(2) Suc.prems by simp
qed

lemma Execute_unreachable:
  assumes "unreachable H" and "context_ptr r = None" and "\<not> mutex_locked r"
  shows "\<exists>w'. Execute H cmd (r, w) = Inr (None, r\<lparr>mutex_locked := True\<rparr>, w')"
  using active_loop_unreachable [OF assms(1), of "r\<lparr>mutex_locked := True\<rparr>" 0 w] assms(2,3)
  by (auto simp: Execute_def redis_lock_def Active_def Reset_id)

lemma locked_blocks:
  assumes "mutex_locked r"
  shows "Execute H cmd (r, w) = Inl Deadlock" "PipeLine H cmds (r, w) = Inl Deadlock"
    "MGet H keys (r, w) = Inl Deadlock" "HGetAll H key (r, w) = Inl Deadlock"
  using assms by (simp_all add: Execute_def redis_lock_def PipeLine_def MGet_def HGetAll_def)

text \<open>C34: When Redis cannot be reached, a command returns no reply but leaves the mutex of the client locked, so the next operation on the
  client, whatever it is, never returns.\<close>

theorem unreachable_redis_deadlocks:
  assumes "unreachable H" and "context_ptr r = None" and "\<not> mutex_locked r"
  shows "\<exists>r' w'. Execute H cmd (r, w) = Inr (None, r', w') \<and>
     Execute H cmd' (r', w') = Inl Deadlock \<and> PipeLine H cmds (r', w') = Inl Deadlock \<and>
     MGet H keys (r', w') = Inl Deadlock \<and> HGetAll H key (r', w') = Inl Deadlock"
proof -
  obtain w' where e: "Execute H cmd (r, w) = Inr (None, r\<lparr>mutex_locked := True\<rparr>, w')" using Execute_unreachable [OF assms] by blast
  have l: "mutex_locked (r\<lparr>mutex_locked := True\<rparr>)" by simp
  show ?thesis using e locked_blocks [OF l] by (intro exI conjI)
qed

definition down_redis :: "(unit, unit) hiredis" where
  "down_redis = \<lparr>redisConnectWithTimeout = (\<lambda>_ _ w. (None, w)), ctx_err = (\<lambda>_. False), redisFormat = (\<lambda>s. [s]),
     redisCommandArgv = (\<lambda>_ c w. (None, c, w)), redisAppendCommand = (\<lambda>_ c w. (c, w)), redisGetReply = (\<lambda>c w. (None, c, w))\<rparr>"

theorem unreachable_redis_deadlocks_witness:
  "\<exists>r' w'. Execute down_redis [''PING''] (mkRedisClient ''127.0.0.1'' 6379 [] 0, ()) = Inr (None, r', w') \<and>
     Execute down_redis [''PING''] (r', w') = Inl Deadlock \<and> PipeLine down_redis [] (r', w') = Inl Deadlock \<and>
     MGet down_redis [] (r', w') = Inl Deadlock \<and> HGetAll down_redis [] (r', w') = Inl Deadlock"
  by (rule unreachable_redis_deadlocks) (simp_all add: unreachable_def down_redis_def mkRedisClient_def)

text \<open>A pipeline does not try to connect: on a client whose connection was refused at the start it goes through the null context.\<close>

theorem pipeline_on_null_context:
  assumes "unreachable H" and "Connect H (mkRedisClient ip port passwd db, w) = Inr (ok, r, w')" and "cmds \<noteq> []"
  shows "\<not> ok \<and> PipeLine H cmds (r, w'') = Inl NullDereference"
proof -
  have "\<not> ok \<and> r = mkRedisClient ip port passwd db"
    using Connect_unreachable [OF assms(1), of "mkRedisClient ip port passwd db" w] assms(2) by (metis Inr_inject Pair_inject Reset_id RedisClient.select_convs(1) mkRedisClient_def)
  then show ?thesis using assms(3) by (cases cmds) (auto simp: PipeLine_def redis_lock_def mkRedisClient_def)
qed

theorem pipeline_on_null_context_witness:
  "PipeLine down_redis [''EXPIRE mid_7 1800''] (mkRedisClient ''127.0.0.1'' 6379 [] 0, ()) = Inl NullDereference"
proof -
  have "Connect down_redis (mkRedisClient ''127.0.0.1'' 6379 [] 0, ()) = Inr (False, mkRedisClient ''127.0.0.1'' 6379 [] 0, ())"
    by (simp add: Connect_def down_redis_def Reset_def mkRedisClient_def)
  moreover have "unreachable down_redis" by (simp add: unreachable_def down_redis_def)
  ultimately show ?thesis using pipeline_on_null_context [of down_redis "''127.0.0.1''" 6379 "[]" 0 "()"] by blast
qed

end
