(* ===== verification/RedisStore.thy ===== *)
theory RedisStore
  imports RedisModel "HOL-Library.AList"
begin

text \<open>
  The Redis server as its documentation describes it, and what the client does with it.

  \<open>redis_exec\<close> is the documented effect and reply of the commands the program sends, on the strings and hashes the server holds
  (the time to live of a key is left out: no key expires while a theorem looks at it). \<open>redis_documented\<close> says that the library
  carries commands to such a server: a command on a context without error is answered, appended commands are answered in order, and a
  text of plain words is a command of these words. It is the hypothesis of the theorems; \<open>local_redis\<close> is an instance.
\<close>

subsection \<open>The server\<close>

record store =
  strs :: "string \<Rightarrow> string option"
  hashes :: "string \<Rightarrow> (string \<times> string) list option"

definition hash_of :: "store \<Rightarrow> string \<Rightarrow> (string \<times> string) list" where
  "hash_of st k = (case hashes st k of None \<Rightarrow> [] | Some h \<Rightarrow> h)"

definition wrong_type :: redisReply where
  "wrong_type = ReplyError ''WRONGTYPE Operation against a key holding the wrong kind of value''"

definition redis_exec :: "string list \<Rightarrow> store \<Rightarrow> redisReply \<times> store" where
  "redis_exec cmd st = (case cmd of
     [] \<Rightarrow> (ReplyError ''ERR unknown command'', st)
   | op # args \<Rightarrow>
     if op = ''PING'' then (ReplyStatus ''PONG'', st)
     else if op = ''SELECT'' then (ReplyStatus ''OK'', st)
     else if op = ''MGET'' then (ReplyArray (map (\<lambda>k. case strs st k of None \<Rightarrow> ReplyNil | Some v \<Rightarrow> ReplyString v) args), st)
     else (case (op, args) of
       (_, [k]) \<Rightarrow>
         if op = ''HGETALL'' then
           (if strs st k \<noteq> None then (wrong_type, st)
            else (ReplyArray (concat (map (\<lambda>(f, v). [ReplyString f, ReplyString v]) (hash_of st k))), st))
         else if op = ''DEL'' then
           (ReplyInteger (if strs st k \<noteq> None \<or> hashes st k \<noteq> None then 1 else 0),
            st\<lparr>strs := (strs st)(k := None), hashes := (hashes st)(k := None)\<rparr>)
         else (ReplyError ''ERR unknown command'', st)
     | (_, [k, x]) \<Rightarrow>
         if op = ''SET'' then (ReplyStatus ''OK'', st\<lparr>strs := (strs st)(k \<mapsto> x), hashes := (hashes st)(k := None)\<rparr>)
         else if op = ''EXPIRE'' then (ReplyInteger (if strs st k \<noteq> None \<or> hashes st k \<noteq> None then 1 else 0), st)
         else if op = ''HDEL'' then
           (if strs st k \<noteq> None then (wrong_type, st)
            else (ReplyInteger (if map_of (hash_of st k) x \<noteq> None then 1 else 0),
                  st\<lparr>hashes := (hashes st)(k := (if AList.delete x (hash_of st k) = [] then None else Some (AList.delete x (hash_of st k))))\<rparr>))
         else (ReplyError ''ERR unknown command'', st)
     | (_, [k, f, v]) \<Rightarrow>
         if op = ''HSET'' then
           (if strs st k \<noteq> None then (wrong_type, st)
            else (ReplyInteger (if map_of (hash_of st k) f \<noteq> None then 0 else 1), st\<lparr>hashes := (hashes st)(k \<mapsto> AList.update f v (hash_of st k))\<rparr>))
         else (ReplyError ''ERR unknown command'', st)
     | _ \<Rightarrow> (ReplyError ''ERR unknown command'', st)))"

subsection \<open>The library on this server\<close>

definition plain_word :: "string \<Rightarrow> bool" where
  "plain_word w \<longleftrightarrow> w \<noteq> [] \<and> CHR '' '' \<notin> set w \<and> CHR ''%'' \<notin> set w \<and> CHR 0x00 \<notin> set w"

definition redis_documented :: "('c, 'w) hiredis \<Rightarrow> ('w \<Rightarrow> store) \<Rightarrow> ('c \<Rightarrow> string list list) \<Rightarrow> bool" where
  "redis_documented H view queue \<longleftrightarrow>
     (\<forall>cmd c w. \<not> ctx_err H c \<longrightarrow> queue c = [] \<longrightarrow> (\<exists>c' w'. redisCommandArgv H cmd c w = (Some (fst (redis_exec cmd (view w))), c', w') \<and>
        \<not> ctx_err H c' \<and> queue c' = [] \<and> view w' = snd (redis_exec cmd (view w)))) \<and>
     (\<forall>cmd c w. \<not> ctx_err H c \<longrightarrow> (\<exists>c' w'. redisAppendCommand H cmd c w = (c', w') \<and> \<not> ctx_err H c' \<and> queue c' = queue c @ [cmd] \<and> view w' = view w)) \<and>
     (\<forall>c w cmd cmds. \<not> ctx_err H c \<longrightarrow> queue c = cmd # cmds \<longrightarrow> (\<exists>c' w'. redisGetReply H c w = (Some (Some (fst (redis_exec cmd (view w)))), c', w') \<and>
        \<not> ctx_err H c' \<and> queue c' = cmds \<and> view w' = snd (redis_exec cmd (view w)))) \<and>
     (\<forall>ws. ws \<noteq> [] \<longrightarrow> list_all plain_word ws \<longrightarrow> redisFormat H (join '' '' ws) = ws)"

definition client_ready :: "('c, 'w) hiredis \<Rightarrow> ('c \<Rightarrow> string list list) \<Rightarrow> 'c RedisClient \<Rightarrow> bool" where
  "client_ready H queue r \<longleftrightarrow> \<not> mutex_locked r \<and> (\<exists>c. context_ptr r = Some c \<and> \<not> ctx_err H c \<and> queue c = [])"

text \<open>A server inside the process, for concrete examples: a context is the queue of commands that wait for their replies.\<close>

definition local_redis :: "(string list list, store) hiredis" where
  "local_redis = \<lparr>redisConnectWithTimeout = (\<lambda>_ _ w. (Some [], w)), ctx_err = (\<lambda>_. False), redisFormat = (\<lambda>s. split s '' ''),
     redisCommandArgv = (\<lambda>cmd c w. (Some (fst (redis_exec cmd w)), c, snd (redis_exec cmd w))),
     redisAppendCommand = (\<lambda>cmd c w. (c @ [cmd], w)),
     redisGetReply = (\<lambda>c w. case c of [] \<Rightarrow> (None, [], w) | cmd # c \<Rightarrow> (Some (Some (fst (redis_exec cmd w))), c, snd (redis_exec cmd w)))\<rparr>"

definition empty_store :: store where
  "empty_store = \<lparr>strs = (\<lambda>_. None), hashes = (\<lambda>_. None)\<rparr>"

lemma local_redis_documented: "redis_documented local_redis (\<lambda>w. w) (\<lambda>c. c)"
proof -
  have "redisFormat local_redis (join '' '' ws) = ws" if "ws \<noteq> []" "list_all plain_word ws" for ws
    using that split_join [of ws "CHR '' ''"] by (cases "ws = [[]]") (auto simp: local_redis_def plain_word_def list_all_iff)
  then show ?thesis by (simp add: redis_documented_def) (simp add: local_redis_def)
qed

subsection \<open>Operations of the client\<close>

lemma documentedD:
  assumes "redis_documented H view queue"
  shows "\<lbrakk>\<not> ctx_err H c; queue c = []\<rbrakk> \<Longrightarrow> \<exists>c' w'. redisCommandArgv H cmd c w = (Some (fst (redis_exec cmd (view w))), c', w') \<and>
        \<not> ctx_err H c' \<and> queue c' = [] \<and> view w' = snd (redis_exec cmd (view w))"
    and "\<not> ctx_err H c \<Longrightarrow> \<exists>c' w'. redisAppendCommand H cmd c w = (c', w') \<and> \<not> ctx_err H c' \<and> queue c' = queue c @ [cmd] \<and> view w' = view w"
    and "\<lbrakk>\<not> ctx_err H c; queue c = cmd # cmds\<rbrakk> \<Longrightarrow> \<exists>c' w'. redisGetReply H c w = (Some (Some (fst (redis_exec cmd (view w)))), c', w') \<and>
        \<not> ctx_err H c' \<and> queue c' = cmds \<and> view w' = snd (redis_exec cmd (view w))"
    and "ws \<noteq> [] \<Longrightarrow> list_all plain_word ws \<Longrightarrow> redisFormat H (join '' '' ws) = ws"
  using assms unfolding redis_documented_def by blast+

lemma Execute_documented:
  assumes "redis_documented H view queue" "client_ready H queue r"
  obtains r' w' where "Execute H cmd (r, w) = Inr (Some (fst (redis_exec cmd (view w))), r', w')" "client_ready H queue r'"
    "view w' = snd (redis_exec cmd (view w))"
proof -
  obtain c where c: "\<not> mutex_locked r" "context_ptr r = Some c" "\<not> ctx_err H c" "queue c = []" using assms(2) by (auto simp: client_ready_def)
  obtain c' w' where c': "redisCommandArgv H cmd c w = (Some (fst (redis_exec cmd (view w))), c', w')" "\<not> ctx_err H c'" "queue c' = []"
    "view w' = snd (redis_exec cmd (view w))" using documentedD(1) [OF assms(1) c(3,4)] by blast
  let ?r = "r\<lparr>mutex_locked := False, context_ptr := Some c'\<rparr>"
  have "Execute H cmd (r, w) = Inr (Some (fst (redis_exec cmd (view w))), ?r, w')"
    using c c'(1) by (simp add: Execute_def redis_lock_def Active_def redisCommand_def redis_unlock_def)
  moreover have "client_ready H queue ?r" using c' by (simp add: client_ready_def)
  ultimately show ?thesis using c'(4) by (rule that)
qed

text \<open>A command of plain words.\<close>

definition command_text :: "string list \<Rightarrow> string" where
  "command_text ws = join '' '' ws"

lemma set_join_words: "set (join [c] ws) \<subseteq> insert c (\<Union>w \<in> set ws. set w)"
  by (induction "[c]" ws rule: join.induct) auto

lemma command_words:
  assumes "redis_documented H view queue" "ws \<noteq> []" "list_all plain_word ws"
  shows "redisFormat H (c_str (command_text ws)) = ws"
proof -
  have "CHR 0x00 \<notin> set (join '' '' ws)" using set_join_words [of "CHR '' ''" ws] assms(3) by (auto simp: plain_word_def list_all_iff)
  then have "c_str (command_text ws) = join '' '' ws" by (auto simp: command_text_def c_str_def takeWhile_eq_all_conv)
  then show ?thesis using documentedD(4) [OF assms(1-3)] by simp
qed

abbreviation exec_all :: "string list list \<Rightarrow> store \<Rightarrow> store" where
  "exec_all \<equiv> fold (\<lambda>cmd st. snd (redis_exec cmd st))"

lemma append_commands_documented:
  assumes "redis_documented H view queue" "list_all (\<lambda>ws. ws \<noteq> [] \<and> list_all plain_word ws) cmds"
    and "context_ptr r = Some c" "\<not> ctx_err H c"
  shows "\<exists>c' w'. append_commands H (map command_text cmds) (r, w) = Inr (r\<lparr>context_ptr := Some c'\<rparr>, w') \<and>
     \<not> ctx_err H c' \<and> queue c' = queue c @ cmds \<and> view w' = view w"
  using assms(2-4)
proof (induction cmds arbitrary: r c w)
  case Nil
  have "append_commands H [] (r, w) = Inr (r\<lparr>context_ptr := Some c\<rparr>, w)" using Nil(2) by (cases r) simp
  then show ?case using Nil(3) unfolding list.map by (intro exI [of _ c] exI [of _ w]) simp
next
  case (Cons ws cmds)
  obtain c' w' where c': "redisAppendCommand H ws c w = (c', w')" "\<not> ctx_err H c'" "queue c' = queue c @ [ws]" "view w' = view w"
    using documentedD(2) [OF assms(1) Cons.prems(3)] by blast
  have f: "redisFormat H (c_str (command_text ws)) = ws" using command_words [OF assms(1)] Cons.prems(1) by simp
  show ?case using Cons.IH [of "r\<lparr>context_ptr := Some c'\<rparr>" c' w'] Cons.prems c' f by (auto simp: Let_def)
qed

lemma get_replies_documented:
  assumes "redis_documented H view queue" "context_ptr r = Some c" "\<not> ctx_err H c" "queue c = cmds"
  shows "\<exists>r' w'. get_replies H (length cmds) var (r, w) = Inr (r', w') \<and> (\<exists>c'. context_ptr r' = Some c' \<and> \<not> ctx_err H c' \<and> queue c' = []) \<and>
     mutex_locked r' = mutex_locked r \<and> view w' = exec_all cmds (view w)"
  using assms(2-4)
proof (induction cmds arbitrary: r c w var)
  case (Cons cmd cmds)
  obtain c' w' where c': "redisGetReply H c w = (Some (Some (fst (redis_exec cmd (view w)))), c', w')" "\<not> ctx_err H c'" "queue c' = cmds"
    "view w' = snd (redis_exec cmd (view w))" using documentedD(3) [OF assms(1) Cons.prems(2,3)] by blast
  let ?r = "r\<lparr>context_ptr := Some c'\<rparr>" and ?reply = "fst (redis_exec cmd (view w))"
  let ?r' = "if status_is ''OK'' ?reply then ?r else ?r\<lparr>redis_log := redis_log ?r @ [reply_str ?reply]\<rparr>"
  have "get_replies H (length (cmd # cmds)) var (r, w) = get_replies H (length cmds) Freed (?r', w')"
    using Cons.prems(1) c'(1) by simp
  moreover have "context_ptr ?r' = Some c'" "mutex_locked ?r' = mutex_locked r" by simp_all
  ultimately show ?case using Cons.IH [of ?r' c' Freed w'] c'(2-4) by simp
qed auto

lemma PipeLine_documented:
  assumes "redis_documented H view queue" "list_all (\<lambda>ws. ws \<noteq> [] \<and> list_all plain_word ws) cmds" "client_ready H queue r"
  obtains r' w' where "PipeLine H (map command_text cmds) (r, w) = Inr (r', w')" "client_ready H queue r'" "view w' = exec_all cmds (view w)"
proof -
  obtain c where c: "\<not> mutex_locked r" "context_ptr r = Some c" "\<not> ctx_err H c" "queue c = []" using assms(3) by (auto simp: client_ready_def)
  let ?r = "r\<lparr>mutex_locked := True\<rparr>"
  obtain c1 w1 where 1: "append_commands H (map command_text cmds) (?r, w) = Inr (?r\<lparr>context_ptr := Some c1\<rparr>, w1)" "\<not> ctx_err H c1"
    "queue c1 = cmds" "view w1 = view w" using append_commands_documented [OF assms(1,2), of ?r c w] c by auto
  obtain r2 w2 where 2: "get_replies H (length cmds) Unset (?r\<lparr>context_ptr := Some c1\<rparr>, w1) = Inr (r2, w2)"
    "\<exists>c'. context_ptr r2 = Some c' \<and> \<not> ctx_err H c' \<and> queue c' = []" "view w2 = exec_all cmds (view w1)"
    using get_replies_documented [OF assms(1) _ 1(2,3), of "?r\<lparr>context_ptr := Some c1\<rparr>" Unset w1] by auto
  have "PipeLine H (map command_text cmds) (r, w) = Inr (r2\<lparr>mutex_locked := False\<rparr>, w2)"
    using c(1) 1(1) 2(1) by (simp add: PipeLine_def redis_lock_def redis_unlock_def)
  moreover have "client_ready H queue (r2\<lparr>mutex_locked := False\<rparr>)" using 2(2) by (simp add: client_ready_def)
  moreover have "view w2 = exec_all cmds (view w)" using 2(3) 1(4) by simp
  ultimately show ?thesis by (rule that)
qed

lemma MGet_documented:
  assumes "redis_documented H view queue" "client_ready H queue r"
  obtains r' w' where "MGet H ks (r, w) = Inr (List.map_filter (strs (view w)) ks, r', w')" "client_ready H queue r'" "view w' = view w"
proof -
  obtain r' w' where e: "Execute H (''MGET'' # ks) (r, w) = Inr (Some (fst (redis_exec (''MGET'' # ks) (view w))), r', w')" "client_ready H queue r'"
    "view w' = snd (redis_exec (''MGET'' # ks) (view w))" by (rule Execute_documented [OF assms])
  have v: "mget_values (map (\<lambda>k. case f k of None \<Rightarrow> ReplyNil | Some v \<Rightarrow> ReplyString v) ks) = List.map_filter f ks" for f
    by (induction ks) (auto simp: List.map_filter_simps split: option.splits)
  have "MGet H ks (r, w) = Inr (List.map_filter (strs (view w)) ks, r', w')"
    using e(1) by (simp add: MGet_def redis_exec_def v)
  then show ?thesis using e(2,3) that by (simp add: redis_exec_def)
qed

lemma map_of_hmap_insert: "map_of (hmap_insert k v m) = (case map_of m k of None \<Rightarrow> (map_of m)(k \<mapsto> v) | Some _ \<Rightarrow> map_of m)"
  by (auto simp: hmap_insert_def map_add_def fun_eq_iff split: option.splits)

lemma distinct_hmap_insert: "distinct (map fst m) \<Longrightarrow> distinct (map fst (hmap_insert k v m))"
  by (auto simp: hmap_insert_def map_of_eq_None_iff)

lemma hgetall_entries_hash:
  assumes "distinct (map fst m)"
  shows "\<exists>m'. hgetall_entries (concat (map (\<lambda>(f, v). [ReplyString f, ReplyString v]) h)) k v m = Inr m' \<and>
     distinct (map fst m') \<and> map_of m' = map_of h ++ map_of m"
  using assms
proof (induction h arbitrary: k v m)
  case (Cons fv h)
  obtain f x where fv: "fv = (f, x)" by fastforce
  obtain m' where m': "hgetall_entries (concat (map (\<lambda>(f, v). [ReplyString f, ReplyString v]) h)) f x (hmap_insert f x m) = Inr m'"
    "distinct (map fst m')" "map_of m' = map_of h ++ map_of (hmap_insert f x m)"
    using Cons.IH [OF distinct_hmap_insert [OF Cons.prems]] by blast
  have "map_of m' = map_of (fv # h) ++ map_of m"
    unfolding m'(3) by (auto simp: fv map_of_hmap_insert map_add_def fun_eq_iff split: option.splits)
  moreover have "hgetall_entries (concat (map (\<lambda>(f, v). [ReplyString f, ReplyString v]) (fv # h))) k v m = Inr m'"
    using m'(1) by (simp add: fv)
  ultimately show ?case using m'(2) by blast
qed auto

lemma HGetAll_documented:
  assumes "redis_documented H view queue" "client_ready H queue r" "strs (view w) k = None"
  obtains m r' w' where "HGetAll H k (r, w) = Inr (m, r', w')" "distinct (map fst m)" "map_of m = map_of (hash_of (view w) k)"
    "client_ready H queue r'" "view w' = view w"
proof -
  obtain r' w' where e: "Execute H [''HGETALL'', k] (r, w) = Inr (Some (fst (redis_exec [''HGETALL'', k] (view w))), r', w')" "client_ready H queue r'"
    "view w' = snd (redis_exec [''HGETALL'', k] (view w))" by (rule Execute_documented [OF assms(1,2)])
  obtain m where m: "hgetall_entries (concat (map (\<lambda>(f, v). [ReplyString f, ReplyString v]) (hash_of (view w) k))) [] [] [] = Inr m"
    "distinct (map fst m)" "map_of m = map_of (hash_of (view w) k) ++ map_of []"
    using hgetall_entries_hash [of "[]" "hash_of (view w) k" "[]" "[]"] by auto
  have "HGetAll H k (r, w) = Inr (m, r', w')" using e(1) assms(3) m(1) by (simp add: HGetAll_def redis_exec_def)
  then show ?thesis using that m(2,3) e(2,3) assms(3) by (simp add: redis_exec_def)
qed
end
