(* ===== verification/JsonAccess.thy ===== *)
theory JsonAccess
  imports JsonParser
begin

text \<open>
  Access to a parsed value (\<^verbatim>\<open>src/opt/nlohmann/json.hpp\<close>): \<^verbatim>\<open>find\<close> and \<^verbatim>\<open>operator[]\<close> with a string key, and the implicit conversions to
  \<^verbatim>\<open>int\<close>, \<^verbatim>\<open>std::string\<close> and \<^verbatim>\<open>std::vector<int>\<close> the program uses.
\<close>

fun type_name :: "json \<Rightarrow> string" where
  "type_name JNull = ''null''"
| "type_name (JObject _) = ''object''"
| "type_name (JArray _) = ''array''"
| "type_name (JString _) = ''string''"
| "type_name (JBoolean _) = ''boolean''"
| "type_name JDiscarded = ''discarded''"
| "type_name _ = ''number''"

fun is_number :: "json \<Rightarrow> bool" where
  "is_number (JInteger _) = True"
| "is_number (JUnsigned _) = True"
| "is_number (JFloat _) = True"
| "is_number _ = False"

text \<open>\<^verbatim>\<open>find\<close>: \<open>None\<close> is the end iterator.\<close>

definition json_find :: "string \<Rightarrow> json \<Rightarrow> json option" where
  "json_find k j = (case j of JObject m \<Rightarrow> map_of m k | _ \<Rightarrow> None)"

text \<open>\<^verbatim>\<open>operator[]\<close>: the element, and the value afterwards: a missing element is added as null, and null becomes an object.\<close>

definition json_index :: "string \<Rightarrow> json \<Rightarrow> json_error + (json \<times> json)" where
  "json_index k j = (let j = (if j = JNull then JObject [] else j) in
     case j of
       JObject m \<Rightarrow> (case map_of m k of Some v \<Rightarrow> Inr (v, j) | None \<Rightarrow> Inr (JNull, JObject (map_insert k JNull m)))
     | _ \<Rightarrow> Inl (type_error_create 305 (''cannot use operator[] with a string argument with '' @ type_name j)))"

text \<open>The conversion of a double to \<^verbatim>\<open>int\<close> truncates; it is undefined when the result does not fit.\<close>

fun float_trunc :: "float64 \<Rightarrow> int option" where
  "float_trunc (Finite neg m e) = Some (let n = int (if 0 \<le> e then m * 2 ^ nat e else m div 2 ^ nat (- e)) in if neg then - n else n)"
| "float_trunc (Infinite _) = None"

definition float_to_int :: "float64 \<Rightarrow> json_error + 32 word" where
  "float_to_int f = (case float_trunc f of
     None \<Rightarrow> Inl JsonOverflow
   | Some i \<Rightarrow> if - (2 ^ 31) \<le> i \<and> i < 2 ^ 31 then Inr (of_int i) else Inl JsonOverflow)"

definition get_int :: "json \<Rightarrow> json_error + 32 word" where
  "get_int j = (case j of
     JUnsigned n \<Rightarrow> Inr (ucast n)
   | JInteger i \<Rightarrow> Inr (ucast i)
   | JFloat f \<Rightarrow> float_to_int f
   | JBoolean b \<Rightarrow> Inr (if b then 1 else 0)
   | _ \<Rightarrow> Inl (type_error_create 302 (''type must be number, but is '' @ type_name j)))"

definition get_string :: "json \<Rightarrow> json_error + string" where
  "get_string j = (case j of
     JString s \<Rightarrow> Inr s
   | _ \<Rightarrow> Inl (type_error_create 302 (''type must be string, but is '' @ type_name j)))"

fun get_int_list :: "json list \<Rightarrow> json_error + 32 word list" where
  "get_int_list [] = Inr []"
| "get_int_list (j # js) = jbind (get_int j) (\<lambda>i. jbind (get_int_list js) (\<lambda>is. Inr (i # is)))"

definition get_ints :: "json \<Rightarrow> json_error + 32 word list" where
  "get_ints j = (case j of
     JArray js \<Rightarrow> get_int_list js
   | _ \<Rightarrow> Inl (type_error_create 302 (''type must be array, but is '' @ type_name j)))"

lemma json_index_present: "map_of m k = Some v \<Longrightarrow> json_index k (JObject m) = Inr (v, JObject m)"
  by (simp add: json_index_def)

lemma map_of_map_insert_other: "q \<noteq> k \<Longrightarrow> map_of (map_insert k v m) q = map_of m q"
  by (induction k v m rule: map_insert.induct) auto

text \<open>Indexing one key leaves the others as they are.\<close>

lemma json_index_other:
  assumes "json_index k (JObject m) = Inr (v, j')" "q \<noteq> k" "map_of m q = Some u"
  obtains m' where "j' = JObject m'" "map_of m' q = Some u"
  using assms by (auto simp: json_index_def Let_def map_of_map_insert_other split: option.splits)

lemma json_index_defined: "\<exists>v j'. json_index k (JObject m) = Inr (v, j')"
  by (auto simp: json_index_def Let_def split: option.splits)

end
