(* ===== verification/HttpModel.thy ===== *)
theory HttpModel
  imports BufferModel StdMap
begin

text \<open>
  HTTP messages (\<^verbatim>\<open>src/http/HttpRequest.h\<close>, \<^verbatim>\<open>HttpResponse.h\<close>, \<^verbatim>\<open>HttpResponse.cc\<close>) and the request parser
  (\<^verbatim>\<open>HttpContext.h\<close>, \<^verbatim>\<open>HttpContext.cc\<close>) over the buffer model.

  A pair of pointers into the buffer is the list of bytes between them. The parser's loop is one
  iteration (\<open>http_iteration\<close>) and \<open>parseRequest\<close>, which repeats it while the source's \<^verbatim>\<open>hasMore\<close> holds;
  not coming back is the value \<open>None\<close>.
\<close>

subsection \<open>Requests\<close>

datatype Method = kInvalid | kGet | kPost | kHead | kPut | kDelete

datatype Version = kUnknown | kHttp10 | kHttp11

record HttpRequest =
  req_method :: Method
  req_version :: Version
  req_path :: string
  req_query :: string
  req_body :: string
  req_close :: bool
  querys :: "(string \<times> string) list"
  headers :: "(string \<times> string) list"

definition mkHttpRequest :: "bool \<Rightarrow> HttpRequest" where
  "mkHttpRequest isclose = \<lparr>req_method = kInvalid, req_version = kUnknown, req_path = [], req_query = [], req_body = [],
     req_close = isclose, querys = [], headers = []\<rparr>"

definition method_of :: "string \<Rightarrow> Method" where
  "method_of m = (if m = ''GET'' then kGet else if m = ''POST'' then kPost else if m = ''HEAD'' then kHead
     else if m = ''PUT'' then kPut else if m = ''DELETE'' then kDelete else kInvalid)"

definition setMethod :: "string \<Rightarrow> HttpRequest \<Rightarrow> (bool \<times> HttpRequest) result" where
  "setMethod m r = rbind (assert_that (req_method r = kInvalid)) (\<lambda>_.
     Inr (method_of m \<noteq> kInvalid, r\<lparr>req_method := method_of m\<rparr>))"

fun methodString :: "Method \<Rightarrow> string" where
  "methodString kGet = ''GET''"
| "methodString kPost = ''POST''"
| "methodString kHead = ''HEAD''"
| "methodString kPut = ''PUT''"
| "methodString kDelete = ''DELETE''"
| "methodString kInvalid = ''UNKNOWN''"

definition trim_right :: "string \<Rightarrow> string" where
  "trim_right s = rev (dropWhile c_isspace (rev s))"

text \<open>\<^verbatim>\<open>addHeader(start, colon, end)\<close>: \<open>colon\<close> is an offset in the line.\<close>

definition addHeader :: "string \<Rightarrow> nat \<Rightarrow> HttpRequest \<Rightarrow> HttpRequest" where
  "addHeader line colon r = r\<lparr>headers := map_set (take colon line)
     (trim_right (dropWhile c_isspace (drop (colon + 1) line))) (headers r)\<rparr>"

definition getHeader :: "string \<Rightarrow> HttpRequest \<Rightarrow> string" where
  "getHeader field r = (case map_of (headers r) field of None \<Rightarrow> [] | Some v \<Rightarrow> v)"

definition addQuery :: "string \<Rightarrow> string \<Rightarrow> HttpRequest \<Rightarrow> HttpRequest" where
  "addQuery parm v r = r\<lparr>querys := map_insert parm v (querys r)\<rparr>"

text \<open>\<^verbatim>\<open>getQuery\<close> looks in \<^verbatim>\<open>querys_\<close> but compares the iterator with \<^verbatim>\<open>headers_.end()\<close>: for a parameter that is
  not there it dereferences the end of \<^verbatim>\<open>querys_\<close>.\<close>

definition getQuery :: "string \<Rightarrow> HttpRequest \<Rightarrow> string result" where
  "getQuery field r = (case map_of (querys r) field of None \<Rightarrow> Inl EndDereference | Some v \<Rightarrow> Inr v)"

text \<open>\<^verbatim>\<open>swap\<close> leaves the body, the parameters and the close flag where they are.\<close>

definition request_swap :: "HttpRequest \<Rightarrow> HttpRequest \<Rightarrow> HttpRequest \<times> HttpRequest" where
  "request_swap a b =
     (a\<lparr>req_method := req_method b, req_version := req_version b, req_path := req_path b, req_query := req_query b, headers := headers b\<rparr>,
      b\<lparr>req_method := req_method a, req_version := req_version a, req_path := req_path a, req_query := req_query a, headers := headers a\<rparr>)"

text \<open>Appending a sequence of pieces, as the two \<^verbatim>\<open>appendToBuffer\<close> do.\<close>

definition append_pieces :: "string list \<Rightarrow> Buffer \<Rightarrow> Buffer result" where
  "append_pieces = append_all append_bytes"

definition header_pieces :: "(string \<times> string) list \<Rightarrow> string list" where
  "header_pieces hs = concat (map (\<lambda>(k, v). [k, '': '', v, kCRLF]) hs)"

definition request_appendToBuffer :: "HttpRequest \<Rightarrow> Buffer \<Rightarrow> Buffer result" where
  "request_appendToBuffer r = append_pieces (
     [methodString (req_method r), '' '', req_path r, ''?''] @
     concat (map (\<lambda>(k, v). [k, ''='', v, ''&'']) (querys r)) @
     ['' '', ''HTTP/1.1'', kCRLF] @
     [(if req_close r then ''Connection: close'' else ''Connection: Keep-Alive'') @ kCRLF] @
     header_pieces (headers r) @ [kCRLF, req_body r])"

subsection \<open>The parser\<close>

datatype HttpRequestParseState = kExpectRequestLine | kExpectHeaders | kExpectBody | kGotAll

record HttpContext =
  ctx_state :: HttpRequestParseState
  ctx_request :: HttpRequest

definition mkHttpContext :: HttpContext where
  "mkHttpContext = \<lparr>ctx_state = kExpectRequestLine, ctx_request = mkHttpRequest False\<rparr>"

definition gotAll :: "HttpContext \<Rightarrow> bool" where
  "gotAll c = (ctx_state c = kGotAll)"

definition ctx_reset :: "HttpContext \<Rightarrow> HttpContext" where
  "ctx_reset c = c\<lparr>ctx_state := kExpectRequestLine, ctx_request := fst (request_swap (ctx_request c) (mkHttpRequest False))\<rparr>"

text \<open>The parameters of the query string: pieces without \<^verbatim>\<open>=\<close> are dropped, and the first value of a name
  stays.\<close>

fun insert_params :: "string list \<Rightarrow> HttpRequest \<Rightarrow> HttpRequest" where
  "insert_params [] r = r"
| "insert_params (it # its) r = (let pos = std_find CHR ''='' it in
     insert_params its (if pos \<noteq> length it then addQuery (take pos it) (drop (pos + 1) it) r else r))"

definition parse_target :: "string \<Rightarrow> HttpRequest \<Rightarrow> HttpRequest" where
  "parse_target target r = (let q = std_find CHR ''?'' target in
     if q \<noteq> length target then
       let r = r\<lparr>req_path := take q target, req_query := drop (q + 1) target\<rparr> in insert_params (split (req_query r) ''&'') r
     else r\<lparr>req_path := target\<rparr>)"

definition parse_version :: "string \<Rightarrow> HttpRequest \<Rightarrow> bool \<times> HttpRequest" where
  "parse_version v r = (if length v = 8 \<and> take 7 v = ''HTTP/1.'' then
     if v ! 7 = CHR ''1'' then (True, r\<lparr>req_version := kHttp11\<rparr>)
     else if v ! 7 = CHR ''0'' then (True, r\<lparr>req_version := kHttp10\<rparr>) else (False, r)
   else (False, r))"

definition parseRequestLine :: "string \<Rightarrow> HttpRequest \<Rightarrow> (bool \<times> HttpRequest) result" where
  "parseRequestLine line r = (let space = std_find CHR '' '' line in
     if space = length line then Inr (False, r) else
     rbind (setMethod (take space line) r) (\<lambda>(valid, r).
     if \<not> valid then Inr (False, r) else
     let rest = drop (space + 1) line; space2 = std_find CHR '' '' rest in
     if space2 = length rest then Inr (False, r) else
     Inr (parse_version (drop (space2 + 1) rest) (parse_target (take space2 rest) r))))"

text \<open>One turn of the loop: \<^verbatim>\<open>ok\<close>, \<^verbatim>\<open>hasMore\<close>, the context and the buffer.\<close>

definition http_iteration :: "HttpContext \<Rightarrow> Buffer \<Rightarrow> (bool \<times> bool \<times> HttpContext \<times> Buffer) result" where
  "http_iteration c b = (case ctx_state c of
     kExpectRequestLine \<Rightarrow> (case findCRLF b of
         None \<Rightarrow> Inr (True, False, c, b)
       | Some crlf \<Rightarrow>
           rbind (parseRequestLine (bytes_at b (peek b) (crlf - peek b)) (ctx_request c)) (\<lambda>(ok, r).
           let c = c\<lparr>ctx_request := r\<rparr> in
           if ok then rbind (retrieveUntil (crlf + 2) b) (\<lambda>b. Inr (True, True, c\<lparr>ctx_state := kExpectHeaders\<rparr>, b))
           else Inr (False, False, c, b)))
   | kExpectHeaders \<Rightarrow> (case findCRLF b of
         None \<Rightarrow> Inr (True, False, c, b)
       | Some crlf \<Rightarrow>
           let line = bytes_at b (peek b) (crlf - peek b); colon = std_find CHR '':'' line in
           rbind (retrieveUntil (crlf + 2) b) (\<lambda>b.
           if colon \<noteq> length line then Inr (True, True, c\<lparr>ctx_request := addHeader line colon (ctx_request c)\<rparr>, b)
           else if line = [] then Inr (True, True, c\<lparr>ctx_state := kExpectBody\<rparr>, b)
           else Inr (False, False, c, b)))
   | kExpectBody \<Rightarrow>
       let contentlength = atoi (getHeader ''Content-Length'' (ctx_request c)) in
       if contentlength > 0 then
         if int (readableBytes b) \<ge> contentlength then
           rbind (retrieve (nat contentlength) b) (\<lambda>b'.
           Inr (True, False, c\<lparr>ctx_state := kGotAll,
             ctx_request := (ctx_request c)\<lparr>req_body := bytes_at b (peek b) (nat contentlength)\<rparr>\<rparr>, b'))
         else Inr (True, False, c, b)
       else Inr (True, False, c\<lparr>ctx_state := kGotAll\<rparr>, b)
   | kGotAll \<Rightarrow> Inr (True, True, c, b))"

partial_function (option) parseRequest :: "HttpContext \<Rightarrow> Buffer \<Rightarrow> (bool \<times> HttpContext \<times> Buffer) result option" where
  "parseRequest c b = (case http_iteration c b of
     Inl e \<Rightarrow> Some (Inl e)
   | Inr (ok, hasMore, c', b') \<Rightarrow> if hasMore then parseRequest c' b' else Some (Inr (ok, c', b')))"

subsection \<open>Responses\<close>

record HttpResponse =
  resp_headers :: "(string \<times> string) list"
  statusCode :: nat
  statusMessage :: string
  closeConnection :: bool
  resp_body :: string
  resp_delay :: bool

definition mkHttpResponse :: "bool \<Rightarrow> HttpResponse" where
  "mkHttpResponse close = \<lparr>resp_headers = [], statusCode = 0, statusMessage = [], closeConnection = close,
     resp_body = [], resp_delay = False\<rparr>"

definition setDelay :: "HttpResponse \<Rightarrow> HttpResponse" where
  "setDelay r = r\<lparr>resp_delay := True\<rparr>"

definition resp_addHeader :: "string \<Rightarrow> string \<Rightarrow> HttpResponse \<Rightarrow> HttpResponse" where
  "resp_addHeader k v r = r\<lparr>resp_headers := map_set k v (resp_headers r)\<rparr>"

definition setContentType :: "string \<Rightarrow> HttpResponse \<Rightarrow> HttpResponse" where
  "setContentType ct r = resp_addHeader ''Content-Type'' ct r"

text \<open>\<^verbatim>\<open>snprintf\<close> into a buffer of 32 bytes keeps at most 31 characters.\<close>

definition response_appendToBuffer :: "HttpResponse \<Rightarrow> Buffer \<Rightarrow> Buffer result" where
  "response_appendToBuffer r = append_pieces (
     [take 31 (''HTTP/1.1 '' @ dec_of_nat (statusCode r) @ '' ''), statusMessage r, kCRLF] @
     (if closeConnection r then [''Connection: close'' @ kCRLF]
      else [take 31 (''Content-Length: '' @ dec_of_nat (length (resp_body r)) @ kCRLF), ''Connection: Keep-Alive'' @ kCRLF]) @
     header_pieces (resp_headers r) @ [kCRLF, resp_body r])"

end
