(* ===== verification/HttpParser.thy ===== *)
theory HttpParser
  imports HttpModel
begin

text \<open>
  The request parser as a function of the bytes: \<open>http_step\<close> and \<open>http_parse\<close> are the iteration and the loop
  on the readable bytes alone. The parser on buffers refines them (\<open>parseRequest_refines\<close>), so
  termination, incrementality and the round trip with the text of a request are proved on byte lists.
\<close>

subsection \<open>The parser on bytes\<close>

definition http_step :: "HttpContext \<Rightarrow> string \<Rightarrow> (bool \<times> bool \<times> HttpContext \<times> string) result" where
  "http_step c s = (let p = std_search kCRLF s; line = take p s; rest = drop (p + 2) s in
   case ctx_state c of
     kExpectRequestLine \<Rightarrow>
       if p = length s then Inr (True, False, c, s) else
       rbind (parseRequestLine line (ctx_request c)) (\<lambda>(ok, r).
         if ok then Inr (True, True, c\<lparr>ctx_request := r, ctx_state := kExpectHeaders\<rparr>, rest)
         else Inr (False, False, c\<lparr>ctx_request := r\<rparr>, s))
   | kExpectHeaders \<Rightarrow>
       if p = length s then Inr (True, False, c, s)
       else if std_find CHR '':'' line \<noteq> length line
         then Inr (True, True, c\<lparr>ctx_request := addHeader line (std_find CHR '':'' line) (ctx_request c)\<rparr>, rest)
       else if line = [] then Inr (True, True, c\<lparr>ctx_state := kExpectBody\<rparr>, rest)
       else Inr (False, False, c, rest)
   | kExpectBody \<Rightarrow>
       let n = atoi (getHeader ''Content-Length'' (ctx_request c)) in
       if n > 0 then
         if int (length s) \<ge> n then
           Inr (True, False, c\<lparr>ctx_state := kGotAll, ctx_request := (ctx_request c)\<lparr>req_body := take (nat n) s\<rparr>\<rparr>, drop (nat n) s)
         else Inr (True, False, c, s)
       else Inr (True, False, c\<lparr>ctx_state := kGotAll\<rparr>, s)
   | kGotAll \<Rightarrow> Inr (True, False, c, s))"

lemma two_CRLF: "length kCRLF = 2" "kCRLF \<noteq> []"
  by (simp_all add: kCRLF_def)

lemma crlf_room: "std_search kCRLF s \<noteq> length s \<Longrightarrow> std_search kCRLF s + 2 \<le> length s"
  using std_search_found_room [OF two_CRLF(2), of s] std_search_le [of kCRLF s] two_CRLF(1) by simp

lemma http_step_shorter: "http_step c s = Inr (ok, True, c', s') \<Longrightarrow> length s' < length s"
  using crlf_room [of s]
  by (auto simp: http_step_def Let_def result_simps split: HttpRequestParseState.splits if_splits)

function http_parse :: "HttpContext \<Rightarrow> string \<Rightarrow> (bool \<times> HttpContext \<times> string) result" where
  "http_parse c s = rbind (http_step c s) (\<lambda>(ok, more_lines, c', s').
     if more_lines then http_parse c' s' else Inr (ok, c', s'))"
  by pat_completeness auto
termination
  by (relation "measure (\<lambda>(c, s). length s)") (auto dest: http_step_shorter)

declare http_parse.simps [simp del]

subsection \<open>Refinement\<close>

lemma retrieveUntil_Inr:
  assumes "buf_inv b" "n \<le> readableBytes b"
  shows "\<exists>b'. retrieveUntil (peek b + n) b = Inr b' \<and> buf_inv b' \<and> content b' = drop n (content b)"
proof -
  have "peek b + n \<le> beginWrite b" using assms by (auto simp: peek_def beginWrite_def readableBytes_def buf_inv_def)
  moreover from retrieve_Inr [OF assms] obtain b' where
    "retrieve n b = Inr b'" "buf_inv b'" "content b' = drop n (content b)" by metis
  ultimately show ?thesis by (simp add: retrieveUntil_def)
qed

lemma bytes_at_take:
  assumes "buf_inv b" "n \<le> readableBytes b"
  shows "bytes_at b (peek b) n = take n (content b)"
  using bytes_at_peek [OF assms(1), of "take n (content b)" "drop n (content b)"] assms by simp

text \<open>One iteration on a buffer is one iteration on its readable bytes.\<close>

definition step_agrees :: "(bool \<times> bool \<times> HttpContext \<times> Buffer) result \<Rightarrow> (bool \<times> bool \<times> HttpContext \<times> string) result \<Rightarrow> bool" where
  "step_agrees x y = (case y of
     Inl e \<Rightarrow> x = Inl e
   | Inr (ok, m, c, s) \<Rightarrow> \<exists>b. x = Inr (ok, m, c, b) \<and> buf_inv b \<and> content b = s)"

lemma iteration_agrees:
  assumes "buf_inv b" "ctx_state c \<noteq> kGotAll"
  shows "step_agrees (http_iteration c b) (http_step c (content b))"
proof -
  let ?s = "content b" let ?p = "std_search kCRLF (content b)"
  have len: "length ?s = readableBytes b" using assms(1) by simp
  show ?thesis
  proof (cases "ctx_state c")
    case kExpectBody
    let ?n = "atoi (getHeader ''Content-Length'' (ctx_request c))"
    show ?thesis
    proof (cases "?n > 0 \<and> int (readableBytes b) \<ge> ?n")
      case True
      then have n: "nat ?n \<le> readableBytes b" by linarith
      from retrieve_Inr [OF assms(1) n] obtain b' where
        "retrieve (nat ?n) b = Inr b'" "buf_inv b'" "content b' = drop (nat ?n) ?s" by metis
      then show ?thesis using kExpectBody True bytes_at_take [OF assms(1) n] len
        by (simp add: http_iteration_def http_step_def step_agrees_def Let_def)
    next
      case False
      then show ?thesis using kExpectBody assms(1) len
        by (auto simp: http_iteration_def http_step_def step_agrees_def Let_def)
    qed
  next
    case kGotAll
    then show ?thesis using assms(2) by simp
  next
    case kExpectRequestLine
    show ?thesis
    proof (cases "?p = length ?s")
      case True
      then show ?thesis using kExpectRequestLine assms(1) findCRLF_content [OF assms(1)]
        by (simp add: http_iteration_def http_step_def step_agrees_def Let_def)
    next
      case False
      have p2: "?p + 2 \<le> readableBytes b" using crlf_room [OF False] len by simp
      then obtain b' where b': "retrieveUntil (peek b + (?p + 2)) b = Inr b'" "buf_inv b'" "content b' = drop (?p + 2) ?s"
        using retrieveUntil_Inr [OF assms(1)] by blast
      have line: "bytes_at b (peek b) ?p = take ?p ?s" using bytes_at_take [OF assms(1)] p2 by simp
      have f: "findCRLF b = Some (peek b + ?p)" using findCRLF_content [OF assms(1)] False by simp
      show ?thesis using kExpectRequestLine assms(1) False f b' line
        by (cases "parseRequestLine (take ?p ?s) (ctx_request c)")
          (auto simp: http_iteration_def http_step_def step_agrees_def Let_def add.assoc)
    qed
  next
    case kExpectHeaders
    show ?thesis
    proof (cases "?p = length ?s")
      case True
      then show ?thesis using kExpectHeaders assms(1) findCRLF_content [OF assms(1)]
        by (simp add: http_iteration_def http_step_def step_agrees_def Let_def)
    next
      case False
      have p2: "?p + 2 \<le> readableBytes b" using crlf_room [OF False] len by simp
      then obtain b' where b': "retrieveUntil (peek b + (?p + 2)) b = Inr b'" "buf_inv b'" "content b' = drop (?p + 2) ?s"
        using retrieveUntil_Inr [OF assms(1)] by blast
      have line: "bytes_at b (peek b) ?p = take ?p ?s" using bytes_at_take [OF assms(1)] p2 by simp
      have f: "findCRLF b = Some (peek b + ?p)" using findCRLF_content [OF assms(1)] False by simp
      show ?thesis using kExpectHeaders False f b' line
        by (auto simp: http_iteration_def http_step_def step_agrees_def Let_def add.assoc)
    qed
  qed
qed

lemma http_step_not_done: "http_step c s = Inr (ok, True, c', s') \<Longrightarrow> ctx_state c' \<noteq> kGotAll"
  by (auto simp: http_step_def Let_def result_simps split: HttpRequestParseState.splits if_splits)

definition parse_agrees :: "(bool \<times> HttpContext \<times> Buffer) result option \<Rightarrow> (bool \<times> HttpContext \<times> string) result \<Rightarrow> bool" where
  "parse_agrees x y = (case y of
     Inl e \<Rightarrow> x = Some (Inl e)
   | Inr (ok, c, s) \<Rightarrow> \<exists>b. x = Some (Inr (ok, c, b)) \<and> buf_inv b \<and> content b = s)"

lemma parseRequest_refines:
  assumes "buf_inv b" "ctx_state c \<noteq> kGotAll"
  shows "parse_agrees (parseRequest c b) (http_parse c (content b))"
  using assms
proof (induction "length (content b)" arbitrary: b c rule: less_induct)
  case less
  note ag = iteration_agrees [OF less.prems]
  show ?case
  proof (cases "http_step c (content b)")
    case (Inl e)
    then show ?thesis using ag
      by (subst parseRequest.simps, subst http_parse.simps) (simp add: step_agrees_def parse_agrees_def)
  next
    case (Inr x)
    obtain ok m c' s' where x: "x = (ok, m, c', s')" by (metis prod_cases4)
    with ag Inr obtain b' where b': "http_iteration c b = Inr (ok, m, c', b')" "buf_inv b'" "content b' = s'"
      by (auto simp: step_agrees_def)
    show ?thesis
    proof (cases m)
      case True
      have "ctx_state c' \<noteq> kGotAll" using http_step_not_done [of c "content b" ok c' s'] Inr x True by simp
      moreover have "length (content b') < length (content b)"
        using http_step_shorter [of c "content b" ok c' s'] Inr x True b'(3) by simp
      ultimately have "parse_agrees (parseRequest c' b') (http_parse c' (content b'))"
        using less.hyps [OF _ b'(2)] by blast
      then show ?thesis using b' Inr x True
        by (subst parseRequest.simps, subst http_parse.simps) simp
    next
      case False
      then show ?thesis using b' Inr x
        by (subst parseRequest.simps, subst http_parse.simps) (simp add: parse_agrees_def)
    qed
  qed
qed

subsection \<open>Incremental parsing\<close>

lemma std_search_extend:
  "p \<noteq> [] \<Longrightarrow> std_search p xs < length xs \<Longrightarrow> std_search p (xs @ ys) = std_search p xs"
proof (induction xs)
  case (Cons x xs)
  have "std_search p (x # xs) + length p \<le> length (x # xs)" by (rule std_search_found_room [OF Cons.prems])
  then have "take (length p) (x # xs @ ys) = take (length p) (x # xs)" by (cases p) auto
  then show ?case using Cons by (auto split: if_splits)
qed simp

lemma crlf_extend:
  assumes "std_search kCRLF s \<noteq> length s"
  shows "std_search kCRLF (s @ d) = std_search kCRLF s" "std_search kCRLF (s @ d) \<noteq> length (s @ d)"
proof -
  have "std_search kCRLF s < length s" using assms std_search_le [of kCRLF s] by simp
  then show "std_search kCRLF (s @ d) = std_search kCRLF s" by (rule std_search_extend [OF two_CRLF(2)])
  then show "std_search kCRLF (s @ d) \<noteq> length (s @ d)" using \<open>std_search kCRLF s < length s\<close> by simp
qed

lemma http_step_extend:
  assumes "http_step c s = Inr (ok, True, c', s')"
  shows "http_step c (s @ d) = Inr (ok, True, c', s' @ d)"
proof -
  let ?p = "std_search kCRLF s"
  have p: "?p \<noteq> length s"
    using assms by (cases "ctx_state c") (auto simp: http_step_def Let_def split: if_splits)
  have room: "?p + 2 \<le> length s" by (rule crlf_room [OF p])
  then have cut: "take ?p (s @ d) = take ?p s" "drop (?p + 2) (s @ d) = drop (?p + 2) s @ d" by simp_all
  show ?thesis
  proof (cases "ctx_state c")
    case kExpectRequestLine
    then show ?thesis using assms p crlf_extend [OF p, of d] cut
      by (cases "parseRequestLine (take ?p s) (ctx_request c)") (auto simp: http_step_def Let_def simp del: take_append drop_append split: if_splits)
  next
    case kExpectHeaders
    then show ?thesis using assms p crlf_extend [OF p, of d] cut
      by (auto simp: http_step_def Let_def simp del: take_append drop_append split: if_splits)
  next
    case kExpectBody
    then show ?thesis using assms by (simp add: http_step_def Let_def split: if_splits)
  next
    case kGotAll
    then show ?thesis using assms by (simp add: http_step_def)
  qed
qed

lemma http_step_waits:
  assumes "http_step c s = Inr (True, False, c', s')" "ctx_state c' \<noteq> kGotAll"
  shows "c' = c \<and> s' = s"
  using assms by (auto simp: http_step_def Let_def result_simps split: HttpRequestParseState.splits if_splits)

lemma http_parse_extend:
  assumes "http_parse c s = Inr (True, c', s')" "ctx_state c' \<noteq> kGotAll"
  shows "http_parse c (s @ d) = http_parse c' (s' @ d)"
  using assms
proof (induction "length s" arbitrary: s c rule: less_induct)
  case less
  from less.prems(1) obtain ok m c1 s1 where x: "http_step c s = Inr (ok, m, c1, s1)"
    "(if m then http_parse c1 s1 else Inr (ok, c1, s1)) = Inr (True, c', s')"
    by (subst (asm) http_parse.simps) (auto simp: result_simps)
  show ?case
  proof (cases m)
    case True
    have "http_parse c (s @ d) = http_parse c1 (s1 @ d)"
      using http_step_extend [of c s ok c1 s1 d] x(1) True by (subst http_parse.simps) simp
    also have "\<dots> = http_parse c' (s' @ d)"
      using less.hyps [OF http_step_shorter] x True less.prems(2) by simp
    finally show ?thesis .
  next
    case False
    then show ?thesis using http_step_waits [of c s c' s'] x less.prems(2) by simp
  qed
qed

lemma http_parse_total: "ctx_state c \<noteq> kGotAll \<Longrightarrow> buf_inv b \<Longrightarrow> \<exists>y. parseRequest c b = Some y"
  using parseRequest_refines [of b c] by (auto simp: parse_agrees_def split: sum.splits)

text \<open>C14: \<^verbatim>\<open>parseRequest\<close> returns on every buffer (it would spin only in the state in which the server
  never calls it), and it can be called whenever bytes arrive: a call that leaves the request
  incomplete, followed by a call with more bytes, gives the same verdict, the same context and the same
  remaining bytes as one call with all of them.\<close>

theorem parseRequest_incremental:
  assumes "buf_inv b" "ctx_state c \<noteq> kGotAll"
  shows "\<exists>y. parseRequest c b = Some y \<and> (\<forall>c1 b1. y = Inr (True, c1, b1) \<and> \<not> gotAll c1 \<longrightarrow>
    (\<exists>b2 b3. append_bytes d b1 = Inr b2 \<and> append_bytes d b = Inr b3 \<and>
      parse_agrees (parseRequest c1 b2) (http_parse c (content b @ d)) \<and>
      parse_agrees (parseRequest c b3) (http_parse c (content b @ d))))"
proof -
  from http_parse_total [OF assms(2,1)] obtain y where y: "parseRequest c b = Some y" by blast
  have "\<exists>b2 b3. append_bytes d b1 = Inr b2 \<and> append_bytes d b = Inr b3 \<and>
      parse_agrees (parseRequest c1 b2) (http_parse c (content b @ d)) \<and>
      parse_agrees (parseRequest c b3) (http_parse c (content b @ d))"
    if "y = Inr (True, c1, b1)" "\<not> gotAll c1" for c1 b1
  proof -
    have p: "http_parse c (content b) = Inr (True, c1, content b1)" "buf_inv b1"
      using parseRequest_refines [OF assms] y that(1) by (auto simp: parse_agrees_def split: sum.splits)
    have n: "ctx_state c1 \<noteq> kGotAll" using that(2) by (simp add: gotAll_def)
    from bq.app_spec [OF p(2), of d] obtain b2 where
      b2: "append_bytes d b1 = Inr b2" "buf_inv b2" "content b2 = content b1 @ d" by blast
    from bq.app_spec [OF assms(1), of d] obtain b3 where
      b3: "append_bytes d b = Inr b3" "buf_inv b3" "content b3 = content b @ d" by blast
    show ?thesis
      using b2 b3 parseRequest_refines [OF b2(2) n] parseRequest_refines [OF b3(2) assms(2)] http_parse_extend [OF p(1) n, of d]
      by simp
  qed
  with y show ?thesis by blast
qed

theorem parseRequest_incremental_witness:
  "\<exists>y b2 b3 c1 b1. parseRequest mkHttpContext (mkBuffer 16) = Some y \<and> y = Inr (True, c1, b1) \<and>
    append_bytes ''GET'' b1 = Inr b2 \<and> append_bytes ''GET'' (mkBuffer 16) = Inr b3 \<and>
    parse_agrees (parseRequest c1 b2) (http_parse mkHttpContext ''GET'') \<and>
    parse_agrees (parseRequest mkHttpContext b3) (http_parse mkHttpContext ''GET'')"
proof -
  have s: "buf_inv (mkBuffer 16)" "ctx_state mkHttpContext \<noteq> kGotAll" by (simp_all add: mkHttpContext_def)
  have "http_parse mkHttpContext [] = Inr (True, mkHttpContext, [])"
    by (subst http_parse.simps) (simp add: http_step_def mkHttpContext_def)
  with parseRequest_refines [OF s] obtain b1 where
    b1: "parseRequest mkHttpContext (mkBuffer 16) = Some (Inr (True, mkHttpContext, b1))" by (auto simp: parse_agrees_def)
  have "\<not> gotAll mkHttpContext" by (simp add: gotAll_def mkHttpContext_def)
  with parseRequest_incremental [OF s, of "''GET''"] b1 show ?thesis by auto
qed

subsection \<open>The text of a request\<close>

definition header_text :: "string \<times> string \<Rightarrow> string" where
  "header_text h = fst h @ '': '' @ snd h"

definition http_text :: "Method \<Rightarrow> string \<Rightarrow> (string \<times> string) list \<Rightarrow> string \<Rightarrow> string" where
  "http_text m target hs body = (methodString m @ '' '' @ target @ '' HTTP/1.1'') @ kCRLF
     @ concat (map (\<lambda>h. header_text h @ kCRLF) hs) @ kCRLF @ body"

abbreviation CR :: char where "CR \<equiv> CHR 0x0D"

definition header_wf :: "string \<times> string \<Rightarrow> bool" where
  "header_wf h \<longleftrightarrow> CHR '':'' \<notin> set (fst h) \<and> CR \<notin> set (fst h) \<and> CR \<notin> set (snd h) \<and>
     (snd h \<noteq> [] \<longrightarrow> \<not> c_isspace (hd (snd h)) \<and> \<not> c_isspace (last (snd h)))"

lemma search_line: "CR \<notin> set line \<Longrightarrow> std_search kCRLF (line @ kCRLF @ rest) = length line"
proof (induction line)
  case Nil
  then show ?case by (simp add: kCRLF_def)
next
  case (Cons x line)
  then have "take (length kCRLF) (x # line @ kCRLF @ rest) \<noteq> kCRLF" by (auto simp: kCRLF_def)
  then show ?case using Cons by simp
qed

lemma line_ends:
  assumes "CR \<notin> set line"
  shows "std_search kCRLF (line @ kCRLF @ rest) \<noteq> length (line @ kCRLF @ rest)"
    "take (std_search kCRLF (line @ kCRLF @ rest)) (line @ kCRLF @ rest) = line"
    "drop (std_search kCRLF (line @ kCRLF @ rest) + 2) (line @ kCRLF @ rest) = rest"
  unfolding search_line [OF assms] by (simp_all add: kCRLF_def)

lemma methodString_clean: "CHR '' '' \<notin> set (methodString m)" "CR \<notin> set (methodString m)"
  by (cases m; simp)+

lemma method_of_methodString: "m \<noteq> kInvalid \<Longrightarrow> method_of (methodString m) = m"
  by (cases m) (simp_all add: method_of_def)

lemma parseRequestLine_text:
  assumes "m \<noteq> kInvalid" "req_method r = kInvalid" "CHR '' '' \<notin> set target"
  shows "parseRequestLine (methodString m @ '' '' @ target @ '' HTTP/1.1'') r
    = Inr (True, (parse_target target (r\<lparr>req_method := m\<rparr>))\<lparr>req_version := kHttp11\<rparr>)"
proof -
  let ?line = "methodString m @ CHR '' '' # target @ '' HTTP/1.1''"
  have s1: "std_find CHR '' '' ?line = length (methodString m)" by (rule std_find_append [OF methodString_clean(1)])
  have s2: "std_find CHR '' '' (target @ CHR '' '' # ''HTTP/1.1'') = length target" by (rule std_find_append [OF assms(3)])
  have v: "parse_version ''HTTP/1.1'' x = (True, x\<lparr>req_version := kHttp11\<rparr>)" for x
    by (simp add: parse_version_def)
  show ?thesis using s1 s2 v assms(1,2) method_of_methodString [OF assms(1)]
    by (simp add: parseRequestLine_def setMethod_def)
qed

lemma dropWhile_value: "v = [] \<or> \<not> c_isspace (hd v) \<Longrightarrow> dropWhile c_isspace (CHR '' '' # v) = v"
proof -
  assume v: "v = [] \<or> \<not> c_isspace (hd v)"
  have "c_isspace CHR '' ''" by code_simp
  then show ?thesis using v by (cases v) simp_all
qed

lemma trim_right_value: "v = [] \<or> \<not> c_isspace (last v) \<Longrightarrow> trim_right v = v"
  by (cases v rule: rev_cases) (auto simp: trim_right_def)

lemma addHeader_text:
  assumes "header_wf h"
  shows "std_find CHR '':'' (header_text h) \<noteq> length (header_text h)"
    "addHeader (header_text h) (std_find CHR '':'' (header_text h)) r = r\<lparr>headers := map_set (fst h) (snd h) (headers r)\<rparr>"
proof -
  have f: "std_find CHR '':'' (header_text h) = length (fst h)"
    using std_find_append [of "CHR '':''" "fst h" "CHR '' '' # snd h"] assms by (simp add: header_text_def header_wf_def)
  then show "std_find CHR '':'' (header_text h) \<noteq> length (header_text h)" by (simp add: header_text_def)
  have "trim_right (dropWhile c_isspace (CHR '' '' # snd h)) = snd h"
    using dropWhile_value [of "snd h"] trim_right_value [of "snd h"] assms by (auto simp: header_wf_def)
  then show "addHeader (header_text h) (std_find CHR '':'' (header_text h)) r = r\<lparr>headers := map_set (fst h) (snd h) (headers r)\<rparr>"
    unfolding f by (simp add: addHeader_def header_text_def)
qed

lemma parse_header:
  assumes "ctx_state c = kExpectHeaders" "header_wf h"
  shows "http_parse c (header_text h @ kCRLF @ rest)
    = http_parse (c\<lparr>ctx_request := (ctx_request c)\<lparr>headers := map_set (fst h) (snd h) (headers (ctx_request c))\<rparr>\<rparr>) rest"
proof -
  have cr: "CR \<notin> set (header_text h)" using assms(2) by (auto simp: header_text_def header_wf_def)
  show ?thesis using line_ends [OF cr, of rest] addHeader_text [OF assms(2)] assms(1)
    by (subst http_parse.simps) (simp add: http_step_def Let_def del: drop_append take_append)
qed

definition set_headers :: "(string \<times> string) list \<Rightarrow> (string \<times> string) list \<Rightarrow> (string \<times> string) list" where
  "set_headers hs m = fold (\<lambda>h. map_set (fst h) (snd h)) hs m"

lemma parse_headers:
  assumes "ctx_state c = kExpectHeaders" "\<forall>h \<in> set hs. header_wf h"
  shows "http_parse c (concat (map (\<lambda>h. header_text h @ kCRLF) hs) @ rest)
    = http_parse (c\<lparr>ctx_request := (ctx_request c)\<lparr>headers := set_headers hs (headers (ctx_request c))\<rparr>\<rparr>) rest"
  using assms
proof (induction hs arbitrary: c)
  case Nil
  then show ?case by (simp add: set_headers_def)
next
  case (Cons h hs)
  have "http_parse c (concat (map (\<lambda>h. header_text h @ kCRLF) (h # hs)) @ rest)
    = http_parse (c\<lparr>ctx_request := (ctx_request c)\<lparr>headers := map_set (fst h) (snd h) (headers (ctx_request c))\<rparr>\<rparr>)
        (concat (map (\<lambda>h. header_text h @ kCRLF) hs) @ rest)"
    using parse_header [of c h "concat (map (\<lambda>h. header_text h @ kCRLF) hs) @ rest"] Cons.prems by simp
  also have "\<dots> = http_parse (c\<lparr>ctx_request := (ctx_request c)\<lparr>headers := set_headers (h # hs) (headers (ctx_request c))\<rparr>\<rparr>) rest"
    using Cons.IH [of "c\<lparr>ctx_request := (ctx_request c)\<lparr>headers := map_set (fst h) (snd h) (headers (ctx_request c))\<rparr>\<rparr>"] Cons.prems
    by (simp add: set_headers_def)
  finally show ?case .
qed

lemma parse_end_of_headers:
  "ctx_state c = kExpectHeaders \<Longrightarrow> http_parse c (kCRLF @ rest) = http_parse (c\<lparr>ctx_state := kExpectBody\<rparr>) rest"
  using line_ends [of "[]" rest] std_find_notin [of "CHR '':''" "[]"]
  by (subst http_parse.simps) (simp add: http_step_def Let_def kCRLF_def)

definition announces :: "HttpRequest \<Rightarrow> string \<Rightarrow> bool" where
  "announces r body \<longleftrightarrow> (let n = atoi (getHeader ''Content-Length'' r) in
     if body = [] then n \<le> 0 else n = int (length body))"

lemma parse_body:
  assumes "ctx_state c = kExpectBody" "announces (ctx_request c) body"
  shows "http_parse c (body @ rest) = Inr (True, c\<lparr>ctx_state := kGotAll,
    ctx_request := (if body = [] then ctx_request c else (ctx_request c)\<lparr>req_body := body\<rparr>)\<rparr>, rest)"
  using assms by (subst http_parse.simps) (auto simp: http_step_def announces_def Let_def split: if_splits)

lemma http_parse_text:
  assumes "ctx_state c = kExpectRequestLine" "req_method (ctx_request c) = kInvalid" "m \<noteq> kInvalid"
    "CHR '' '' \<notin> set target" "CR \<notin> set target" "\<forall>h \<in> set hs. header_wf h"
    "r1 = (parse_target target ((ctx_request c)\<lparr>req_method := m\<rparr>))\<lparr>req_version := kHttp11\<rparr>"
    "r2 = r1\<lparr>headers := set_headers hs (headers r1)\<rparr>" "announces r2 body"
  shows "http_parse c (http_text m target hs body @ rest) = Inr (True, c\<lparr>ctx_state := kGotAll,
    ctx_request := (if body = [] then r2 else r2\<lparr>req_body := body\<rparr>)\<rparr>, rest)"
proof -
  let ?line = "methodString m @ '' '' @ target @ '' HTTP/1.1''"
  let ?tail = "concat (map (\<lambda>h. header_text h @ kCRLF) hs) @ kCRLF @ body @ rest"
  let ?c1 = "c\<lparr>ctx_request := r1, ctx_state := kExpectHeaders\<rparr>"
  have txt_eq: "http_text m target hs body @ rest = ?line @ kCRLF @ ?tail" by (simp add: http_text_def)
  have cr: "CR \<notin> set ?line" using methodString_clean(2) [of m] assms(5) by simp
  have "http_parse c (?line @ kCRLF @ ?tail) = http_parse ?c1 ?tail"
    using line_ends [OF cr, of ?tail] parseRequestLine_text [OF assms(3,2,4)] assms(1,7)
    by (subst http_parse.simps) (simp add: http_step_def Let_def del: append_assoc take_append drop_append append_Cons append.simps)
  also have "\<dots> = http_parse (?c1\<lparr>ctx_request := r2\<rparr>) (kCRLF @ body @ rest)"
    using parse_headers [of ?c1 hs "kCRLF @ body @ rest"] assms(6,8) by simp
  also have "\<dots> = http_parse (c\<lparr>ctx_request := r2, ctx_state := kExpectBody\<rparr>) (body @ rest)"
    using parse_end_of_headers [of "?c1\<lparr>ctx_request := r2\<rparr>" "body @ rest"] by simp
  also have "\<dots> = Inr (True, c\<lparr>ctx_state := kGotAll, ctx_request := (if body = [] then r2 else r2\<lparr>req_body := body\<rparr>)\<rparr>, rest)"
    using parse_body [of "c\<lparr>ctx_request := r2, ctx_state := kExpectBody\<rparr>" body rest] assms(9) by simp
  finally show ?thesis unfolding txt_eq .
qed

lemma map_of_set_headers: "map_of (set_headers hs m) k = (case map_of (rev hs) k of None \<Rightarrow> map_of m k | Some v \<Rightarrow> Some v)"
proof (induction hs arbitrary: m)
  case Nil
  then show ?case by (simp add: set_headers_def)
next
  case (Cons h hs)
  have "set_headers (h # hs) m = set_headers hs (map_set (fst h) (snd h) m)" by (simp add: set_headers_def)
  then show ?case using Cons [of "map_set (fst h) (snd h) m"]
    by (cases h) (auto simp: map_of_map_set map_add_def split: option.splits)
qed

text \<open>The target of a request with parameters.\<close>

definition param_text :: "string \<times> string \<Rightarrow> string" where
  "param_text p = fst p @ ''='' @ snd p"

definition target_text :: "string \<Rightarrow> (string \<times> string) list \<Rightarrow> string" where
  "target_text path ps = (if ps = [] then path else path @ ''?'' @ join ''&'' (map param_text ps))"

definition param_wf :: "string \<times> string \<Rightarrow> bool" where
  "param_wf p \<longleftrightarrow> set (fst p) \<inter> {CHR ''='', CHR ''&'', CHR '' '', CR} = {} \<and> set (snd p) \<inter> {CHR ''&'', CHR '' '', CR} = {}"

lemma insert_params_text:
  "\<forall>p \<in> set ps. param_wf p \<Longrightarrow>
    insert_params (map param_text ps) r = r\<lparr>querys := fold (\<lambda>p. map_insert (fst p) (snd p)) ps (querys r)\<rparr>"
proof (induction ps arbitrary: r)
  case (Cons p ps)
  then have "CHR ''='' \<notin> set (fst p)" by (auto simp: param_wf_def)
  then have f: "std_find CHR ''='' (param_text p) = length (fst p)"
    using std_find_append [of "CHR ''=''" "fst p" "snd p"] by (simp add: param_text_def)
  have "insert_params (map param_text (p # ps)) r = insert_params (map param_text ps) (addQuery (fst p) (snd p) r)"
    using f by (simp add: Let_def) (simp add: param_text_def)
  then show ?case using Cons by (simp add: addQuery_def)
qed simp

lemma map_of_fold_insert:
  "map_ok m \<Longrightarrow> map_ok (fold (\<lambda>p. map_insert (fst p) (snd p)) ps m) \<and>
    map_of (fold (\<lambda>p. map_insert (fst p) (snd p)) ps m) k = (case map_of m k of None \<Rightarrow> map_of ps k | Some v \<Rightarrow> Some v)"
proof (induction ps arbitrary: m)
  case (Cons p ps)
  have ok: "map_ok (map_insert (fst p) (snd p) m)" by (rule map_ok_map_insert [OF Cons.prems])
  show ?case using Cons.IH [OF ok] map_of_map_insert [OF Cons.prems, of "fst p" "snd p"]
    by (cases p) (auto split: option.splits)
qed (simp split: option.splits)

lemma set_join: "set (join [c] ts) \<subseteq> insert c (\<Union>t \<in> set ts. set t)"
  by (induction ts rule: induct_list012) auto

lemma parse_target_text:
  assumes "CHR ''?'' \<notin> set path" "\<forall>p \<in> set ps. param_wf p" "map_ok (querys r)"
  shows "\<exists>r'. parse_target (target_text path ps) r = r' \<and> req_path r' = path \<and> map_ok (querys r') \<and>
    (\<forall>k. map_of (querys r') k = (case map_of (querys r) k of None \<Rightarrow> map_of ps k | Some v \<Rightarrow> Some v)) \<and> req_method r' = req_method r \<and> headers r' = headers r \<and> req_body r' = req_body r"
proof (cases "ps = []")
  case True
  have "std_find CHR ''?'' path = length path" using assms(1) std_find_notin by metis
  then show ?thesis using True assms(3) by (simp add: target_text_def parse_target_def split: option.splits)
next
  case False
  let ?q = "join ''&'' (map param_text ps)"
  have f: "std_find CHR ''?'' (path @ CHR ''?'' # ?q) = length path" by (rule std_find_append [OF assms(1)])
  have "split ?q ''&'' = map param_text ps"
  proof (rule split_join)
    show "map param_text ps \<noteq> []" "map param_text ps \<noteq> [[]]" using False by (auto simp: param_text_def)
    show "\<forall>t \<in> set (map param_text ps). CHR ''&'' \<notin> set t" using assms(2) by (auto simp: param_text_def param_wf_def)
  qed
  then show ?thesis
    using False f assms(3) insert_params_text [OF assms(2)] map_of_fold_insert [of "querys r" ps]
    by (simp add: target_text_def parse_target_def Let_def)
qed

text \<open>A request as a client writes it.\<close>

record client_request =
  cr_method :: Method
  cr_path :: string
  cr_params :: "(string \<times> string) list"
  cr_headers :: "(string \<times> string) list"
  cr_body :: string

definition request_text :: "client_request \<Rightarrow> string" where
  "request_text q = http_text (cr_method q) (target_text (cr_path q) (cr_params q)) (cr_headers q) (cr_body q)"

definition request_wf :: "client_request \<Rightarrow> bool" where
  "request_wf q \<longleftrightarrow> cr_method q \<noteq> kInvalid \<and> set (cr_path q) \<inter> {CHR '' '', CHR ''?'', CR} = {} \<and>
     (\<forall>p \<in> set (cr_params q). param_wf p) \<and> (\<forall>h \<in> set (cr_headers q). header_wf h) \<and> length (cr_body q) < 2 ^ 31 \<and>
     (map_of (rev (cr_headers q)) ''Content-Length'' = Some (dec_of_nat (length (cr_body q))) \<or>
      cr_body q = [] \<and> map_of (rev (cr_headers q)) ''Content-Length'' = None)"

lemma target_text_chars:
  assumes "set path \<inter> {CHR '' '', CR} = {}" "\<forall>p \<in> set ps. param_wf p"
  shows "CHR '' '' \<notin> set (target_text path ps)" "CR \<notin> set (target_text path ps)"
proof -
  have "(\<Union>t \<in> set (map param_text ps). set t) \<inter> {CHR '' '', CR} = {}"
    using assms(2) by (auto simp: param_text_def param_wf_def)
  then have "set (join ''&'' (map param_text ps)) \<inter> {CHR '' '', CR} = {}"
    using set_join [of "CHR ''&''" "map param_text ps"] by auto
  then show "CHR '' '' \<notin> set (target_text path ps)" "CR \<notin> set (target_text path ps)"
    using assms(1) by (auto simp: target_text_def)
qed

lemma atoi_nil: "atoi [] = 0"
  by code_simp

text \<open>Parsing a well-formed request in a context that waits for one; \<open>old\<close> is what the context has kept.\<close>

lemma parse_request_text:
  assumes "ctx_state c = kExpectRequestLine" "old = ctx_request c" "req_method old = kInvalid" "headers old = []"
    "map_ok (querys old)" "request_wf q"
  shows "\<exists>c'. http_parse c (request_text q @ rest) = Inr (True, c', rest) \<and> gotAll c' \<and>
    req_method (ctx_request c') = cr_method q \<and> req_version (ctx_request c') = kHttp11 \<and> req_path (ctx_request c') = cr_path q \<and>
    (\<forall>k. map_of (querys (ctx_request c')) k = (case map_of (querys old) k of None \<Rightarrow> map_of (cr_params q) k | Some v \<Rightarrow> Some v)) \<and>
    (\<forall>k. map_of (headers (ctx_request c')) k = map_of (rev (cr_headers q)) k) \<and>
    req_body (ctx_request c') = (if cr_body q = [] then req_body old else cr_body q)"
proof -
  let ?t = "target_text (cr_path q) (cr_params q)"
  have wf: "cr_method q \<noteq> kInvalid" "set (cr_path q) \<inter> {CHR '' '', CR} = {}" "CHR ''?'' \<notin> set (cr_path q)"
    "\<forall>p \<in> set (cr_params q). param_wf p" "\<forall>h \<in> set (cr_headers q). header_wf h" "length (cr_body q) < 2 ^ 31"
    using assms(6) by (auto simp: request_wf_def)
  have "map_ok (querys (old\<lparr>req_method := cr_method q\<rparr>))" using assms(5) by simp
  from parse_target_text [OF wf(3,4) this] obtain r' where
    r': "parse_target ?t (old\<lparr>req_method := cr_method q\<rparr>) = r'" "req_path r' = cr_path q" "req_method r' = cr_method q"
      "\<And>k. map_of (querys r') k = (case map_of (querys old) k of None \<Rightarrow> map_of (cr_params q) k | Some v \<Rightarrow> Some v)"
      "headers r' = []" "req_body r' = req_body old" using assms(4) by auto
  define r1 where "r1 = r'\<lparr>req_version := kHttp11\<rparr>"
  define r2 where "r2 = r1\<lparr>headers := set_headers (cr_headers q) (headers r1)\<rparr>"
  have h: "map_of (headers r2) k = map_of (rev (cr_headers q)) k" for k
    using map_of_set_headers [of "cr_headers q" "[]" k] r'(5) by (simp add: r2_def r1_def split: option.splits)
  have "announces r2 (cr_body q)"
    using assms(6) wf(6) atoi_dec [of "length (cr_body q)"] atoi_nil
    by (auto simp: announces_def getHeader_def h request_wf_def)
  from http_parse_text [OF assms(1) _ wf(1) target_text_chars [OF wf(2,4)] wf(5) _ r2_def this, of rest] assms(2,3) r'(1)
  have "http_parse c (request_text q @ rest) = Inr (True, c\<lparr>ctx_state := kGotAll,
      ctx_request := (if cr_body q = [] then r2 else r2\<lparr>req_body := cr_body q\<rparr>)\<rparr>, rest)"
    by (simp add: request_text_def r1_def)
  then show ?thesis using r'(2-4,6) h by (simp add: gotAll_def r2_def r1_def)
qed

lemma parseRequest_of_bytes:
  assumes "buf_inv b" "ctx_state c \<noteq> kGotAll" "http_parse c (content b) = Inr (ok, c', rest)"
  shows "\<exists>b'. parseRequest c b = Some (Inr (ok, c', b')) \<and> buf_inv b' \<and> content b' = rest"
  using parseRequest_refines [OF assms(1,2)] assms(3) by (simp add: parse_agrees_def)

text \<open>C16: the text of a well-formed request, followed by anything, is parsed to its end and not beyond, and
  the request object has its method, version, path, parameters (of a repeated name the first), headers
  (the last) and body.\<close>

theorem http_request_roundtrip:
  assumes "buf_inv b" "content b = request_text q @ rest" "request_wf q"
  shows "\<exists>c' b'. parseRequest mkHttpContext b = Some (Inr (True, c', b')) \<and> gotAll c' \<and> content b' = rest \<and>
    req_method (ctx_request c') = cr_method q \<and> req_version (ctx_request c') = kHttp11 \<and> req_path (ctx_request c') = cr_path q \<and>
    (\<forall>k. map_of (querys (ctx_request c')) k = map_of (cr_params q) k) \<and>
    (\<forall>k. map_of (headers (ctx_request c')) k = map_of (rev (cr_headers q)) k) \<and> req_body (ctx_request c') = cr_body q"
proof -
  let ?c = mkHttpContext
  have "ctx_state ?c = kExpectRequestLine" "req_method (ctx_request ?c) = kInvalid" "headers (ctx_request ?c) = []"
    "map_ok (querys (ctx_request ?c))" by (simp_all add: mkHttpContext_def mkHttpRequest_def)
  from parse_request_text [OF this(1) refl this(2-4) assms(3), of rest] obtain c' where
    c': "http_parse ?c (content b) = Inr (True, c', rest)" "gotAll c'" "req_method (ctx_request c') = cr_method q"
      "req_version (ctx_request c') = kHttp11" "req_path (ctx_request c') = cr_path q"
      "\<forall>k. map_of (querys (ctx_request c')) k = map_of (cr_params q) k"
      "\<forall>k. map_of (headers (ctx_request c')) k = map_of (rev (cr_headers q)) k" "req_body (ctx_request c') = cr_body q"
    unfolding assms(2) by (auto simp: mkHttpContext_def mkHttpRequest_def)
  have "ctx_state ?c \<noteq> kGotAll" by (simp add: mkHttpContext_def)
  from parseRequest_of_bytes [OF assms(1) this c'(1)] c'(2-) show ?thesis by blast
qed

definition sample_request :: client_request where
  "sample_request = \<lparr>cr_method = kPost, cr_path = ''/push/mids'', cr_params = [(''mids'', ''1,2''), (''operation'', ''9'')],
     cr_headers = [(''Host'', ''a''), (''Content-Length'', ''2'')], cr_body = ''hi''\<rparr>"

lemma sample_request_wf: "request_wf sample_request"
proof -
  have "dec_of_nat (Suc (Suc 0)) = ''2''" "\<not> c_isspace CHR ''a''" "\<not> c_isspace CHR ''2''" by code_simp+
  then show ?thesis by (simp add: sample_request_def request_wf_def param_wf_def header_wf_def)
qed

theorem http_request_roundtrip_witness:
  "\<exists>b c' b'. content b = request_text sample_request @ ''GET'' \<and> parseRequest mkHttpContext b = Some (Inr (True, c', b')) \<and>
    gotAll c' \<and> content b' = ''GET'' \<and> req_path (ctx_request c') = ''/push/mids'' \<and> req_body (ctx_request c') = ''hi''"
proof -
  obtain b where b: "buf_inv b" "content b = request_text sample_request @ ''GET''"
    using bq.app_spec [of "mkBuffer 0" "request_text sample_request @ ''GET''"] by auto
  from http_request_roundtrip [OF b sample_request_wf] b(2) show ?thesis by (auto simp: sample_request_def)
qed

subsection \<open>Several requests on one connection\<close>

lemma ctx_reset_keeps:
  "ctx_state (ctx_reset c) = kExpectRequestLine" "req_method (ctx_request (ctx_reset c)) = kInvalid"
  "headers (ctx_request (ctx_reset c)) = []" "querys (ctx_request (ctx_reset c)) = querys (ctx_request c)"
  "req_body (ctx_request (ctx_reset c)) = req_body (ctx_request c)"
  by (simp_all add: ctx_reset_def request_swap_def mkHttpRequest_def)

text \<open>C22: \<^verbatim>\<open>reset\<close> does not forget the parameters and the body of the request before. On a kept-alive
  connection a parameter that an earlier request had keeps its old value, whatever the next request
  says, and a request without a body is given the old body.\<close>

theorem keepalive_serves_old_parameters:
  assumes "map_ok (querys (ctx_request c))" "map_of (querys (ctx_request c)) k = Some v"
    "buf_inv b" "content b = request_text q @ rest" "request_wf q"
  shows "\<exists>c' b'. parseRequest (ctx_reset c) b = Some (Inr (True, c', b')) \<and> gotAll c' \<and> req_path (ctx_request c') = cr_path q \<and>
    getQuery k (ctx_request c') = Inr v \<and> (cr_body q = [] \<longrightarrow> req_body (ctx_request c') = req_body (ctx_request c))"
proof -
  have "map_ok (querys (ctx_request (ctx_reset c)))" using assms(1) by (simp add: ctx_reset_keeps)
  from parse_request_text [OF ctx_reset_keeps(1) refl ctx_reset_keeps(2,3) this assms(5), of rest] obtain c' where
    c': "http_parse (ctx_reset c) (content b) = Inr (True, c', rest)" "gotAll c'" "req_path (ctx_request c') = cr_path q"
      "map_of (querys (ctx_request c')) k = Some v"
      "cr_body q = [] \<longrightarrow> req_body (ctx_request c') = req_body (ctx_request c)"
    unfolding assms(4) using assms(2) by (auto simp: ctx_reset_keeps)
  have "ctx_state (ctx_reset c) \<noteq> kGotAll" by (simp add: ctx_reset_keeps)
  from parseRequest_of_bytes [OF assms(3) this c'(1)] c'(2-) show ?thesis by (auto simp: getQuery_def)
qed

theorem keepalive_serves_old_parameters_witness:
  "\<exists>c b c' b'. content b = request_text sample_request \<and> parseRequest (ctx_reset c) b = Some (Inr (True, c', b')) \<and>
    getQuery ''mids'' (ctx_request c') = Inr ''7''"
proof -
  let ?c = "mkHttpContext\<lparr>ctx_request := (mkHttpRequest False)\<lparr>querys := [(''mids'', ''7'')]\<rparr>\<rparr>"
  obtain b where b: "buf_inv b" "content b = request_text sample_request @ []"
    using bq.app_spec [of "mkBuffer 0" "request_text sample_request"] by auto
  have "map_ok (querys (ctx_request ?c))" "map_of (querys (ctx_request ?c)) ''mids'' = Some ''7''" by simp_all
  from keepalive_serves_old_parameters [OF this b sample_request_wf] b(2) show ?thesis by auto
qed

text \<open>A request line the parser refuses after it has read the method.\<close>

definition bad_version_line :: "Method \<Rightarrow> string \<Rightarrow> string" where
  "bad_version_line m target = methodString m @ '' '' @ target @ '' HTTP/2.0''"

lemma parse_bad_version:
  assumes "m \<noteq> kInvalid" "req_method r = kInvalid" "CHR '' '' \<notin> set target"
  shows "parseRequestLine (bad_version_line m target) r = Inr (False, parse_target target (r\<lparr>req_method := m\<rparr>))"
proof -
  have s1: "std_find CHR '' '' (methodString m @ CHR '' '' # target @ '' HTTP/2.0'') = length (methodString m)"
    by (rule std_find_append [OF methodString_clean(1)])
  have s2: "std_find CHR '' '' (target @ CHR '' '' # ''HTTP/2.0'') = length target" by (rule std_find_append [OF assms(3)])
  show ?thesis using s1 s2 assms(1,2) method_of_methodString [OF assms(1)]
    by (simp add: parseRequestLine_def setMethod_def bad_version_line_def parse_version_def)
qed

lemma insert_params_method: "req_method (insert_params ps r) = req_method r"
  by (induction ps arbitrary: r) (simp_all add: Let_def addQuery_def)

lemma parse_target_method: "req_method (parse_target t r) = req_method r"
  by (simp add: parse_target_def insert_params_method Let_def)

lemma bad_version_line_clean: "CR \<notin> set target \<Longrightarrow> CR \<notin> set (bad_version_line m target)"
  using methodString_clean(2) [of m] by (simp add: bad_version_line_def)

text \<open>C32: a request line with an unknown version is answered with an error but left in the buffer, and the
  method it named stays set. The next bytes on the connection make the parser read the same line again,
  where \<^verbatim>\<open>setMethod\<close> asserts that no method is set.\<close>

theorem refused_line_aborts_next_read:
  assumes "buf_inv b" "content b = bad_version_line m target @ kCRLF @ rest" "m \<noteq> kInvalid"
    "CHR '' '' \<notin> set target" "CR \<notin> set target"
  shows "\<exists>c1 b1. parseRequest mkHttpContext b = Some (Inr (False, c1, b1)) \<and> content b1 = content b \<and> \<not> gotAll c1 \<and>
    (\<forall>d b2. append_bytes d b1 = Inr b2 \<longrightarrow> parseRequest c1 b2 = Some (Inl AssertionFailed))"
proof -
  let ?line = "bad_version_line m target"
  let ?r = "parse_target target ((mkHttpRequest False)\<lparr>req_method := m\<rparr>)"
  define c1 where "c1 = mkHttpContext\<lparr>ctx_request := ?r\<rparr>"
  have cr: "CR \<notin> set ?line" by (rule bad_version_line_clean [OF assms(5)])
  have bad: "parseRequestLine ?line (mkHttpRequest False) = Inr (False, ?r)"
    by (rule parse_bad_version [OF assms(3) _ assms(4)]) (simp add: mkHttpRequest_def)
  have "http_parse mkHttpContext (content b) = Inr (False, c1, content b)"
    using line_ends [OF cr, of rest] bad unfolding assms(2)
    by (subst http_parse.simps) (simp add: http_step_def mkHttpContext_def c1_def Let_def del: append_assoc take_append drop_append)
  then obtain b1 where b1: "parseRequest mkHttpContext b = Some (Inr (False, c1, b1))" "buf_inv b1" "content b1 = content b"
    using parseRequest_of_bytes [OF assms(1)] by (metis HttpContext.select_convs(1) HttpRequestParseState.distinct(5) mkHttpContext_def)
  have st: "ctx_state c1 = kExpectRequestLine" by (simp add: c1_def mkHttpContext_def)
  have "req_method (ctx_request c1) \<noteq> kInvalid" using assms(3) by (simp add: c1_def parse_target_method)
  then have again: "parseRequestLine ?line (ctx_request c1) = Inl AssertionFailed"
    using std_find_append [OF methodString_clean(1) [of m], of "target @ '' HTTP/2.0''"]
    by (simp add: parseRequestLine_def bad_version_line_def setMethod_def assert_that_def)
  have "parseRequest c1 b2 = Some (Inl AssertionFailed)" if "append_bytes d b1 = Inr b2" for d b2
  proof -
    have b2: "buf_inv b2" "content b2 = ?line @ kCRLF @ (rest @ d)"
      using bq.app_spec [OF b1(2), of d] that b1(3) assms(2) by auto
    have "http_parse c1 (content b2) = Inl AssertionFailed"
      using line_ends [OF cr, of "rest @ d"] again st unfolding b2(2)
      by (subst http_parse.simps) (simp add: http_step_def Let_def del: append_assoc take_append drop_append)
    then show ?thesis using parseRequest_refines [OF b2(1), of c1] st by (simp add: parse_agrees_def)
  qed
  with b1 st show ?thesis by (auto simp: gotAll_def)
qed

theorem refused_line_aborts_next_read_witness:
  "\<exists>b c1 b1. content b = ''GET / HTTP/2.0'' @ kCRLF \<and> parseRequest mkHttpContext b = Some (Inr (False, c1, b1)) \<and>
    (\<forall>b2. append_bytes ''x'' b1 = Inr b2 \<longrightarrow> parseRequest c1 b2 = Some (Inl AssertionFailed))"
proof -
  have l: "bad_version_line kGet ''/'' = ''GET / HTTP/2.0''" by (simp add: bad_version_line_def)
  obtain b where b: "buf_inv b" "content b = bad_version_line kGet ''/'' @ kCRLF @ []"
    using bq.app_spec [of "mkBuffer 0" "bad_version_line kGet ''/'' @ kCRLF"] by auto
  from refused_line_aborts_next_read [OF b] b(2) l show ?thesis by auto
qed

end
