(* ===== verification/RateModel.thy ===== *)
theory RateModel
  imports Complex_Main "HOL-Library.Signed_Division"
begin

text \<open>
  The adaptive concurrency limit of the HTTP server (\<^verbatim>\<open>src/rate/Sample.h\<close>, \<^verbatim>\<open>Vegas.h\<close>, \<^verbatim>\<open>Limiter.h\<close>).

  Times and counters are integers (the \<^verbatim>\<open>int64_t\<close> of the source holds nanoseconds for three centuries).
  A \<^verbatim>\<open>double\<close> is a real number and every floating-point operation is the exact one followed by \<open>fl\<close>, the
  rounding of the hardware, which is a parameter; \<open>rnd\<close> is the value of \<^verbatim>\<open>std::rand()\<close> and the readings of
  the clock are arguments. The closure \<^verbatim>\<open>Acquire\<close> returns is \<open>vegas_done\<close> with the value of
  \<^verbatim>\<open>inFlight\<close> it has captured.
\<close>

subsection \<open>Samples\<close>

record Sample =
  sample_count :: int
  maxInFlight :: int
  drop_flag :: int
  totalRTT :: int

definition mkSample :: Sample where
  "mkSample = \<lparr>sample_count = 0, maxInFlight = 0, drop_flag = 0, totalRTT = 0\<rparr>"

definition sample_Add :: "int \<Rightarrow> int \<Rightarrow> bool \<Rightarrow> Sample \<Rightarrow> Sample" where
  "sample_Add rtt inflight dropped s = (
     let s = (if dropped then s\<lparr>drop_flag := 1\<rparr> else s);
         s = (if maxInFlight s < inflight then s\<lparr>maxInFlight := inflight\<rparr> else s)
     in s\<lparr>sample_count := sample_count s + 1, totalRTT := totalRTT s + rtt\<rparr>)"

definition sample_RTT :: "Sample \<Rightarrow> int" where
  "sample_RTT s = (if sample_count s = 0 then 0 else totalRTT s sdiv sample_count s)"

subsection \<open>The limit\<close>

datatype Op = Ignore | Success | Drop

record Vegas =
  limit :: int
  inFlight :: int
  updateTime :: int
  minRTT :: int
  sample :: Sample
  probes :: int

definition minWindowTime :: int where "minWindowTime = 500 * 1000 * 1000"
definition maxWindowTime :: int where "maxWindowTime = 2000 * 1000 * 1000"
definition minLimit :: int where "minLimit = 8"
definition maxLimit :: int where "maxLimit = 4096"

definition mkVegas :: Vegas where
  "mkVegas = \<lparr>limit = minLimit, inFlight = 0, updateTime = 0, minRTT = 0, sample = mkSample, probes = 100\<rparr>"

record Status =
  st_limit :: int
  st_inFlight :: int
  st_minRTT :: int
  st_lastRTT :: int

definition vegas_Stat :: "Vegas \<Rightarrow> Status" where
  "vegas_Stat v = \<lparr>st_limit = limit v, st_inFlight = inFlight v, st_minRTT = minRTT v sdiv (1000 * 1000),
     st_lastRTT = sample_RTT (sample v) sdiv (1000 * 1000)\<rparr>"

text \<open>\<^verbatim>\<open>Acquire\<close>: the captured value, whether the request is admitted, and the new state.\<close>

definition Acquire :: "Vegas \<Rightarrow> int \<times> bool \<times> Vegas" where
  "Acquire v = (let v = v\<lparr>inFlight := inFlight v + 1\<rparr> in (inFlight v, inFlight v \<le> limit v, v))"

text \<open>\<^verbatim>\<open>(int64_t) x\<close> for a \<^verbatim>\<open>double\<close>\<close>

definition trunc :: "real \<Rightarrow> int" where
  "trunc x = (if 0 \<le> x then \<lfloor>x\<rfloor> else \<lceil>x\<rceil>)"

definition new_update_time :: "int \<Rightarrow> int \<Rightarrow> int" where
  "new_update_time endt lastRTT = (
     if lastRTT * 5 < minWindowTime then endt + minWindowTime
     else if lastRTT * 5 > maxWindowTime then endt + maxWindowTime
     else endt + lastRTT * 5)"

text \<open>The new limit before clamping; \<open>None\<close> where the source returns and keeps the old one.\<close>

definition new_limit :: "(real \<Rightarrow> real) \<Rightarrow> int \<Rightarrow> int \<Rightarrow> Sample \<Rightarrow> real option" where
  "new_limit fl lmt queue s = (
     let threshold = fl (fl (sqrt (real_of_int lmt)) / 2); q = real_of_int queue; l = real_of_int lmt in
     if drop_flag s \<noteq> 0 then Some (fl (l - threshold))
     else if maxInFlight s * 2 < lmt then None
     else if q < threshold then Some (fl (l + fl (6 * threshold)))
     else if q < fl (2 * threshold) then Some (fl (l + fl (3 * threshold)))
     else if q < fl (3 * threshold) then Some (fl (l + threshold))
     else if q > fl (6 * threshold) then Some (fl (l - threshold))
     else None)"

text \<open>The end of a window: the part of the closure under the lock.\<close>

definition close_window :: "(real \<Rightarrow> real) \<Rightarrow> int \<Rightarrow> int \<Rightarrow> Sample \<Rightarrow> Vegas \<Rightarrow> Vegas" where
  "close_window fl rnd endt s v = (
     let v = v\<lparr>sample := mkSample\<rparr>; lastRTT = sample_RTT s in
     if lastRTT \<le> 0 then v else
     let v = v\<lparr>updateTime := new_update_time endt lastRTT\<rparr>;
         lmt = limit v;
         queue = trunc (fl (real_of_int lmt * fl (1 - fl (real_of_int (minRTT v) / real_of_int lastRTT))));
         v = v\<lparr>probes := probes v - 1\<rparr>;
         v = (if probes v \<le> 0 \<and> (maxInFlight s * 2 < limit v \<or> maxInFlight s \<le> minLimit)
              then v\<lparr>probes := 3 * lmt + rnd mod (3 * lmt), minRTT := lastRTT\<rparr> else v);
         v = (if minRTT v = 0 \<or> lastRTT < minRTT v then v\<lparr>minRTT := lastRTT\<rparr> else v)
     in case new_limit fl lmt queue s of
          None \<Rightarrow> v
        | Some x \<Rightarrow> v\<lparr>limit := max minLimit (min maxLimit (trunc x))\<rparr>)"

definition vegas_done :: "(real \<Rightarrow> real) \<Rightarrow> int \<Rightarrow> int \<Rightarrow> int \<Rightarrow> int \<Rightarrow> Op \<Rightarrow> Vegas \<Rightarrow> Vegas" where
  "vegas_done fl rnd endt captured start op v = (
     let v = v\<lparr>inFlight := inFlight v - 1\<rparr> in
     if op = Ignore then v else
     let s = sample_Add (endt - start) captured (op = Drop) (sample v); v = v\<lparr>sample := s\<rparr> in
     if endt > updateTime v \<and> sample_count s \<ge> 16 then close_window fl rnd endt s v else v)"

text \<open>\<^verbatim>\<open>Limiter::Allow\<close>: a refused request gives its slot back at once.\<close>

definition Allow :: "(real \<Rightarrow> real) \<Rightarrow> Vegas \<Rightarrow> int option \<times> Vegas" where
  "Allow fl v = (let (captured, ok, v) = Acquire v in
     if \<not> ok then (None, vegas_done fl 0 0 captured 0 Ignore v) else (Some captured, v))"

subsection \<open>Bounds and accounting\<close>

lemma close_window_limit:
  assumes "minLimit \<le> limit v \<and> limit v \<le> maxLimit"
  shows "minLimit \<le> limit (close_window fl rnd endt s v) \<and> limit (close_window fl rnd endt s v) \<le> maxLimit"
  using assms by (auto simp: close_window_def Let_def minLimit_def maxLimit_def split: option.splits)

lemma close_window_inFlight: "inFlight (close_window fl rnd endt s v) = inFlight v"
  by (auto simp: close_window_def Let_def split: option.splits)

lemma vegas_done_inFlight: "inFlight (vegas_done fl rnd endt captured start op v) = inFlight v - 1"
  by (simp add: vegas_done_def Let_def close_window_inFlight)

lemma vegas_done_limit:
  assumes "minLimit \<le> limit v \<and> limit v \<le> maxLimit"
  shows "minLimit \<le> limit (vegas_done fl rnd endt captured start op v) \<and> limit (vegas_done fl rnd endt captured start op v) \<le> maxLimit"
  using assms close_window_limit by (simp add: vegas_done_def Let_def)

text \<open>Requests come (\<open>Come\<close>) and admitted ones finish, in any order and with any times and outcomes; \<open>held\<close>
  counts the admitted requests that have not finished.\<close>

datatype limiter_ev = Come | Finish int int int int Op

record limiter_run =
  lr_vegas :: Vegas
  held :: nat
  answers :: "bool list"

definition fresh_limiter :: limiter_run where
  "fresh_limiter = \<lparr>lr_vegas = mkVegas, held = 0, answers = []\<rparr>"

fun limiter_step :: "(real \<Rightarrow> real) \<Rightarrow> limiter_ev \<Rightarrow> limiter_run \<Rightarrow> limiter_run" where
  "limiter_step fl Come x = (case Allow fl (lr_vegas x) of
     (None, v) \<Rightarrow> x\<lparr>lr_vegas := v, answers := answers x @ [False]\<rparr>
   | (Some captured, v) \<Rightarrow> x\<lparr>lr_vegas := v, held := held x + 1, answers := answers x @ [True]\<rparr>)"
| "limiter_step fl (Finish rnd endt captured start op) x = (if held x = 0 then x
     else x\<lparr>lr_vegas := vegas_done fl rnd endt captured start op (lr_vegas x), held := held x - 1\<rparr>)"

definition limiter_inv :: "limiter_run \<Rightarrow> bool" where
  "limiter_inv x \<longleftrightarrow> minLimit \<le> limit (lr_vegas x) \<and> limit (lr_vegas x) \<le> maxLimit \<and>
     inFlight (lr_vegas x) = int (held x) \<and> int (held x) \<le> maxLimit"

lemma limiter_inv_fresh: "limiter_inv fresh_limiter"
  by (simp add: limiter_inv_def fresh_limiter_def mkVegas_def minLimit_def maxLimit_def)

lemma Allow_cases:
  "Allow fl v = (if inFlight v < limit v then (Some (inFlight v + 1), v\<lparr>inFlight := inFlight v + 1\<rparr>) else (None, v))"
  by (auto simp: Allow_def Acquire_def vegas_done_def)

lemma limiter_step_inv:
  assumes "limiter_inv x"
  shows "limiter_inv (limiter_step fl e x)"
proof (cases e)
  case Come
  then show ?thesis using assms by (auto simp: limiter_inv_def Allow_cases)
next
  case (Finish rnd endt captured start op)
  then show ?thesis using assms vegas_done_limit [of "lr_vegas x" fl rnd endt captured start op]
    by (auto simp: limiter_inv_def vegas_done_inFlight)
qed

lemma limiter_run_inv: "limiter_inv x \<Longrightarrow> limiter_inv (fold (limiter_step fl) es x)"
  by (induction es arbitrary: x) (simp_all add: limiter_step_inv)

text \<open>C17: whatever the rounding, the clock, the random numbers and the outcomes, the limit stays between 8
  and 4096, \<^verbatim>\<open>inFlight_\<close> is the number of admitted requests that have not finished, at most 4096 of them
  are admitted at a time, and a request is admitted exactly when fewer than the limit are.\<close>

theorem limiter_bounds_concurrency:
  "\<exists>x. fold (limiter_step fl) es fresh_limiter = x \<and> 8 \<le> limit (lr_vegas x) \<and> limit (lr_vegas x) \<le> 4096 \<and>
     inFlight (lr_vegas x) = int (held x) \<and> held x \<le> 4096 \<and>
     answers (limiter_step fl Come x) = answers x @ [int (held x) < limit (lr_vegas x)]"
  using limiter_run_inv [OF limiter_inv_fresh, of fl es]
  by (auto simp: limiter_inv_def Allow_cases minLimit_def maxLimit_def)

lemma come_when_full:
  assumes "limit (lr_vegas x) \<le> inFlight (lr_vegas x)"
  shows "fold (limiter_step fl) (replicate k Come) x = x\<lparr>answers := answers x @ replicate k False\<rparr>"
  using assms
proof (induction k arbitrary: x)
  case (Suc k)
  then have "limiter_step fl Come x = x\<lparr>answers := answers x @ [False]\<rparr>" by (simp add: Allow_cases)
  then show ?case using Suc by (simp add: replicate_append_same)
qed simp

lemma come_when_free:
  assumes "inFlight (lr_vegas x) + int k \<le> limit (lr_vegas x)"
  shows "fold (limiter_step fl) (replicate k Come) x = x\<lparr>lr_vegas := (lr_vegas x)\<lparr>inFlight := inFlight (lr_vegas x) + int k\<rparr>,
    held := held x + k, answers := answers x @ replicate k True\<rparr>"
  using assms
proof (induction k arbitrary: x)
  case (Suc k)
  let ?x = "x\<lparr>lr_vegas := (lr_vegas x)\<lparr>inFlight := inFlight (lr_vegas x) + 1\<rparr>, held := held x + 1, answers := answers x @ [True]\<rparr>"
  have "limiter_step fl Come x = ?x" using Suc.prems by (simp add: Allow_cases)
  moreover have "inFlight (lr_vegas ?x) + int k \<le> limit (lr_vegas ?x)" using Suc.prems by simp
  ultimately show ?case using Suc.IH [of ?x] by (simp add: algebra_simps replicate_append_same)
qed simp

text \<open>the limit changes only when a request finishes. If eight admitted requests never do, every further
  request is refused for ever.\<close>

theorem unfinished_requests_block_the_server:
  "answers (fold (limiter_step fl) (replicate (8 + k) Come) fresh_limiter) = replicate 8 True @ replicate k False"
proof -
  have free: "inFlight (lr_vegas fresh_limiter) + int 8 \<le> limit (lr_vegas fresh_limiter)"
    by (simp add: fresh_limiter_def mkVegas_def minLimit_def)
  let ?x = "fold (limiter_step fl) (replicate 8 Come) fresh_limiter"
  have full: "limit (lr_vegas ?x) \<le> inFlight (lr_vegas ?x)" "answers ?x = replicate 8 True"
    unfolding come_when_free [OF free] by (simp_all add: fresh_limiter_def mkVegas_def minLimit_def)
  have "fold (limiter_step fl) (replicate (8 + k) Come) fresh_limiter = fold (limiter_step fl) (replicate k Come) ?x"
    by (simp add: replicate_add)
  then show ?thesis using come_when_full [OF full(1), of fl k] full(2) by simp
qed

subsection \<open>How the limit moves\<close>

text \<open>What IEEE arithmetic promises of rounding: it is monotone and exact on small integers.\<close>

definition ieee_rounding :: "(real \<Rightarrow> real) \<Rightarrow> bool" where
  "ieee_rounding fl \<longleftrightarrow> mono fl \<and> (\<forall>i :: int. \<bar>i\<bar> \<le> 2 ^ 53 \<longrightarrow> fl (real_of_int i) = real_of_int i)"

lemma fl_le: "ieee_rounding fl \<Longrightarrow> x \<le> real_of_int i \<Longrightarrow> \<bar>i\<bar> \<le> 2 ^ 53 \<Longrightarrow> fl x \<le> real_of_int i"
  unfolding ieee_rounding_def by (metis monoD)

lemma fl_ge: "ieee_rounding fl \<Longrightarrow> real_of_int i \<le> x \<Longrightarrow> \<bar>i\<bar> \<le> 2 ^ 53 \<Longrightarrow> real_of_int i \<le> fl x"
  unfolding ieee_rounding_def by (metis monoD)

lemma trunc_le: "x \<le> real_of_int i \<Longrightarrow> 0 \<le> i \<Longrightarrow> trunc x \<le> i"
  by (auto simp: trunc_def floor_le_iff ceiling_le_iff)

lemma threshold_bounds:
  assumes "ieee_rounding fl" "0 \<le> lmt" "lmt \<le> maxLimit"
  shows "0 \<le> fl (fl (sqrt (real_of_int lmt)) / 2)" "fl (fl (sqrt (real_of_int lmt)) / 2) \<le> 32"
proof -
  have "sqrt (real_of_int lmt) \<le> sqrt (64 * 64)" using assms(3) by (intro real_sqrt_le_mono) (simp add: maxLimit_def)
  then have "sqrt (real_of_int lmt) \<le> real_of_int 64" by (simp add: real_sqrt_mult)
  then have hi: "fl (sqrt (real_of_int lmt)) \<le> real_of_int 64" by (rule fl_le [OF assms(1)]) simp
  have "real_of_int 0 \<le> sqrt (real_of_int lmt)" using assms(2) by simp
  then have lo: "real_of_int 0 \<le> fl (sqrt (real_of_int lmt))" by (rule fl_ge [OF assms(1)]) simp
  have "real_of_int 0 \<le> fl (fl (sqrt (real_of_int lmt)) / 2)" using lo by (intro fl_ge [OF assms(1)]) simp_all
  then show "0 \<le> fl (fl (sqrt (real_of_int lmt)) / 2)" by simp
  have "fl (fl (sqrt (real_of_int lmt)) / 2) \<le> real_of_int 32" using hi by (intro fl_le [OF assms(1)]) simp_all
  then show "fl (fl (sqrt (real_of_int lmt)) / 2) \<le> 32" by simp
qed

text \<open>C38: with IEEE rounding, a window in which a request was dropped never raises the limit, and no window
  raises it by more than 192.\<close>

theorem limit_moves_slowly:
  assumes "ieee_rounding fl" "minLimit \<le> limit v" "limit v \<le> maxLimit"
  shows "limit (close_window fl rnd endt s v) \<le> limit v + 192 \<and>
    (drop_flag s \<noteq> 0 \<longrightarrow> limit (close_window fl rnd endt s v) \<le> limit v)"
proof -
  let ?l = "limit v"
  let ?t = "fl (fl (sqrt (real_of_int ?l)) / 2)"
  have l: "0 \<le> ?l" "?l \<le> 4096" "8 \<le> ?l" using assms(2,3) by (simp_all add: minLimit_def maxLimit_def)
  note t = threshold_bounds [OF assms(1) l(1) assms(3)]
  have up: "fl (k * ?t) \<le> real_of_int 192" if "0 \<le> k" "k \<le> 6" for k
  proof (rule fl_le [OF assms(1)])
    have "k * ?t \<le> 6 * 32" using that t by (intro mult_mono) simp_all
    then show "k * ?t \<le> real_of_int 192" by simp
  qed simp
  have plus: "fl (real_of_int ?l + y) \<le> real_of_int (?l + 192)" if "y \<le> 192" for y
    using that l by (intro fl_le [OF assms(1)]) simp_all
  have minus: "fl (real_of_int ?l - ?t) \<le> real_of_int ?l" using t(1) l by (intro fl_le [OF assms(1)]) simp_all
  have x: "x \<le> real_of_int (?l + 192) \<and> (drop_flag s \<noteq> 0 \<longrightarrow> x \<le> real_of_int ?l)" if "new_limit fl ?l queue s = Some x" for queue x
    using that minus plus [OF t(2) [THEN order_trans]] plus [of "fl (6 * ?t)"] plus [of "fl (3 * ?t)"] up [of 6] up [of 3]
    by (auto simp: new_limit_def Let_def split: if_splits)
  have clamp: "max minLimit (min maxLimit (trunc x)) \<le> ?l + 192 \<and> (drop_flag s \<noteq> 0 \<longrightarrow> max minLimit (min maxLimit (trunc x)) \<le> ?l)"
    if "new_limit fl ?l queue s = Some x" for queue x
    using x [OF that] trunc_le [of x "?l + 192"] trunc_le [of x ?l] l by (auto simp: minLimit_def maxLimit_def)
  show ?thesis using clamp by (auto simp: close_window_def Let_def split: option.splits)
qed

theorem limit_moves_slowly_witness:
  "limit (close_window (\<lambda>x. x) 3 1000 \<lparr>sample_count = 16, maxInFlight = 8, drop_flag = 1, totalRTT = 160\<rparr> mkVegas) \<le> limit mkVegas"
proof -
  have "ieee_rounding (\<lambda>x. x)" by (simp add: ieee_rounding_def mono_def)
  moreover have "minLimit \<le> limit mkVegas" "limit mkVegas \<le> maxLimit" by (simp_all add: mkVegas_def minLimit_def maxLimit_def)
  ultimately show ?thesis
    using limit_moves_slowly [of "\<lambda>x. x" mkVegas 3 1000 "\<lparr>sample_count = 16, maxInFlight = 8, drop_flag = 1, totalRTT = 160\<rparr>"] by simp
qed

end
