(* ===== verification/HttpServerModel.thy ===== *)
theory HttpServerModel
  imports HttpParser RateModel
begin

text \<open>
  Serving requests (\<^verbatim>\<open>src/http/HttpServer.cc\<close>): one connection with its parser context, the limiter and the
  registered handlers. A handler is a parameter: it takes the request, the response object and the
  state \<open>'w\<close> of the server it belongs to, and may send, change the response or fault. The callback that
  \<^verbatim>\<open>onRequest\<close> leaves in the session is \<open>finish_request\<close> with the captured value of the limiter.
\<close>

subsection \<open>Operations\<close>

datatype http_out = HttpSend string | HttpClose

type_synonym 'w handler = "HttpRequest \<Rightarrow> HttpResponse \<Rightarrow> 'w \<Rightarrow> (http_out list \<times> HttpResponse \<times> 'w) result"

record 'w HttpServer =
  handlers :: "(string \<times> 'w handler) list"
  limiter :: Vegas
  world :: 'w

definition RegHandler :: "string \<Rightarrow> 'w handler \<Rightarrow> 'w HttpServer \<Rightarrow> 'w HttpServer" where
  "RegHandler url cb v = (if map_of (handlers v) url = None then v\<lparr>handlers := handlers v @ [(url, cb)]\<rparr> else v)"

text \<open>\<^verbatim>\<open>doResponse\<close> and \<^verbatim>\<open>HttpResponse::send\<close>: render into a fresh buffer and send it.\<close>

definition doResponse :: "HttpResponse \<Rightarrow> http_out list result" where
  "doResponse r = rbind (response_appendToBuffer r (mkBuffer kInitialSize)) (\<lambda>b. Inr [HttpSend (content b)])"

definition set_status :: "nat \<Rightarrow> string \<Rightarrow> HttpResponse \<Rightarrow> HttpResponse" where
  "set_status code msg r = r\<lparr>statusCode := code, statusMessage := msg\<rparr>"

definition finish_request :: "(real \<Rightarrow> real) \<Rightarrow> int \<Rightarrow> int \<Rightarrow> int \<Rightarrow> int \<Rightarrow> HttpResponse \<Rightarrow> 'w HttpServer \<Rightarrow>
    (http_out list \<times> 'w HttpServer) result" where
  "finish_request fl rnd endt captured start response v =
     rbind (doResponse (set_status 200 ''OK'' response)) (\<lambda>outs.
     Inr (outs, v\<lparr>limiter := vegas_done fl rnd endt captured start Success (limiter v)\<rparr>))"

definition wants_close :: "HttpRequest \<Rightarrow> bool" where
  "wants_close req = (let connection = getHeader ''Connection'' req in
     connection = ''close'' \<or> (req_version req = kHttp10 \<and> connection \<noteq> ''Keep-Alive''))"

definition onRequest :: "(real \<Rightarrow> real) \<Rightarrow> HttpRequest \<Rightarrow> 'w HttpServer \<Rightarrow> (http_out list \<times> 'w HttpServer) result" where
  "onRequest fl req v = (
     let response = mkHttpResponse (wants_close req) in
     rbind (case map_of (handlers v) (req_path req) of
         Some cb \<Rightarrow>
           (let (res, lm) = Allow fl (limiter v); v = v\<lparr>limiter := lm\<rparr> in
            case res of
              Some captured \<Rightarrow>
                rbind (cb req response (world v)) (\<lambda>(outs, response, w).
                if \<not> resp_delay response then
                  rbind (doResponse (set_status 200 ''OK'' response)) (\<lambda>outs'. Inr (outs @ outs', response, v\<lparr>world := w\<rparr>))
                else Inr (outs, response, v\<lparr>world := w\<rparr>))
            | None \<Rightarrow>
                rbind (doResponse (set_status 200 ''Too Frequency'' response)) (\<lambda>outs. Inr (outs, response, v)))
       | None \<Rightarrow> rbind (doResponse (set_status 404 ''NotFound'' response)) (\<lambda>outs. Inr (outs, response, v)))
     (\<lambda>(outs, response, v). Inr (outs @ (if closeConnection response then [HttpClose] else []), v)))"

text \<open>\<^verbatim>\<open>onMessage\<close> parses once and serves at most one request.\<close>

definition bad_request :: string where
  "bad_request = ''HTTP/1.1 400 Bad Request'' @ kCRLF @ kCRLF"

definition http_onMessage :: "(real \<Rightarrow> real) \<Rightarrow> HttpContext \<Rightarrow> Buffer \<Rightarrow> 'w HttpServer \<Rightarrow>
    (http_out list \<times> HttpContext \<times> Buffer \<times> 'w HttpServer) result option" where
  "http_onMessage fl c b v = (case parseRequest c b of
     None \<Rightarrow> None
   | Some (Inl e) \<Rightarrow> Some (Inl e)
   | Some (Inr (ok, c, b)) \<Rightarrow> Some (
       rbind (if ok then Inr [] else rbind (append_cstr bad_request (mkBuffer kInitialSize)) (\<lambda>rb. Inr [HttpSend (content rb)])) (\<lambda>outs.
       if gotAll c then rbind (onRequest fl (ctx_request c) v) (\<lambda>(outs', v). Inr (outs @ outs', ctx_reset c, b, v))
       else Inr (outs, c, b, v))))"

subsection \<open>Responses\<close>

text \<open>The text of a response, and that this is what is sent.\<close>

definition response_text :: "HttpResponse \<Rightarrow> string" where
  "response_text r = ''HTTP/1.1 '' @ dec_of_nat (statusCode r) @ '' '' @ statusMessage r @ kCRLF
     @ (if closeConnection r then ''Connection: close'' @ kCRLF
        else ''Content-Length: '' @ dec_of_nat (length (resp_body r)) @ kCRLF @ ''Connection: Keep-Alive'' @ kCRLF)
     @ concat (header_pieces (resp_headers r)) @ kCRLF @ resp_body r"

lemma append_pieces_Inr:
  "buf_inv b \<Longrightarrow> \<exists>b'. append_pieces ps b = Inr b' \<and> buf_inv b' \<and> content b' = content b @ concat ps"
  using bq.append_all_spec [of b ps] by (simp add: append_pieces_def)

lemma doResponse_text:
  assumes "statusCode r < 1000" "length (resp_body r) < 10 ^ 13"
  shows "doResponse r = Inr [HttpSend (response_text r)]"
proof -
  have a: "take 31 (''HTTP/1.1 '' @ dec_of_nat (statusCode r) @ '' '') = ''HTTP/1.1 '' @ dec_of_nat (statusCode r) @ '' ''"
    using length_dec_of_nat [of "statusCode r" 3] assms(1) by simp
  have c: "take 31 (''Content-Length: '' @ dec_of_nat (length (resp_body r)) @ kCRLF)
      = ''Content-Length: '' @ dec_of_nat (length (resp_body r)) @ kCRLF"
    using length_dec_of_nat [of "length (resp_body r)" 13] assms(2) by (simp add: kCRLF_def)
  have "\<exists>b. response_appendToBuffer r (mkBuffer kInitialSize) = Inr b \<and> content b = response_text r"
    unfolding response_appendToBuffer_def a c using append_pieces_Inr [of "mkBuffer kInitialSize"]
    by (fastforce simp: response_text_def)
  then show ?thesis by (auto simp: doResponse_def)
qed

subsection \<open>One request per read\<close>

lemma onRequest_unknown:
  assumes "map_of (handlers v) (req_path req) = None"
  shows "onRequest fl req v = Inr (HttpSend (response_text (set_status 404 ''NotFound'' (mkHttpResponse (wants_close req))))
    # (if wants_close req then [HttpClose] else []), v)"
  using assms doResponse_text [of "set_status 404 ''NotFound'' (mkHttpResponse (wants_close req))"]
  by (simp add: onRequest_def set_status_def mkHttpResponse_def)

lemma onRequest_refused:
  assumes "map_of (handlers v) (req_path req) = Some cb" "limit (limiter v) \<le> inFlight (limiter v)"
  shows "onRequest fl req v = Inr (HttpSend (response_text (set_status 200 ''Too Frequency'' (mkHttpResponse (wants_close req))))
    # (if wants_close req then [HttpClose] else []), v)"
  using assms doResponse_text [of "set_status 200 ''Too Frequency'' (mkHttpResponse (wants_close req))"]
  by (simp add: onRequest_def set_status_def mkHttpResponse_def Allow_cases)

lemma onRequest_served:
  assumes "map_of (handlers v) (req_path req) = Some cb" "inFlight (limiter v) < limit (limiter v)"
    "cb req (mkHttpResponse (wants_close req)) (world v) = Inr (outs, r, w)" "\<not> resp_delay r" "length (resp_body r) < 10 ^ 13"
  shows "onRequest fl req v = Inr (outs @ HttpSend (response_text (set_status 200 ''OK'' r)) # (if closeConnection r then [HttpClose] else []),
    v\<lparr>limiter := (limiter v)\<lparr>inFlight := inFlight (limiter v) + 1\<rparr>, world := w\<rparr>)"
  using assms doResponse_text [of "set_status 200 ''OK'' r"]
  by (simp add: onRequest_def set_status_def Allow_cases)



end
