(* ===== verification/GateModel.thy ===== *)
theory GateModel
  imports Prelude "HOL-Library.AList"
begin

text \<open>
  The gate server's tables and handlers (\<^verbatim>\<open>src/gateserver/GateServer.cc\<close>, \<^verbatim>\<open>GateServiceImpl.cc\<close>,
  \<^verbatim>\<open>UserSession.h\<close>, \<^verbatim>\<open>LogicRpcClient.cc\<close>).

  A session is named by the number the listening server gave it; what the class \<^verbatim>\<open>UserSession\<close> adds is
  kept per session in \<open>users\<close>. The hash tables \<^verbatim>\<open>channels_\<close> and \<^verbatim>\<open>rooms_\<close> are association lists, whose order
  stands for the unspecified iteration order of the container. What the handlers send, to clients and
  to the logic server, are the outputs they return.
\<close>

subsection \<open>State\<close>

record UserSession =
  user_key :: string
  user_mid :: "32 word option"    \<comment> \<open>\<open>None\<close>: \<^verbatim>\<open>mid_\<close> has no initialiser\<close>
  user_room :: string

definition mkUserSession :: UserSession where
  "mkUserSession = \<lparr>user_key = [], user_mid = None, user_room = []\<rparr>"

record GateServer =
  serverid :: string
  logic_connected :: bool         \<comment> \<open>the RPC channel to the logic server has a session\<close>
  users :: "nat \<Rightarrow> UserSession"
  channels :: "(string \<times> nat) list"
  rooms :: "(string \<times> nat list) list"

definition mkGateServer :: "string \<Rightarrow> GateServer" where
  "mkGateServer sid = \<lparr>serverid = sid, logic_connected = False, users = (\<lambda>s. mkUserSession), channels = [], rooms = []\<rparr>"

text \<open>\<^verbatim>\<open>LogicRpcClient::onConnection\<close>\<close>

definition logic_onConnection :: "GateServer \<Rightarrow> GateServer" where
  "logic_onConnection g = g\<lparr>logic_connected := True\<rparr>"

datatype gate_out =
    LogicConnect string string nat                       \<comment> \<open>server, token, session bound into the closure\<close>
  | LogicHeartbeat string "32 word option" string nat    \<comment> \<open>server, mid, key, session\<close>
  | LogicDisconnect string "32 word option" string       \<comment> \<open>server, mid, key\<close>
  | ClientSend nat "32 word" "32 word" string            \<comment> \<open>session, operation, sequence number, body\<close>

record Proto =
  proto_op :: "32 word"
  proto_seq :: "32 word"
  proto_body :: string

record ConnectReply =
  reply_mid :: "64 word"
  reply_key :: string
  reply_room :: string

subsection \<open>Handlers\<close>

text \<open>A call on the stub goes through the channel, which dereferences its session.\<close>

definition logic_call :: "gate_out \<Rightarrow> GateServer \<Rightarrow> (gate_out list \<times> GateServer) result" where
  "logic_call out g = (if logic_connected g then Inr ([out], g) else Inl NullDereference)"

definition onClientMessageCallback :: "nat \<Rightarrow> 32 word \<Rightarrow> 32 word \<Rightarrow> string \<Rightarrow> GateServer \<Rightarrow> (gate_out list \<times> GateServer) result" where
  "onClientMessageCallback session op i body g =
     (if op = 7 then logic_call (LogicConnect (serverid g) body session) g
      else if op = 2 then
        logic_call (LogicHeartbeat (serverid g) (user_mid (users g session)) (user_key (users g session)) session) g
      else Inr ([ClientSend session 1 1 ''test''], g))"

text \<open>\<^verbatim>\<open>channels_.insert({key, session})\<close> keeps an existing entry; \<^verbatim>\<open>rooms_[roomid].insert(session)\<close>.\<close>

definition channel_insert :: "string \<Rightarrow> nat \<Rightarrow> (string \<times> nat) list \<Rightarrow> (string \<times> nat) list" where
  "channel_insert k s cs = (if map_of cs k = None then cs @ [(k, s)] else cs)"

definition room_insert :: "string \<Rightarrow> nat \<Rightarrow> (string \<times> nat list) list \<Rightarrow> (string \<times> nat list) list" where
  "room_insert r s rs = (case map_of rs r of
     None \<Rightarrow> rs @ [(r, [s])]
   | Some ss \<Rightarrow> AList.update r (List.insert s ss) rs)"

definition room_erase :: "string \<Rightarrow> nat \<Rightarrow> (string \<times> nat list) list \<Rightarrow> (string \<times> nat list) list" where
  "room_erase r s rs = (case map_of rs r of None \<Rightarrow> rs | Some ss \<Rightarrow> AList.update r (removeAll s ss) rs)"

definition HandleConnect :: "ConnectReply \<Rightarrow> nat \<Rightarrow> GateServer \<Rightarrow> gate_out list \<times> GateServer" where
  "HandleConnect response session g = (
     let g = g\<lparr>users := (users g)(session := \<lparr>user_key = reply_key response,
                user_mid = Some (ucast (reply_mid response)), user_room = reply_room response\<rparr>)\<rparr>;
         g = g\<lparr>channels := channel_insert (reply_key response) session (channels g)\<rparr>;
         g = g\<lparr>rooms := room_insert (reply_room response) session (rooms g)\<rparr>
     in ([ClientSend session 8 0 ''success''], g))"

definition HandleHeartbeat :: "nat \<Rightarrow> GateServer \<Rightarrow> gate_out list \<times> GateServer" where
  "HandleHeartbeat session g = ([], g)"

definition HandleDisconnect :: "nat \<Rightarrow> GateServer \<Rightarrow> (gate_out list \<times> GateServer) result" where
  "HandleDisconnect session g = (let u = users g session in
     rbind (logic_call (LogicDisconnect (serverid g) (user_mid u) (user_key u)) g) (\<lambda>(outs, g).
     Inr (outs, g\<lparr>channels := AList.delete (user_key u) (channels g),
                  rooms := room_erase (user_room u) session (rooms g)\<rparr>)))"

definition SendToClient :: "string \<Rightarrow> Proto \<Rightarrow> GateServer \<Rightarrow> gate_out list" where
  "SendToClient k msg g = (case map_of (channels g) k of
     None \<Rightarrow> []
   | Some session \<Rightarrow> [ClientSend session (proto_op msg) (proto_seq msg) (proto_body msg)])"

definition SendToRoom :: "string \<Rightarrow> Proto \<Rightarrow> GateServer \<Rightarrow> gate_out list" where
  "SendToRoom r msg g = (case map_of (rooms g) r of
     None \<Rightarrow> []
   | Some sessions \<Rightarrow> map (\<lambda>s. ClientSend s (proto_op msg) (proto_seq msg) (proto_body msg)) sessions)"

definition BroadCast :: "Proto \<Rightarrow> GateServer \<Rightarrow> gate_out list" where
  "BroadCast msg g = map (\<lambda>(k, s). ClientSend s (proto_op msg) (proto_seq msg) (proto_body msg)) (channels g)"

text \<open>The RPC service of the gate; each handler then runs its closure, which answers with an empty reply.\<close>

definition PushMsg :: "string list \<Rightarrow> Proto \<Rightarrow> GateServer \<Rightarrow> gate_out list" where
  "PushMsg keys msg g = concat (map (\<lambda>k. SendToClient k msg g) keys)"

definition Broadcast :: "Proto \<Rightarrow> GateServer \<Rightarrow> gate_out list" where
  "Broadcast msg g = BroadCast msg g"

definition BroadcastRoom :: "string \<Rightarrow> Proto \<Rightarrow> GateServer \<Rightarrow> gate_out list" where
  "BroadcastRoom r msg g = SendToRoom r msg g"

subsection \<open>Table lemmas\<close>

lemma map_of_channel_insert: "map_of (channel_insert k s cs) = (if map_of cs k = None then (map_of cs)(k \<mapsto> s) else map_of cs)"
  by (auto simp: channel_insert_def map_add_def fun_eq_iff split: option.splits)

lemma distinct_channel_insert: "distinct (map fst cs) \<Longrightarrow> distinct (map fst (channel_insert k s cs))"
  by (auto simp: channel_insert_def map_of_eq_None_iff)

lemma map_of_snoc: "map_of xs r = None \<Longrightarrow> map_of (xs @ [(r, v)]) q = (if q = r then Some v else map_of xs q)"
  by (auto simp: map_add_def split: option.splits)

lemma map_of_room_insert:
  "map_of (room_insert r s rs) q = (if q = r then Some (case map_of rs r of None \<Rightarrow> [s] | Some ss \<Rightarrow> List.insert s ss) else map_of rs q)"
  by (cases "map_of rs r") (auto simp: room_insert_def map_of_snoc update_conv' simp del: map_of_append)

lemma map_of_room_erase:
  "map_of (room_erase r s rs) q = (if q = r then map_option (removeAll s) (map_of rs r) else map_of rs q)"
  by (cases "map_of rs r") (auto simp: room_erase_def update_conv')

subsection \<open>Who is online\<close>

text \<open>The specification: the sessions that are online with the key and the room they have, and the sessions
  that have left.\<close>

record presence =
  online :: "nat \<Rightarrow> (string \<times> string) option"
  left :: "nat set"

datatype gate_ev = Authenticated nat ConnectReply | Left nat

fun presence_step :: "gate_ev \<Rightarrow> presence \<Rightarrow> presence" where
  "presence_step (Authenticated s reply) p = p\<lparr>online := (online p)(s \<mapsto> (reply_key reply, reply_room reply))\<rparr>"
| "presence_step (Left s) p = p\<lparr>online := (online p)(s := None), left := insert s (left p)\<rparr>"

text \<open>What the other components see to: a session is authenticated once and before it leaves, with a
  non-empty key nobody else online has, and leaves once.\<close>

fun proper :: "gate_ev \<Rightarrow> presence \<Rightarrow> bool" where
  "proper (Authenticated s reply) p \<longleftrightarrow> online p s = None \<and> s \<notin> left p \<and> reply_key reply \<noteq> [] \<and>
     (\<forall>t k r. online p t = Some (k, r) \<longrightarrow> k \<noteq> reply_key reply)"
| "proper (Left s) p \<longleftrightarrow> s \<notin> left p"

fun proper_run :: "gate_ev list \<Rightarrow> presence \<Rightarrow> bool" where
  "proper_run [] p \<longleftrightarrow> True"
| "proper_run (e # es) p \<longleftrightarrow> proper e p \<and> proper_run es (presence_step e p)"

fun gate_step :: "gate_ev \<Rightarrow> GateServer \<Rightarrow> GateServer result" where
  "gate_step (Authenticated s reply) g = Inr (snd (HandleConnect reply s g))"
| "gate_step (Left s) g = rbind (HandleDisconnect s g) (\<lambda>(outs, g). Inr g)"

fun gate_run :: "gate_ev list \<Rightarrow> GateServer \<Rightarrow> GateServer result" where
  "gate_run [] g = Inr g"
| "gate_run (e # es) g = rbind (gate_step e g) (gate_run es)"

definition in_room :: "GateServer \<Rightarrow> string \<Rightarrow> nat list" where
  "in_room g r = (case map_of (rooms g) r of None \<Rightarrow> [] | Some ss \<Rightarrow> ss)"

definition gate_rel :: "presence \<Rightarrow> GateServer \<Rightarrow> bool" where
  "gate_rel p g \<longleftrightarrow> logic_connected g \<and> distinct (map fst (channels g)) \<and>
     (\<forall>k s. map_of (channels g) k = Some s \<longleftrightarrow> (\<exists>r. online p s = Some (k, r))) \<and>
     (\<forall>r. distinct (in_room g r)) \<and>
     (\<forall>r s. s \<in> set (in_room g r) \<longleftrightarrow> (\<exists>k. online p s = Some (k, r))) \<and>
     (\<forall>s k r. online p s = Some (k, r) \<longrightarrow> user_key (users g s) = k \<and> user_room (users g s) = r \<and> k \<noteq> [] \<and> s \<notin> left p) \<and>
     (\<forall>s. online p s = None \<and> s \<notin> left p \<longrightarrow> user_key (users g s) = [] \<and> user_room (users g s) = [])"

definition nobody :: presence where
  "nobody = \<lparr>online = Map.empty, left = {}\<rparr>"

lemma gate_rel_fresh: "gate_rel nobody (logic_onConnection (mkGateServer sid))"
  by (simp add: gate_rel_def nobody_def logic_onConnection_def mkGateServer_def mkUserSession_def in_room_def)

lemma in_room_HandleConnect:
  "in_room (snd (HandleConnect reply s g)) r = (if r = reply_room reply then List.insert s (in_room g r) else in_room g r)"
  by (auto simp: in_room_def HandleConnect_def Let_def map_of_room_insert split: option.splits)

lemma connect_rel:
  assumes "gate_rel p g" "proper (Authenticated s reply) p"
  shows "gate_rel (presence_step (Authenticated s reply) p) (snd (HandleConnect reply s g))"
proof -
  let ?g = "snd (HandleConnect reply s g)" and ?p = "presence_step (Authenticated s reply) p"
  let ?k = "reply_key reply" and ?r = "reply_room reply"
  have new: "online p s = None" "s \<notin> left p" "?k \<noteq> []" and other: "\<And>t k r. online p t = Some (k, r) \<Longrightarrow> k \<noteq> ?k"
    using assms(2) by auto
  have free: "map_of (channels g) ?k = None"
    using assms(1) other unfolding gate_rel_def by (metis not_None_eq)
  have ch: "map_of (channels ?g) k = Some t \<longleftrightarrow> (\<exists>r. online ?p t = Some (k, r))" for k t
    using assms(1) new(1) other free by (auto simp: gate_rel_def HandleConnect_def Let_def map_of_channel_insert)
  have dist: "distinct (map fst (channels ?g))"
    using assms(1) distinct_channel_insert by (auto simp: gate_rel_def HandleConnect_def Let_def)
  have rm: "t \<in> set (in_room ?g r) \<longleftrightarrow> (\<exists>k. online ?p t = Some (k, r))" for r t
    using assms(1) new(1) by (auto simp: gate_rel_def in_room_HandleConnect)
  have drm: "distinct (in_room ?g r)" for r
    using assms(1) by (simp add: gate_rel_def in_room_HandleConnect)
  show ?thesis using assms(1) new ch dist rm drm
    by (auto simp: gate_rel_def HandleConnect_def Let_def split: if_splits)
qed

lemma in_room_erase:
  "in_room (g\<lparr>channels := cs, rooms := room_erase q s (rooms g)\<rparr>) r = (if r = q then removeAll s (in_room g r) else in_room g r)"
  by (auto simp: in_room_def map_of_room_erase split: option.splits)

lemma disconnect_rel:
  assumes "gate_rel p g" "s \<notin> left p"
  shows "\<exists>outs g'. HandleDisconnect s g = Inr (outs, g') \<and> gate_rel (presence_step (Left s) p) g'"
proof -
  let ?u = "users g s" and ?p = "presence_step (Left s) p"
  define g' where "g' = g\<lparr>channels := AList.delete (user_key ?u) (channels g), rooms := room_erase (user_room ?u) s (rooms g)\<rparr>"
  have lc: "logic_connected g" using assms(1) by (simp add: gate_rel_def)
  have who: "online p s = Some (user_key ?u, user_room ?u) \<and> user_key ?u \<noteq> [] \<or> online p s = None \<and> user_key ?u = [] \<and> user_room ?u = []"
    using assms by (cases "online p s") (auto simp: gate_rel_def)
  have uniq: "online p t = Some (k, r) \<Longrightarrow> online p s = Some (k, r') \<Longrightarrow> t = s" for t k r r'
    using assms(1) unfolding gate_rel_def by (metis option.inject)
  have ne: "online p t = Some (k, r) \<Longrightarrow> k \<noteq> []" for t k r using assms(1) by (auto simp: gate_rel_def)
  have ch: "map_of (channels g') k = Some t \<longleftrightarrow> (\<exists>r. online ?p t = Some (k, r))" for k t
  proof -
    have "map_of (channels g') k = Some t \<longleftrightarrow> k \<noteq> user_key ?u \<and> (\<exists>r. online p t = Some (k, r))"
      using assms(1) by (simp add: g'_def delete_conv' gate_rel_def)
    also have "\<dots> \<longleftrightarrow> t \<noteq> s \<and> (\<exists>r. online p t = Some (k, r))"
      using who uniq ne by (metis option.distinct(1) option.inject prod.inject)
    finally show ?thesis by auto
  qed
  have old: "t \<in> set (in_room g r) \<longleftrightarrow> (\<exists>k. online p t = Some (k, r))" "distinct (in_room g r)" for r t
    using assms(1) unfolding gate_rel_def by blast+
  have rm: "t \<in> set (in_room g' r) \<longleftrightarrow> (\<exists>k. online ?p t = Some (k, r))" for r t
  proof (cases "t = s")
    case True
    then show ?thesis using who old(1) [of s r] by (auto simp: g'_def in_room_erase)
  next
    case False
    then show ?thesis using old(1) [of t r] by (auto simp: g'_def in_room_erase)
  qed
  have usr: "users g' = users g" by (simp add: g'_def)
  have drm: "distinct (in_room g' r)" for r
    using old(2) [of r] by (auto simp: g'_def in_room_erase distinct_removeAll)
  have dch: "distinct (map fst (channels g'))"
    using assms(1) by (simp add: g'_def gate_rel_def distinct_delete)
  have on: "user_key (users g t) = k \<and> user_room (users g t) = r \<and> k \<noteq> [] \<and> t \<notin> left ?p"
    if "online ?p t = Some (k, r)" for t k r
    using assms(1) that unfolding gate_rel_def by (simp split: if_splits)
  have off: "user_key (users g t) = [] \<and> user_room (users g t) = []" if "online ?p t = None" "t \<notin> left ?p" for t
    using assms(1) that unfolding gate_rel_def by (simp split: if_splits)
  have lc': "logic_connected g'" using lc by (simp add: g'_def)
  have "gate_rel ?p g'" unfolding gate_rel_def usr using ch rm drm dch on off lc' by blast
  then show ?thesis using lc by (simp add: HandleDisconnect_def logic_call_def g'_def Let_def)
qed

lemma gate_run_rel:
  assumes "gate_rel p g" "proper_run es p"
  shows "\<exists>g'. gate_run es g = Inr g' \<and> gate_rel (fold presence_step es p) g'"
  using assms
proof (induction es arbitrary: p g)
  case Nil
  then show ?case by simp
next
  case (Cons e es)
  have "\<exists>g1. gate_step e g = Inr g1 \<and> gate_rel (presence_step e p) g1"
    using connect_rel [OF Cons.prems(1)] disconnect_rel [OF Cons.prems(1)] Cons.prems(2)
    by (cases e) (auto simp: result_simps, fastforce)
  then show ?case using Cons.IH Cons.prems(2) by auto
qed

subsection \<open>Delivery\<close>

text \<open>What a client of the gate's RPC service relies on: each message goes to the sessions that are online
  under the key, in the room or at all, and to each of them once.\<close>

definition to_client :: "Proto \<Rightarrow> nat \<Rightarrow> gate_out" where
  "to_client msg s = ClientSend s (proto_op msg) (proto_seq msg) (proto_body msg)"

definition with_key :: "presence \<Rightarrow> string \<Rightarrow> nat set" where
  "with_key p k = {s. \<exists>r. online p s = Some (k, r)}"

definition within_room :: "presence \<Rightarrow> string \<Rightarrow> nat set" where
  "within_room p r = {s. \<exists>k. online p s = Some (k, r)}"

locale gate_service =
  fixes rel :: "presence \<Rightarrow> 'g \<Rightarrow> bool"
    and push :: "string list \<Rightarrow> Proto \<Rightarrow> 'g \<Rightarrow> gate_out list"
    and room_cast :: "string \<Rightarrow> Proto \<Rightarrow> 'g \<Rightarrow> gate_out list"
    and cast_all :: "Proto \<Rightarrow> 'g \<Rightarrow> gate_out list"
  assumes push_nil: "push [] msg g = []"
    and push_cons: "push (k # ks) msg g = push [k] msg g @ push ks msg g"
    and push_one: "rel p g \<Longrightarrow> set (push [k] msg g) = to_client msg ` with_key p k \<and> distinct (push [k] msg g)"
    and room_spec: "rel p g \<Longrightarrow> set (room_cast r msg g) = to_client msg ` within_room p r \<and> distinct (room_cast r msg g)"
    and cast_spec: "rel p g \<Longrightarrow> set (cast_all msg g) = to_client msg ` dom (online p) \<and> distinct (cast_all msg g)"
begin

lemma push_set:
  assumes "rel p g"
  shows "set (push ks msg g) = to_client msg ` (\<Union>k \<in> set ks. with_key p k)"
proof (induction ks)
  case Nil
  then show ?case by (simp add: push_nil)
next
  case (Cons k ks)
  have "set (push (k # ks) msg g) = set (push [k] msg g) \<union> set (push ks msg g)" by (subst push_cons) simp
  then show ?case using push_one [OF assms, of k msg] Cons by (simp add: image_Un)
qed

end

lemma inj_to_client: "inj (to_client msg)"
  by (auto simp: inj_def to_client_def)

lemma channels_online:
  assumes "gate_rel p g"
  shows "snd ` set (channels g) = dom (online p)" "distinct (map snd (channels g))"
proof -
  have d: "distinct (map fst (channels g))" and m: "map_of (channels g) k = Some s \<longleftrightarrow> (\<exists>r. online p s = Some (k, r))" for k s
    using assms by (simp_all add: gate_rel_def)
  have mem: "(k, s) \<in> set (channels g) \<longleftrightarrow> (\<exists>r. online p s = Some (k, r))" for k s
    using m [of k s] map_of_eq_Some_iff [OF d] by simp
  show "snd ` set (channels g) = dom (online p)"
  proof (rule set_eqI)
    fix s
    have "s \<in> snd ` set (channels g) \<longleftrightarrow> (\<exists>k. (k, s) \<in> set (channels g))" by (force simp: image_iff)
    also have "\<dots> \<longleftrightarrow> s \<in> dom (online p)" unfolding mem dom_def by auto
    finally show "s \<in> snd ` set (channels g) \<longleftrightarrow> s \<in> dom (online p)" .
  qed
  have "k = k'" if "(k, s) \<in> set (channels g)" "(k', s) \<in> set (channels g)" for k k' s
    using that unfolding mem by auto
  then have "inj_on snd (set (channels g))" by (auto simp: inj_on_def)
  then show "distinct (map snd (channels g))" using d by (simp add: distinct_map)
qed

lemma BroadCast_spec:
  assumes "gate_rel p g"
  shows "set (BroadCast msg g) = to_client msg ` dom (online p) \<and> distinct (BroadCast msg g)"
proof -
  let ?ss = "map snd (channels g)"
  have eq: "BroadCast msg g = map (to_client msg) ?ss"
    by (simp add: BroadCast_def to_client_def split_def)
  have "set ?ss = dom (online p)" using channels_online(1) [OF assms] by simp
  moreover have "distinct (map (to_client msg) ?ss)"
    using channels_online(2) [OF assms] inj_on_subset [OF inj_to_client, of "set ?ss" msg] unfolding distinct_map by blast
  ultimately show ?thesis unfolding eq set_map by simp
qed

lemma SendToRoom_spec:
  assumes "gate_rel p g"
  shows "set (SendToRoom r msg g) = to_client msg ` within_room p r \<and> distinct (SendToRoom r msg g)"
proof -
  have "SendToRoom r msg g = map (to_client msg) (in_room g r)"
    by (auto simp: SendToRoom_def in_room_def to_client_def split: option.splits)
  moreover have "set (in_room g r) = within_room p r" "distinct (in_room g r)"
    using assms by (auto simp: gate_rel_def within_room_def)
  ultimately show ?thesis by (simp add: distinct_map inj_on_subset [OF inj_to_client])
qed

lemma SendToClient_spec:
  assumes "gate_rel p g"
  shows "set (SendToClient k msg g) = to_client msg ` with_key p k \<and> distinct (SendToClient k msg g)"
proof -
  have "map_of (channels g) k = Some s \<longleftrightarrow> s \<in> with_key p k" for s
    using assms by (simp add: gate_rel_def with_key_def)
  then have "with_key p k = set_option (map_of (channels g) k)" by (auto simp: set_eq_iff)
  then show ?thesis by (auto simp: SendToClient_def to_client_def split: option.splits)
qed

interpretation gate: gate_service gate_rel PushMsg BroadcastRoom Broadcast
  by unfold_locales
    (use SendToClient_spec SendToRoom_spec BroadCast_spec in \<open>simp_all add: PushMsg_def BroadcastRoom_def Broadcast_def\<close>)



subsection \<open>Histories the gate does not exclude\<close>

text \<open>The logic server answers a token it cannot parse with an empty reply.\<close>

definition empty_reply :: ConnectReply where
  "empty_reply = \<lparr>reply_mid = 0, reply_key = [], reply_room = []\<rparr>"

text \<open>C26: a client whose token is refused (the reply is empty) is told \<^verbatim>\<open>success\<close>, and from then on
  receives every broadcast and every message to the room with the empty name.\<close>

theorem refused_client_is_served:
  assumes "gate_rel p g" "online p s = None" "s \<notin> left p"
  shows "\<exists>g'. HandleConnect empty_reply s g = ([ClientSend s 8 0 ''success''], g') \<and>
    (\<forall>msg. to_client msg s \<in> set (Broadcast msg g') \<and> to_client msg s \<in> set (BroadcastRoom [] msg g'))"
proof -
  let ?g = "snd (HandleConnect empty_reply s g)"
  have "map_of (channels g) [] = None"
  proof (rule ccontr)
    assume "map_of (channels g) [] \<noteq> None"
    then obtain t where "map_of (channels g) [] = Some t" by auto
    then obtain r where "online p t = Some ([], r)" using assms(1) unfolding gate_rel_def by blast
    then show False using assms(1) unfolding gate_rel_def by blast
  qed
  then have "([], s) \<in> set (channels ?g)"
    by (simp add: HandleConnect_def empty_reply_def channel_insert_def Let_def)
  then have "to_client msg s \<in> set (Broadcast msg ?g)" for msg
    by (auto simp: Broadcast_def BroadCast_def to_client_def intro!: image_eqI [where x = "([], s)"])
  moreover have "s \<in> set (in_room ?g [])" by (simp add: in_room_HandleConnect empty_reply_def)
  then have "to_client msg s \<in> set (BroadcastRoom [] msg ?g)" for msg
    by (auto simp: BroadcastRoom_def SendToRoom_def in_room_def to_client_def split: option.splits)
  ultimately show ?thesis
    by (intro exI [of _ ?g]) (simp add: HandleConnect_def Let_def)
qed

theorem refused_client_is_served_witness:
  "\<exists>g'. HandleConnect empty_reply 3 (logic_onConnection (mkGateServer ''g'')) = ([ClientSend 3 8 0 ''success''], g') \<and>
    to_client \<lparr>proto_op = 9, proto_seq = 0, proto_body = ''secret''\<rparr> 3
      \<in> set (Broadcast \<lparr>proto_op = 9, proto_seq = 0, proto_body = ''secret''\<rparr> g')"
  using refused_client_is_served [OF gate_rel_fresh, of 3 "''g''"] by (fastforce simp: nobody_def)



text \<open>Before the channel to the logic server is up, authentication and heartbeat dereference a null session.\<close>

lemma message_before_logic_connected:
  "op = 7 \<or> op = 2 \<Longrightarrow> onClientMessageCallback s op i body (mkGateServer sid) = Inl NullDereference"
  by (auto simp: onClientMessageCallback_def logic_call_def mkGateServer_def)

end
