(* ===== verification/LogicModel.thy ===== *)
theory LogicModel
  imports RedisStore JsonAccess HttpServerModel GateModel
begin

text \<open>
  The logic server (\<^verbatim>\<open>src/logicserver/LogicServer.cc\<close>, \<^verbatim>\<open>LogicServiceImpl.cc\<close>, \<^verbatim>\<open>KafkaProducer.h\<close>, \<^verbatim>\<open>KafkaProducer.cc\<close>).

  The state is the part of \<^verbatim>\<open>LogicServer\<close> and of its service object that the handlers change: the two Redis clients, and the static
  variables of \<^verbatim>\<open>generateKey\<close>. The clock is a parameter, the sequence of its readings, of which the state counts how many have been taken.
  What goes to Kafka are the records the operations return; \<open>ser\<close> is \<^verbatim>\<open>SerializeAsString\<close>, and \<open>ord\<close> gives the order in which an
  \<^verbatim>\<open>unordered_map\<close> is iterated, as a function on the list of its keys.
\<close>

subsection \<open>Messages\<close>

datatype push_type = PUSH | ROOM | BROADCAST | OtherType "32 word"    \<comment> \<open>an enumeration field holds any number\<close>

record push_msg =
  push_type :: push_type
  push_operation :: "32 word"
  push_speed :: "32 word"
  push_server :: string
  push_room :: string
  push_keys :: "string list"
  push_body :: string

definition mk_push_msg :: push_msg where
  "mk_push_msg = \<lparr>push_type = PUSH, push_operation = 0, push_speed = 0, push_server = [], push_room = [], push_keys = [], push_body = []\<rparr>"

text \<open>A record handed to the producer; the opaque pointer is the callback, by number.\<close>

record kafka_record =
  kafka_topic :: string
  kafka_payload :: string
  kafka_opaque :: "nat option"

record KafkaProducer =
  producer_topic :: string
  producer_created :: bool

text \<open>The key is not used; the error code of the library is dropped.\<close>

definition Produce :: "KafkaProducer \<Rightarrow> string \<Rightarrow> string \<Rightarrow> nat option \<Rightarrow> kafka_record list result" where
  "Produce p k v cb = (if producer_created p then Inr [\<lparr>kafka_topic = producer_topic p, kafka_payload = v, kafka_opaque = cb\<rparr>] else Inl NullDereference)"

text \<open>\<^verbatim>\<open>dr_cb\<close>: the callbacks that have been deleted are kept; the result is the callback that is run.\<close>

definition dr_cb :: "nat option \<Rightarrow> nat set \<Rightarrow> (nat list \<times> nat set) result" where
  "dr_cb opaque freed = (case opaque of
     None \<Rightarrow> Inr ([], freed)
   | Some cb \<Rightarrow> if cb \<in> freed then Inl UseAfterFree else Inr ([cb], insert cb freed))"

fun deliver_reports :: "kafka_record list \<Rightarrow> nat set \<Rightarrow> (nat list \<times> nat set) result" where
  "deliver_reports [] freed = Inr ([], freed)"
| "deliver_reports (r # rs) freed = rbind (dr_cb (kafka_opaque r) freed) (\<lambda>(ran1, freed).
     rbind (deliver_reports rs freed) (\<lambda>(ran2, freed). Inr (ran1 @ ran2, freed)))"

subsection \<open>The server\<close>

record 'c LogicServer =
  logic_serverid :: "32 word"
  lastTimestamp :: "64 word option"     \<comment> \<open>a static variable: set by the first call\<close>
  seqID :: "16 word"
  clock_pos :: nat
  push_redis :: "'c RedisClient"        \<comment> \<open>\<^verbatim>\<open>LogicServer::redisclient_\<close>\<close>
  service_redis :: "'c RedisClient"     \<comment> \<open>\<^verbatim>\<open>LogicServiceImpl::redisclient_\<close>\<close>
  kafkaproducer :: KafkaProducer

text \<open>The loop that waits for the next millisecond.\<close>

partial_function (option) wait_tick :: "(nat \<Rightarrow> 64 word) \<Rightarrow> 64 word \<Rightarrow> 64 word \<Rightarrow> nat \<Rightarrow> (64 word \<times> nat) option" where
  "wait_tick clock lastt timestamp pos = (if lastt = timestamp then wait_tick clock lastt (clock pos) (pos + 1) else Some (timestamp, pos))"

definition key_id :: "64 word \<Rightarrow> 32 word \<Rightarrow> 16 word \<Rightarrow> 64 word" where
  "key_id timestamp sid sq = (push_bit 22 (timestamp AND 0x3FFFFFFFFFF) OR ucast (push_bit 12 (sid AND 0x3FF))) OR ucast sq"

definition generateKey :: "(nat \<Rightarrow> 64 word) \<Rightarrow> 'c LogicServer \<Rightarrow> (string \<times> 'c LogicServer) option" where
  "generateKey clock s = (
     let (lastt, pos) = (case lastTimestamp s of None \<Rightarrow> (clock (clock_pos s), clock_pos s + 1) | Some t \<Rightarrow> (t, clock_pos s));
         timestamp = clock pos; pos = pos + 1 in
     case (if lastt = timestamp then
             (let sq = (seqID s + 1) AND 0xFFF in
              if sq = 0 then map_option (\<lambda>(t, pos). (sq, t, pos)) (wait_tick clock lastt timestamp pos) else Some (sq, timestamp, pos))
           else Some (0, timestamp, pos)) of
       None \<Rightarrow> None
     | Some (sq, timestamp, pos) \<Rightarrow>
         Some (dec_of_nat (unat (key_id timestamp (logic_serverid s) sq)), s\<lparr>lastTimestamp := Some timestamp, seqID := sq, clock_pos := pos\<rparr>))"

subsection \<open>The RPC service\<close>

definition keyMidServer :: "32 word \<Rightarrow> string" where
  "keyMidServer mid = ''mid_'' @ dec_of_int (sint mid)"

definition keyKeyServer :: "string \<Rightarrow> string" where
  "keyKeyServer key = ''key_'' @ key"

definition addServerMap :: "('c, 'w) hiredis \<Rightarrow> 32 word \<Rightarrow> string \<Rightarrow> string \<Rightarrow> 'c RedisClient \<times> 'w \<Rightarrow> ('c RedisClient \<times> 'w) result" where
  "addServerMap H mid key server rw = PipeLine H
     [''HSET '' @ keyMidServer mid @ '' '' @ key @ '' '' @ server,
      ''EXPIRE '' @ keyMidServer mid @ '' '' @ dec_of_nat (30 * 60),
      ''SET '' @ keyKeyServer key @ '' '' @ server,
      ''EXPIRE '' @ keyKeyServer key @ '' '' @ dec_of_nat (30 * 60)] rw"

record LogicReply = ConnectReply +
  reply_accepts :: "32 word list"

definition mk_reply :: LogicReply where
  "mk_reply = \<lparr>reply_mid = 0, reply_key = [], reply_room = [], reply_accepts = []\<rparr>"

text \<open>\<^verbatim>\<open>catch (std::exception&)\<close> catches the exceptions of the library; what is undefined or asserted is not caught.\<close>

definition catch_json :: "json_error \<Rightarrow> 'a \<Rightarrow> 'a result" where
  "catch_json ex x = (case ex of JsonAssertion \<Rightarrow> Inl AssertionFailed | JsonOverflow \<Rightarrow> Inl OutOfBounds | _ \<Rightarrow> Inr x)"

text \<open>\<^verbatim>\<open>Connect\<close>: an exception leaves what the reply has got so far. \<open>None\<close> is a call that waits for the clock for ever.\<close>

definition logic_Connect :: "('c, 'w) hiredis \<Rightarrow> (nat \<Rightarrow> 64 word) \<Rightarrow> string \<Rightarrow> string \<Rightarrow> 'c LogicServer \<Rightarrow> 'w \<Rightarrow>
    (LogicReply \<times> 'c LogicServer \<times> 'w) result option" where
  "logic_Connect H clock server token s w = (
     case json_parse token True of Inl ex \<Rightarrow> Some (catch_json ex (mk_reply, s, w)) | Inr j \<Rightarrow>
     case (case json_find ''mid'' j of
             Some v \<Rightarrow> if is_number v then jbind (get_int v) (\<lambda>mid. Inr (mk_reply\<lparr>reply_mid := scast mid\<rparr>)) else Inr mk_reply
           | None \<Rightarrow> Inr mk_reply) of Inl ex \<Rightarrow> Some (catch_json ex (mk_reply, s, w)) | Inr r1 \<Rightarrow>
     case jbind (json_index ''room_id'' j) (\<lambda>(v, j). jbind (get_string v) (\<lambda>room. Inr (room, j))) of
       Inl ex \<Rightarrow> Some (catch_json ex (r1, s, w)) | Inr (room, j) \<Rightarrow>
     let r2 = r1\<lparr>reply_room := room\<rparr> in
     case generateKey clock s of None \<Rightarrow> None | Some (key, s) \<Rightarrow>
     let r3 = r2\<lparr>reply_key := key\<rparr> in
     case jbind (json_index ''accepts'' j) (\<lambda>(v, j). jbind (get_ints v) (\<lambda>accepts. Inr (accepts, j))) of
       Inl ex \<Rightarrow> Some (catch_json ex (r3, s, w)) | Inr (accepts, j) \<Rightarrow>
     let r4 = r3\<lparr>reply_accepts := accepts\<rparr> in
     case jbind (json_index ''server'' j) (\<lambda>(_, j). jbind (json_index ''mid'' j) (\<lambda>(v, _). get_int v)) of
       Inl ex \<Rightarrow> Some (catch_json ex (r4, s, w)) | Inr mid \<Rightarrow>
     Some (rbind (addServerMap H mid key server (service_redis s, w)) (\<lambda>(r, w). Inr (r4, s\<lparr>service_redis := r\<rparr>, w))))"

definition logic_Heartbeat :: "('c, 'w) hiredis \<Rightarrow> 64 word \<Rightarrow> string \<Rightarrow> 'c LogicServer \<Rightarrow> 'w \<Rightarrow> ('c LogicServer \<times> 'w) result" where
  "logic_Heartbeat H mid key s w = rbind (PipeLine H
     [''EXPIRE '' @ keyMidServer (ucast mid) @ '' '' @ dec_of_nat (30 * 60), ''EXPIRE '' @ keyKeyServer key @ '' '' @ dec_of_nat (30 * 60)]
     (service_redis s, w)) (\<lambda>(r, w). Inr (s\<lparr>service_redis := r\<rparr>, w))"

definition logic_Disconnect :: "('c, 'w) hiredis \<Rightarrow> 64 word \<Rightarrow> string \<Rightarrow> 'c LogicServer \<Rightarrow> 'w \<Rightarrow> ('c LogicServer \<times> 'w) result" where
  "logic_Disconnect H mid key s w = rbind (PipeLine H
     [''HDEL '' @ keyMidServer (ucast mid) @ '' '' @ key, ''DEL '' @ keyKeyServer key] (service_redis s, w))
     (\<lambda>(r, w). Inr (s\<lparr>service_redis := r\<rparr>, w))"

subsection \<open>Pushing\<close>

definition logic_PushMsg :: "(push_msg \<Rightarrow> string) \<Rightarrow> string list \<Rightarrow> 32 word \<Rightarrow> string \<Rightarrow> string \<Rightarrow> nat option \<Rightarrow> KafkaProducer \<Rightarrow> kafka_record list result" where
  "logic_PushMsg ser keys op server msg cb p = (
     let m = mk_push_msg\<lparr>push_type := PUSH, push_operation := op, push_server := server, push_keys := keys, push_body := msg\<rparr> in
     case keys of [] \<Rightarrow> Inl OutOfBounds | k # _ \<Rightarrow> Produce p k (ser m) cb)"

definition PushMsgByRoom :: "(push_msg \<Rightarrow> string) \<Rightarrow> string \<Rightarrow> 32 word \<Rightarrow> string \<Rightarrow> KafkaProducer \<Rightarrow> kafka_record list result" where
  "PushMsgByRoom ser room op msg p =
     Produce p room (ser (mk_push_msg\<lparr>push_type := ROOM, push_room := room, push_operation := op, push_body := msg\<rparr>)) None"

definition PushMsgToAll :: "(push_msg \<Rightarrow> string) \<Rightarrow> 32 word \<Rightarrow> 32 word \<Rightarrow> string \<Rightarrow> KafkaProducer \<Rightarrow> kafka_record list result" where
  "PushMsgToAll ser speed op msg p =
     Produce p (dec_of_int (sint op)) (ser (mk_push_msg\<lparr>push_type := BROADCAST, push_operation := op, push_speed := speed, push_body := msg\<rparr>)) None"

text \<open>\<^verbatim>\<open>serverKeys[server].push_back(key)\<close>\<close>

definition server_push :: "string \<Rightarrow> string \<Rightarrow> (string \<times> string list) list \<Rightarrow> (string \<times> string list) list" where
  "server_push server key m = (case map_of m server of None \<Rightarrow> m @ [(server, [key])] | Some ks \<Rightarrow> AList.update server (ks @ [key]) m)"

text \<open>The loop over the servers.\<close>

fun push_servers :: "(push_msg \<Rightarrow> string) \<Rightarrow> (string \<times> string list) list \<Rightarrow> string list \<Rightarrow> 32 word \<Rightarrow> string \<Rightarrow> nat option \<Rightarrow> KafkaProducer \<Rightarrow>
    kafka_record list result" where
  "push_servers ser m [] op msg cb p = Inr []"
| "push_servers ser m (server # servers) op msg cb p =
     rbind (logic_PushMsg ser (the (map_of m server)) op server msg cb p) (\<lambda>out.
     rbind (push_servers ser m servers op msg cb p) (\<lambda>outs. Inr (out @ outs)))"

text \<open>The loop of \<^verbatim>\<open>PushMsgByKeys\<close> over the replies; \<open>cmd\<close> is what is left of the vector.\<close>

fun group_replies :: "string list \<Rightarrow> string list \<Rightarrow> (string \<times> string list) list \<Rightarrow> (string \<times> string list) list result" where
  "group_replies [] cmd m = Inr m"
| "group_replies (reply # replies) [] m = Inl OutOfBounds"
| "group_replies (reply # replies) (c # cmd) m = group_replies replies cmd (server_push reply c m)"

definition PushMsgByKeys :: "('c, 'w) hiredis \<Rightarrow> (push_msg \<Rightarrow> string) \<Rightarrow> (string list \<Rightarrow> string list) \<Rightarrow> string list \<Rightarrow> 32 word \<Rightarrow> string \<Rightarrow>
    'c LogicServer \<Rightarrow> 'w \<Rightarrow> (kafka_record list \<times> 'c LogicServer \<times> 'w) result" where
  "PushMsgByKeys H ser ord keys op msg s w = (
     let cmd = map keyKeyServer keys in
     rbind (MGet H cmd (push_redis s, w)) (\<lambda>(reply, r, w).
     rbind (group_replies reply cmd []) (\<lambda>serverKeys.
     rbind (push_servers ser serverKeys (ord (map fst serverKeys)) op msg None (kafkaproducer s)) (\<lambda>outs.
     Inr (outs, s\<lparr>push_redis := r\<rparr>, w)))))"

text \<open>The first loop of \<^verbatim>\<open>PushMsgByMids\<close>, which collects the keys of all users.\<close>

fun collect_mids :: "('c, 'w) hiredis \<Rightarrow> (string list \<Rightarrow> string list) \<Rightarrow> 32 word list \<Rightarrow> (string \<times> string) list \<Rightarrow> 'c RedisClient \<times> 'w \<Rightarrow>
    ((string \<times> string) list \<times> 'c RedisClient \<times> 'w) result" where
  "collect_mids H ord [] keyServer rw = Inr (keyServer, rw)"
| "collect_mids H ord (it # mids) keyServer rw = rbind (HGetAll H (keyMidServer it) rw) (\<lambda>(reply, rw).
     collect_mids H ord mids (fold (\<lambda>k m. AList.update k (the (map_of reply k)) m) (ord (map fst reply)) keyServer) rw)"

definition PushMsgByMids :: "('c, 'w) hiredis \<Rightarrow> (push_msg \<Rightarrow> string) \<Rightarrow> (string list \<Rightarrow> string list) \<Rightarrow> 32 word list \<Rightarrow> 32 word \<Rightarrow> string \<Rightarrow> nat option \<Rightarrow>
    'c LogicServer \<Rightarrow> 'w \<Rightarrow> (kafka_record list \<times> 'c LogicServer \<times> 'w) result" where
  "PushMsgByMids H ser ord mids op msg cb s w =
     rbind (collect_mids H ord mids [] (push_redis s, w)) (\<lambda>(keyServer, r, w).
     let serverKeys = fold (\<lambda>k m. server_push (the (map_of keyServer k)) k m) (ord (map fst keyServer)) [] in
     rbind (push_servers ser serverKeys (ord (map fst serverKeys)) op msg cb (kafkaproducer s)) (\<lambda>outs.
     Inr (outs, s\<lparr>push_redis := r\<rparr>, w)))"

subsection \<open>The HTTP handlers\<close>

text \<open>The world of the handlers: the server, what is outside, and the records produced so far.\<close>

record ('c, 'w) logic_world =
  lw_server :: "'c LogicServer"
  lw_outside :: 'w
  lw_produced :: "kafka_record list"

definition query_int :: "string \<Rightarrow> HttpRequest \<Rightarrow> 32 word result" where
  "query_int field req = rbind (getQuery field req) (\<lambda>t. rbind (stoi t) (\<lambda>i. Inr (of_int i)))"

text \<open>The answer of a handler that refuses: it sends the response at once.\<close>

definition not_found :: "HttpResponse \<Rightarrow> 'x \<Rightarrow> (http_out list \<times> HttpResponse \<times> 'x) result" where
  "not_found response x = (let response = set_status 404 ''NotFound'' response in
     rbind (doResponse response) (\<lambda>outs. Inr (outs, response, x)))"

definition pushed :: "HttpResponse \<Rightarrow> ('c, 'w) logic_world \<Rightarrow> kafka_record list \<times> 'c LogicServer \<times> 'w \<Rightarrow>
    (http_out list \<times> HttpResponse \<times> ('c, 'w) logic_world) result" where
  "pushed response x p = (case p of (outs, s, w) \<Rightarrow>
     Inr ([], response, x\<lparr>lw_server := s, lw_outside := w, lw_produced := lw_produced x @ outs\<rparr>))"

definition PushMsgByKeysHandler :: "('c, 'w) hiredis \<Rightarrow> (push_msg \<Rightarrow> string) \<Rightarrow> (string list \<Rightarrow> string list) \<Rightarrow> ('c, 'w) logic_world handler" where
  "PushMsgByKeysHandler H ser ord request response x =
     rbind (query_int ''operation'' request) (\<lambda>operation.
     rbind (getQuery ''keys'' request) (\<lambda>text_keys.
     let keys = split text_keys '','' in
     if keys \<noteq> [] \<and> operation \<noteq> 0 then
       rbind (PushMsgByKeys H ser ord keys operation (req_body request) (lw_server x) (lw_outside x)) (pushed response x)
     else not_found response x))"

fun stoi_all :: "string list \<Rightarrow> 32 word list result" where
  "stoi_all [] = Inr []"
| "stoi_all (elem # elems) = rbind (stoi elem) (\<lambda>i. rbind (stoi_all elems) (\<lambda>is. Inr (of_int i # is)))"

text \<open>\<open>cb\<close> is the callback that \<^verbatim>\<open>onRequest\<close> has left in the session. \<^verbatim>\<open>response->delay()\<close> only reads the flag.\<close>

definition PushMsgByMidsHandler :: "('c, 'w) hiredis \<Rightarrow> (push_msg \<Rightarrow> string) \<Rightarrow> (string list \<Rightarrow> string list) \<Rightarrow> nat \<Rightarrow> ('c, 'w) logic_world handler" where
  "PushMsgByMidsHandler H ser ord cb request response x =
     rbind (query_int ''operation'' request) (\<lambda>operation.
     rbind (getQuery ''mids'' request) (\<lambda>text_mids.
     let mids = split text_mids '','' in
     rbind (stoi_all mids) (\<lambda>midsvec.
     if mids \<noteq> [] \<and> operation \<noteq> 0 then
       rbind (PushMsgByMids H ser ord midsvec operation (req_body request) (Some cb) (lw_server x) (lw_outside x)) (pushed response x)
     else not_found response x)))"

definition PushMsgByRoomHandler :: "(push_msg \<Rightarrow> string) \<Rightarrow> ('c, 'w) logic_world handler" where
  "PushMsgByRoomHandler ser request response x =
     rbind (query_int ''operation'' request) (\<lambda>operation.
     rbind (getQuery ''type'' request) (\<lambda>type.
     rbind (getQuery ''room'' request) (\<lambda>room.
     if type \<noteq> [] \<and> operation \<noteq> 0 \<and> room \<noteq> [] then
       rbind (PushMsgByRoom ser (type @ ''://'' @ room) operation (req_body request) (kafkaproducer (lw_server x))) (\<lambda>outs.
       pushed response x (outs, lw_server x, lw_outside x))
     else not_found response x)))"

definition PushMsgToAllHandler :: "(push_msg \<Rightarrow> string) \<Rightarrow> ('c, 'w) logic_world handler" where
  "PushMsgToAllHandler ser request response x =
     rbind (query_int ''operation'' request) (\<lambda>operation.
     rbind (query_int ''speed'' request) (\<lambda>speed.
     if operation \<noteq> 0 \<and> speed \<noteq> 0 then
       rbind (PushMsgToAll ser speed operation (req_body request) (kafkaproducer (lw_server x))) (\<lambda>outs.
       pushed response x (outs, lw_server x, lw_outside x))
     else not_found response x))"

definition logic_Start :: "('c, 'w) hiredis \<Rightarrow> (push_msg \<Rightarrow> string) \<Rightarrow> (string list \<Rightarrow> string list) \<Rightarrow> nat \<Rightarrow>
    ('c, 'w) logic_world HttpServer \<Rightarrow> ('c, 'w) logic_world HttpServer" where
  "logic_Start H ser ord cb v =
     RegHandler ''/push/all'' (PushMsgToAllHandler ser)
     (RegHandler ''/push/room'' (PushMsgByRoomHandler ser)
     (RegHandler ''/push/mids'' (PushMsgByMidsHandler H ser ord cb)
     (RegHandler ''/push/keys'' (PushMsgByKeysHandler H ser ord) v)))"

text \<open>The constructors: a Redis client that cannot connect, or a producer that cannot be created (\<open>created\<close>), is only logged. The service object,
  a member, connects before the body of the constructor does.\<close>

definition mkKafkaProducer :: "bool \<Rightarrow> string \<Rightarrow> KafkaProducer" where
  "mkKafkaProducer created topic = \<lparr>producer_topic = topic, producer_created = created\<rparr>"

definition mkLogicServer :: "('c, 'w) hiredis \<Rightarrow> bool \<Rightarrow> string \<Rightarrow> int \<Rightarrow> string \<Rightarrow> 32 word \<Rightarrow> 'w \<Rightarrow> ('c LogicServer \<times> 'w) result" where
  "mkLogicServer H created redisip redisport topic sid w =
     rbind (Connect H (mkRedisClient redisip redisport [] 0, w)) (\<lambda>(_, service, w).
     rbind (Connect H (mkRedisClient redisip redisport [] 0, w)) (\<lambda>(_, push, w).
     Inr (\<lparr>logic_serverid = sid, lastTimestamp = None, seqID = 0, clock_pos = 0, push_redis = push, service_redis = service,
       kafkaproducer = mkKafkaProducer created topic\<rparr>, w)))"

end
