(* ===== verification/RpcChannelModel.thy ===== *)
theory RpcChannelModel
  imports RpcCodec
begin

text \<open>
  Request/response matching (\<^verbatim>\<open>src/rpc/RpcChannel.cc\<close>) and the service table of a server
  (\<^verbatim>\<open>src/rpc/RpcServer.cc\<close>).

  Protobuf is a parameter: a service is the name of its descriptor with its method lookup and request
  parser, \<open>parse_response\<close> is \<^verbatim>\<open>ParseFromArray\<close> on a response object, and messages travel as their
  serialised bytes. Closures are opaque values; running one is an event. What a service answers, and
  when, is up to it: dispatching a request and \<^verbatim>\<open>doneCallback\<close> are separate operations.
\<close>

subsection \<open>Types\<close>

datatype chan_error = NO_ERROR | WRONG_PROTO | INVALID_REQUEST | NO_METHOD | NO_SERVICE | PARSE_ERROR

record ('r, 'd) OutstandingCall =
  oc_response :: "'r option"      \<comment> \<open>\<open>None\<close> is the null pointer\<close>
  oc_done :: "'d option"

record ('m, 'q) Service =
  full_name :: string
  FindMethodByName :: "string \<Rightarrow> 'm option"
  parse_request :: "'m \<Rightarrow> byte list \<Rightarrow> int \<Rightarrow> 'q option"

record ('r, 'd, 'm, 'q) RpcChannel =
  ch_conn :: "nat option"         \<comment> \<open>the session behind the weak pointer, if it is still there\<close>
  ch_id :: "64 word"
  outstandings :: "64 word \<Rightarrow> ('r, 'd) OutstandingCall option"
  ch_services :: "(string \<Rightarrow> ('m, 'q) Service option) option"

datatype ('r, 'd, 'm, 'q) chan_event =
    DoneRun "64 word" 'd 'r                \<comment> \<open>the closure of call number \<open>id\<close> runs on the parsed response\<close>
  | Dispatched 'm 'q string                \<comment> \<open>the service is called; the string is bound into its closure\<close>
  | Rejected chan_error

definition mkRpcChannel :: "nat option \<Rightarrow> ('r, 'd, 'm, 'q) RpcChannel" where
  "mkRpcChannel conn = \<lparr>ch_conn = conn, ch_id = 0, outstandings = Map.empty, ch_services = None\<rparr>"

subsection \<open>Operations\<close>

text \<open>\<^verbatim>\<open>codec_.send(id, name, conn_.lock(), message)\<close>: the buffer is filled, then the session pointer is
  dereferenced. The result is the buffer handed to the session.\<close>

definition channel_send :: "('r, 'd, 'm, 'q) RpcChannel \<Rightarrow> 64 word \<Rightarrow> string \<Rightarrow> byte list \<Rightarrow> Buffer result" where
  "channel_send ch i name payload = rbind (rpc_send i name payload) (\<lambda>b.
     case ch_conn ch of None \<Rightarrow> Inl NullDereference | Some c \<Rightarrow> Inr b)"

definition CallMethod :: "string \<Rightarrow> string \<Rightarrow> byte list \<Rightarrow> 'r option \<Rightarrow> 'd option \<Rightarrow> ('r, 'd, 'm, 'q) RpcChannel \<Rightarrow>
    (Buffer \<times> ('r, 'd, 'm, 'q) RpcChannel) result" where
  "CallMethod service method request response done_cb ch = (
     let i = ch_id ch;
         ch = ch\<lparr>ch_id := i + 1\<rparr>;
         name = service @ '':'' @ method;
         ch = ch\<lparr>outstandings := (outstandings ch)(i \<mapsto> \<lparr>oc_response = response, oc_done = done_cb\<rparr>)\<rparr>
     in rbind (channel_send ch i name request) (\<lambda>b. Inr (b, ch)))"

definition on_response :: "('r \<Rightarrow> byte list \<Rightarrow> int \<Rightarrow> 'r option) \<Rightarrow> 64 word \<Rightarrow> byte list \<Rightarrow> int \<Rightarrow>
    ('r, 'd, 'm, 'q) RpcChannel \<Rightarrow> ('r, 'd, 'm, 'q) chan_event list \<times> ('r, 'd, 'm, 'q) RpcChannel" where
  "on_response parse_response i data datalen ch = (
     let (out, ch) = (case outstandings ch i of
            Some out \<Rightarrow> (out, ch\<lparr>outstandings := (outstandings ch)(i := None)\<rparr>)
          | None \<Rightarrow> (\<lparr>oc_response = None, oc_done = None\<rparr>, ch)) in
     case oc_response out of
       None \<Rightarrow> ([], ch)
     | Some r \<Rightarrow> (case parse_response r data datalen of
           None \<Rightarrow> ([], ch)
         | Some r' \<Rightarrow> (case oc_done out of None \<Rightarrow> ([], ch) | Some d \<Rightarrow> ([DoneRun i d r'], ch))))"

definition on_request :: "64 word \<Rightarrow> string \<Rightarrow> string \<Rightarrow> byte list \<Rightarrow> int \<Rightarrow>
    ('r, 'd, 'm, 'q) RpcChannel \<Rightarrow> ('r, 'd, 'm, 'q) chan_event list" where
  "on_request i servicename methodname data datalen ch = (case ch_services ch of
       None \<Rightarrow> [Rejected NO_SERVICE]
     | Some services \<Rightarrow> (case services servicename of
           None \<Rightarrow> [Rejected NO_SERVICE]
         | Some service \<Rightarrow> (case FindMethodByName service methodname of
               None \<Rightarrow> [Rejected NO_METHOD]
             | Some method \<Rightarrow> (case parse_request service method data datalen of
                   None \<Rightarrow> [Rejected PARSE_ERROR]
                 | Some request \<Rightarrow>
                     [Dispatched method request (servicename @ '':'' @ methodname @ '':'' @ dec_of_nat (unat i))]))))"

definition onRpcMessage :: "('r \<Rightarrow> byte list \<Rightarrow> int \<Rightarrow> 'r option) \<Rightarrow> nat option \<Rightarrow> rpc_event \<Rightarrow>
    ('r, 'd, 'm, 'q) RpcChannel \<Rightarrow> (('r, 'd, 'm, 'q) chan_event list \<times> ('r, 'd, 'm, 'q) RpcChannel) result" where
  "onRpcMessage parse_response conn ev ch = (case ev of
     RpcError e \<Rightarrow> Inr ([], ch)
   | RpcMessage isresponse i servicename methodname data datalen \<Rightarrow>
       rbind (assert_that (conn = ch_conn ch)) (\<lambda>_.
       Inr (if isresponse then on_response parse_response i data datalen ch
            else (on_request i servicename methodname data datalen ch, ch))))"

text \<open>\<^verbatim>\<open>std::string::find_last_of\<close> for one character.\<close>

definition find_last_of :: "char \<Rightarrow> string \<Rightarrow> nat option" where
  "find_last_of c s = (if c \<in> set s then Some (length s - 1 - length (takeWhile (\<lambda>x. x \<noteq> c) (rev s))) else None)"

definition doneCallback :: "byte list \<Rightarrow> string \<Rightarrow> ('r, 'd, 'm, 'q) RpcChannel \<Rightarrow> Buffer option result" where
  "doneCallback response name ch = (case find_last_of CHR '':'' name of
     None \<Rightarrow> Inr None
   | Some pos \<Rightarrow>
       let i = strtoull0 (drop (pos + 1) name); name = take pos name; i = i OR 0x8000000000000000 in
       rbind (channel_send ch i name response) (\<lambda>b. Inr (Some b)))"

text \<open>The server's service table and what it sets up for a new connection.\<close>

definition registerService :: "('m, 'q) Service \<Rightarrow> (string \<Rightarrow> ('m, 'q) Service option) \<Rightarrow> (string \<Rightarrow> ('m, 'q) Service option)" where
  "registerService service services = services(full_name service \<mapsto> service)"

definition onConnection :: "(string \<Rightarrow> ('m, 'q) Service option) \<Rightarrow> nat \<Rightarrow> ('r, 'd, 'm, 'q) RpcChannel" where
  "onConnection services conn = (let channel = mkRpcChannel (Some conn) in channel\<lparr>ch_services := Some services\<rparr>)"

subsection \<open>Library lemmas\<close>

lemma find_last_of_append:
  assumes "c \<notin> set t"
  shows "find_last_of c (s @ c # t) = Some (length s)"
proof -
  have "takeWhile (\<lambda>x. x \<noteq> c) (rev t @ c # rev s) = rev t" using assms by (subst takeWhile_append2) auto
  then show ?thesis by (simp add: find_last_of_def)
qed

lemma dec_of_nat_no_colon: "CHR '':'' \<notin> set (dec_of_nat n)"
proof -
  have "\<not> is_base_digit 10 CHR '':''" by code_simp
  then show ?thesis using dec_of_nat_digits [of n] by (auto simp: list_all_iff)
qed

lemma rpc_send_content:
  assumes "rpc_valid f"
  shows "\<exists>b. rpc_send (fr_id f) (fr_name f) (fr_payload f) = Inr b \<and> buf_inv b \<and> content b = rpc_encode f"
proof -
  have "headroom_inv (mkBuffer kInitialSize)" "content (mkBuffer kInitialSize) = []" by simp_all
  from fillEmptyBuffer_content [OF this assms] show ?thesis unfolding rpc_send_def .
qed

text \<open>The bytes of a buffer arrive in a fresh read buffer and are decoded.\<close>

definition rpc_transfer :: "Buffer \<Rightarrow> rpc_event list result" where
  "rpc_transfer b = rbind (append_bytes (content b) (mkBuffer kInitialSize)) (\<lambda>rb.
     rbind (rpc_onMessage rb) (\<lambda>(evs, rb). Inr evs))"

lemma rpc_transfer_frame:
  assumes "rpc_valid f" "content b = rpc_encode f"
  shows "rpc_transfer b = Inr [rpc_deliver f]"
proof -
  obtain rb where rb: "append_bytes (content b) (mkBuffer kInitialSize) = Inr rb" "buf_inv rb" "content rb = rpc_encode f"
    using bq.app_spec [of "mkBuffer kInitialSize" "content b"] assms(2) by auto
  from rpcs.dec_frames [of rb "[f]" "[]"] rb assms(1) obtain rb' where "rpc_onMessage rb = Inr ([rpc_deliver f], rb')" by auto
  with rb(1) show ?thesis by (simp add: rpc_transfer_def)
qed

end
