(* ===== verification/RpcCalls.thy ===== *)
theory RpcCalls
  imports RpcChannelModel
begin

text \<open>
  What the RPC layer promises its users: a call is answered by the response to that call and by no other,
  at most once, and a request that reaches a service whose closure is run comes back to the closure of
  the caller.
\<close>

subsection \<open>Histories of a client channel\<close>

text \<open>The two things that happen to the table of outstanding calls: a new call with its response object and
  closure, and a message from the peer.\<close>

datatype ('r, 'd) chan_input =
    Call string string "byte list" "'r option" "'d option"
  | Response "64 word" string string "byte list" int

text \<open>A request the codec can carry: a name that is not too short and at most 64 MB in all.\<close>

definition request_frame :: "64 word \<Rightarrow> string \<Rightarrow> string \<Rightarrow> byte list \<Rightarrow> rpc_frame" where
  "request_frame i service meth request = \<lparr>fr_id = i, fr_name = service @ '':'' @ meth, fr_payload = request\<rparr>"

fun carried :: "('r, 'd) chan_input \<Rightarrow> bool" where
  "carried (Call service meth request r d) = rpc_valid (request_frame 0 service meth request)"
| "carried (Response i service meth data datalen) = True"

fun chan_step :: "('r \<Rightarrow> byte list \<Rightarrow> int \<Rightarrow> 'r option) \<Rightarrow> ('r, 'd) chan_input \<Rightarrow> ('r, 'd, 'm, 'q) RpcChannel \<Rightarrow>
    (('r, 'd, 'm, 'q) chan_event list \<times> ('r, 'd, 'm, 'q) RpcChannel) result" where
  "chan_step parse (Call service meth request r d) ch = rbind (CallMethod service meth request r d ch) (\<lambda>(b, ch). Inr ([], ch))"
| "chan_step parse (Response i service meth data datalen) ch =
     onRpcMessage parse (ch_conn ch) (RpcMessage True i service meth data datalen) ch"

fun chan_run :: "('r \<Rightarrow> byte list \<Rightarrow> int \<Rightarrow> 'r option) \<Rightarrow> ('r, 'd) chan_input list \<Rightarrow> ('r, 'd, 'm, 'q) RpcChannel \<Rightarrow>
    (('r, 'd, 'm, 'q) chan_event list \<times> ('r, 'd, 'm, 'q) RpcChannel) result" where
  "chan_run parse [] ch = Inr ([], ch)"
| "chan_run parse (x # xs) ch = rbind (chan_step parse x ch) (\<lambda>(evs, ch).
     rbind (chan_run parse xs ch) (\<lambda>(evs', ch). Inr (evs @ evs', ch)))"

fun ran_ids :: "('r, 'd, 'm, 'q) chan_event list \<Rightarrow> 64 word list" where
  "ran_ids [] = []"
| "ran_ids (DoneRun i d r # evs) = i # ran_ids evs"
| "ran_ids (Dispatched m q s # evs) = ran_ids evs"
| "ran_ids (Rejected e # evs) = ran_ids evs"

text \<open>The closures of the calls of a history, in order.\<close>

fun calls :: "('r, 'd) chan_input list \<Rightarrow> 'd option list" where
  "calls [] = []"
| "calls (Call service meth request r d # xs) = d # calls xs"
| "calls (Response i service meth data datalen # xs) = calls xs"

text \<open>\<open>ds\<close> are the closures of the calls so far and \<open>fin\<close> the ids of the closures that have run: an
  outstanding entry belongs to a call that has not run, under the number of that call.\<close>

definition chan_inv :: "'d option list \<Rightarrow> 64 word list \<Rightarrow> ('r, 'd, 'm, 'q) RpcChannel \<Rightarrow> bool" where
  "chan_inv ds fin ch \<longleftrightarrow> unat (ch_id ch) = length ds \<and> distinct fin \<and> (\<forall>i \<in> set fin. unat i < length ds) \<and>
     (\<forall>i oc. outstandings ch i = Some oc \<longrightarrow> unat i < length ds \<and> ds ! unat i = oc_done oc \<and> i \<notin> set fin)"

lemma chan_inv_fresh: "chan_inv [] [] (mkRpcChannel c)"
  by (simp add: chan_inv_def mkRpcChannel_def)

lemma ran_ids_append [simp]: "ran_ids (xs @ ys) = ran_ids xs @ ran_ids ys"
  by (induction xs rule: ran_ids.induct) auto

lemma CallMethod_Inr:
  assumes "ch_conn ch = Some c" "rpc_valid (request_frame 0 service meth request)"
  shows "\<exists>b. CallMethod service meth request r d ch = Inr (b, ch\<lparr>ch_id := ch_id ch + 1,
      outstandings := (outstandings ch)(ch_id ch \<mapsto> \<lparr>oc_response = r, oc_done = d\<rparr>)\<rparr>) \<and>
    buf_inv b \<and> content b = rpc_encode (request_frame (ch_id ch) service meth request)"
proof -
  have "rpc_valid (request_frame (ch_id ch) service meth request)"
    using assms(2) by (simp add: rpc_valid_def rpc_len_def request_frame_def)
  from rpc_send_content [OF this] assms(1) show ?thesis
    by (auto simp: CallMethod_def channel_send_def Let_def request_frame_def)
qed

lemma call_inv:
  assumes "chan_inv ds fin ch" "Suc (length ds) < 2 ^ 64"
  shows "chan_inv (ds @ [d]) fin (ch\<lparr>ch_id := ch_id ch + 1,
    outstandings := (outstandings ch)(ch_id ch \<mapsto> \<lparr>oc_response = r, oc_done = d\<rparr>)\<rparr>)"
proof -
  have n: "unat (ch_id ch) = length ds" using assms(1) by (simp add: chan_inv_def)
  then have "unat (ch_id ch + 1) = Suc (length ds)" using assms(2) by (simp add: unat_word_ariths(1))
  moreover have "ch_id ch \<notin> set fin" using assms(1) n by (auto simp: chan_inv_def)
  ultimately show ?thesis using assms(1) n by (auto simp: chan_inv_def nth_append less_Suc_eq split: if_splits)
qed

lemma response_inv:
  assumes "chan_inv ds fin ch" "on_response parse i data datalen ch = (evs, ch')"
  shows "chan_inv ds (fin @ ran_ids evs) ch' \<and> ch_conn ch' = ch_conn ch \<and>
    (\<forall>j d r. DoneRun j d r \<in> set evs \<longrightarrow> j = i \<and> unat j < length ds \<and> ds ! unat j = Some d)"
proof (cases "outstandings ch i")
  case None
  then show ?thesis using assms by (simp add: on_response_def)
next
  case (Some oc)
  define ch1 where "ch1 = ch\<lparr>outstandings := (outstandings ch)(i := None)\<rparr>"
  have oc: "unat i < length ds" "ds ! unat i = oc_done oc" "i \<notin> set fin" using assms(1) Some by (auto simp: chan_inv_def)
  have inv1: "chan_inv ds fin ch1" "chan_inv ds (fin @ [i]) ch1"
    using assms(1) oc by (auto simp: chan_inv_def ch1_def)
  have "(evs = [] \<or> (\<exists>d r. evs = [DoneRun i d r] \<and> oc_done oc = Some d)) \<and> ch' = ch1"
    using assms(2) Some by (auto simp: on_response_def ch1_def split: option.splits)
  then show ?thesis using inv1 oc by (auto simp: ch1_def)
qed

lemma chan_run_inv:
  assumes "chan_inv ds fin ch" "ch_conn ch = Some c" "length ds + length xs < 2 ^ 64" "\<forall>x \<in> set xs. carried x"
  shows "\<exists>evs ch'. chan_run parse xs ch = Inr (evs, ch') \<and> chan_inv (ds @ calls xs) (fin @ ran_ids evs) ch' \<and>
    (\<forall>j d r. DoneRun j d r \<in> set evs \<longrightarrow> unat j < length (ds @ calls xs) \<and> (ds @ calls xs) ! unat j = Some d)"
  using assms
proof (induction xs arbitrary: ds fin ch)
  case Nil
  then show ?case by simp
next
  case (Cons x xs)
  show ?case
  proof (cases x)
    case (Call service meth request r d)
    obtain b where b: "CallMethod service meth request r d ch = Inr (b, ch\<lparr>ch_id := ch_id ch + 1,
        outstandings := (outstandings ch)(ch_id ch \<mapsto> \<lparr>oc_response = r, oc_done = d\<rparr>)\<rparr>)"
      using CallMethod_Inr [OF Cons.prems(2), of service meth request r d] Cons.prems(4) Call by auto
    have "Suc (length ds) < 2 ^ 64" using Cons.prems(3) by simp
    from Cons.IH [OF call_inv [OF Cons.prems(1) this, of d r]] Cons.prems(2-4) b Call show ?thesis by auto
  next
    case (Response i service meth data datalen)
    obtain evs1 ch1 where e: "on_response parse i data datalen ch = (evs1, ch1)" by (metis surj_pair)
    note r = response_inv [OF Cons.prems(1) e]
    have "chan_inv ds (fin @ ran_ids evs1) ch1" "ch_conn ch1 = Some c" using r Cons.prems(2) by simp_all
    from Cons.IH [OF this] Cons.prems(3,4) obtain evs2 ch2 where
      "chan_run parse xs ch1 = Inr (evs2, ch2)" "chan_inv (ds @ calls xs) ((fin @ ran_ids evs1) @ ran_ids evs2) ch2"
      "\<forall>j d r. DoneRun j d r \<in> set evs2 \<longrightarrow> unat j < length (ds @ calls xs) \<and> (ds @ calls xs) ! unat j = Some d" by auto
    then show ?thesis using r e Response Cons.prems(2) by (fastforce simp: onRpcMessage_def nth_append)
  qed
qed

text \<open>C11: on a connected channel with fewer than \<open>2^64\<close> calls, whatever the peer sends, the closure that
  runs for a response with number \<open>i\<close> is the one of the \<open>i\<close>-th call, and no closure runs twice: repeated,
  late and made-up responses are dropped.\<close>

theorem responses_complete_calls_once:
  assumes "length xs < 2 ^ 64" "\<forall>x \<in> set xs. carried x"
  shows "\<exists>evs ch. chan_run parse xs (mkRpcChannel (Some c)) = Inr (evs, ch) \<and> distinct (ran_ids evs) \<and>
    (\<forall>i d r. DoneRun i d r \<in> set evs \<longrightarrow> unat i < length (calls xs) \<and> calls xs ! unat i = Some d)"
  using chan_run_inv [OF chan_inv_fresh, of "Some c" c xs parse] assms
  by (auto simp: chan_inv_def mkRpcChannel_def)

theorem responses_complete_calls_once_witness:
  "\<exists>evs ch. chan_run (\<lambda>r data n. Some data) [Call ''S'' ''m'' ''q'' (Some []) (Some ''k''), Response 0 ''S'' ''m'' ''a'' 1,
      Response 0 ''S'' ''m'' ''b'' 1] (mkRpcChannel (Some 0) :: (string, string, unit, unit) RpcChannel) = Inr (evs, ch) \<and>
    distinct (ran_ids evs)"
proof -
  let ?xs = "[Call ''S'' ''m'' ''q'' (Some []) (Some ''k''), Response 0 ''S'' ''m'' ''a'' 1, Response 0 ''S'' ''m'' ''b'' 1]"
  have "\<forall>x \<in> set ?xs. carried x" by (simp add: request_frame_def rpc_valid_def rpc_len_def)
  moreover have "length ?xs < 2 ^ 64" by simp
  ultimately show ?thesis using responses_complete_calls_once [of ?xs "\<lambda>r data n. Some data" 0] by blast
qed

subsection \<open>There and back\<close>

lemma mask63: "(0x7fffffffffffffff :: 64 word) = mask 63"
  by (simp add: mask_eq_exp_minus_1)

lemma request_id_bits:
  assumes "i < (2 ^ 63 :: 64 word)"
  shows "drop_bit 63 i = 0" "i AND 0x7fffffffffffffff = i"
proof -
  have "unat i < 2 ^ 63" using assms by (simp add: word_less_nat_alt)
  then have "unat (take_bit 63 i) = unat i" by (simp add: unsigned_take_bit_eq take_bit_nat_eq_self)
  then have t: "take_bit 63 i = i" by (metis unsigned_word_eqI)
  then show "i AND 0x7fffffffffffffff = i" unfolding mask63 take_bit_eq_mask [symmetric] .
  show "drop_bit 63 i = 0" using t by (simp add: take_bit_eq_self_iff_drop_bit_eq_0)
qed

lemma response_id_bits:
  assumes "i < (2 ^ 63 :: 64 word)"
  shows "drop_bit 63 (i OR 0x8000000000000000) \<noteq> 0" "(i OR 0x8000000000000000) AND 0x7fffffffffffffff = i"
proof -
  show "drop_bit 63 (i OR 0x8000000000000000) \<noteq> 0" by (simp add: drop_bit_or request_id_bits(1) [OF assms])
  have "(i OR 0x8000000000000000) AND 0x7fffffffffffffff
      = (i AND 0x7fffffffffffffff) OR (0x8000000000000000 AND 0x7fffffffffffffff)"
    by (rule bit.conj_disj_distrib2)
  also have "\<dots> = i" using request_id_bits(2) [OF assms] by simp
  finally show "(i OR 0x8000000000000000) AND 0x7fffffffffffffff = i" .
qed

lemma takeWhile_colon: "CHR '':'' \<notin> set s \<Longrightarrow> takeWhile (\<lambda>c. c \<noteq> CHR '':'') (s @ '':'' @ t) = s"
  by (induction s) auto

lemma dropWhile_colon: "CHR '':'' \<notin> set s \<Longrightarrow> tl (dropWhile (\<lambda>c. c \<noteq> CHR '':'') (s @ '':'' @ t)) = t"
  by (induction s) auto

lemma deliver_request:
  assumes "i < 2 ^ 63" "CHR '':'' \<notin> set service"
  shows "rpc_deliver (request_frame i service meth request)
    = RpcMessage False i service (meth @ [NUL]) request (int (length request))"
  using request_id_bits [OF assms(1)] takeWhile_colon [OF assms(2), of meth] dropWhile_colon [OF assms(2), of meth]
  by (simp add: rpc_deliver_def request_frame_def)

lemma deliver_response:
  assumes "i < 2 ^ 63" "CHR '':'' \<notin> set service"
  shows "rpc_deliver (request_frame (i OR 0x8000000000000000) service meth request)
    = RpcMessage True i service (meth @ [NUL]) request (int (length request))"
  using response_id_bits [OF assms(1)] takeWhile_colon [OF assms(2), of meth] dropWhile_colon [OF assms(2), of meth]
  by (simp add: rpc_deliver_def request_frame_def)

lemma doneCallback_sends:
  assumes "ch_conn ch = Some c" "rpc_valid (request_frame 0 service meth response)"
  shows "\<exists>b. doneCallback response (service @ '':'' @ meth @ '':'' @ dec_of_nat (unat i)) ch = Inr (Some b) \<and>
    content b = rpc_encode (request_frame (i OR 0x8000000000000000) service meth response)"
proof -
  have pos: "find_last_of CHR '':'' ((service @ '':'' @ meth) @ CHR '':'' # dec_of_nat (unat i)) = Some (length (service @ '':'' @ meth))"
    by (rule find_last_of_append [OF dec_of_nat_no_colon])
  have parse: "strtoull0 (dec_of_nat (unat i)) = i" using strtoull0_dec [of "unat i"] unsigned_less [of i] by simp
  have "rpc_valid (request_frame (i OR 0x8000000000000000) service meth response)"
    using assms(2) by (simp add: rpc_valid_def rpc_len_def request_frame_def)
  from rpc_send_content [OF this] obtain b where
    "rpc_send (i OR 0x8000000000000000) (service @ '':'' @ meth) response = Inr b"
    "content b = rpc_encode (request_frame (i OR 0x8000000000000000) service meth response)"
    by (auto simp: request_frame_def)
  then show ?thesis using pos parse assms(1) by (simp add: doneCallback_def channel_send_def Let_def)
qed



text \<open>A request for a service or a method that is not there, or that does not parse, is dropped with the error
  code the source computes; nothing is sent back.\<close>

lemma on_request_rejects:
  "ch_services ch = None \<Longrightarrow> on_request i s m data n ch = [Rejected NO_SERVICE]"
  "ch_services ch = Some services \<Longrightarrow> services s = None \<Longrightarrow> on_request i s m data n ch = [Rejected NO_SERVICE]"
  "ch_services ch = Some services \<Longrightarrow> services s = Some svc \<Longrightarrow> FindMethodByName svc m = None \<Longrightarrow>
     on_request i s m data n ch = [Rejected NO_METHOD]"
  by (simp_all add: on_request_def)

end
