(* ===== verification/JobModel.thy ===== *)
theory JobModel
  imports LogicModel RpcCalls
begin

text \<open>
  The job server (\<^verbatim>\<open>src/jobserver/JobServer.cc\<close>, \<^verbatim>\<open>GateRpcClient.cc\<close>, \<^verbatim>\<open>KafkaConsumer.cc\<close>): it takes the push messages of the logic
  server from Kafka and calls the gate, over the RPC channel of \<open>RpcChannelModel\<close>.

  The Kafka library is a parameter (\<open>rdkafka\<close>), as are the protobuf parser \<open>parse\<close> of the push messages and the serialiser \<open>ser\<close> of the requests.
  The closure of a call only logs, and the reply messages are empty. What goes out are the buffers handed to the session of the channel.
\<close>

subsection \<open>Messages\<close>

datatype kafka_error = ERR_NO_ERROR | ERR__TIMED_OUT | ERR__PARTITION_EOF | ERR__UNKNOWN_TOPIC | ERR__UNKNOWN_PARTITION | ERR_OTHER int

record kafka_message =
  message_err :: kafka_error
  message_payload :: string

text \<open>The requests of the gate's service; the number before the message is \<^verbatim>\<open>ver\<close>.\<close>

datatype gate_request =
    PushMsgReq "string list" "32 word" "32 word" Proto          \<comment> \<open>keys, protoOp\<close>
  | BroadcastRoomReq string "32 word" Proto                      \<comment> \<open>roomID\<close>
  | BroadcastReq "32 word" "32 word" "32 word" Proto             \<comment> \<open>protoOp, speed\<close>

definition mk_proto :: "string \<Rightarrow> Proto" where
  "mk_proto msg = \<lparr>proto_op = 9, proto_seq = 0, proto_body = msg\<rparr>"

type_synonym ('m, 'q) gate_channel = "(unit, unit, 'm, 'q) RpcChannel"

subsection \<open>The RPC client\<close>

definition GateRpcClient_PushMsg :: "string \<Rightarrow> unit option \<Rightarrow> ('m, 'q) gate_channel \<Rightarrow> (Buffer \<times> ('m, 'q) gate_channel) result" where
  "GateRpcClient_PushMsg request cb ch = CallMethod ''gate.Gate'' ''PushMsg'' request (Some ()) cb ch"

definition GateRpcClient_BroadcastRoom :: "string \<Rightarrow> unit option \<Rightarrow> ('m, 'q) gate_channel \<Rightarrow> (Buffer \<times> ('m, 'q) gate_channel) result" where
  "GateRpcClient_BroadcastRoom request cb ch = CallMethod ''gate.Gate'' ''BroadcastRoom'' request (Some ()) cb ch"

definition GateRpcClient_Broadcast :: "string \<Rightarrow> unit option \<Rightarrow> ('m, 'q) gate_channel \<Rightarrow> (Buffer \<times> ('m, 'q) gate_channel) result" where
  "GateRpcClient_Broadcast request cb ch = CallMethod ''gate.Gate'' ''Broadcast'' request (Some ()) cb ch"

definition GateRpcClient_onConnection :: "nat \<Rightarrow> ('m, 'q) gate_channel \<Rightarrow> ('m, 'q) gate_channel" where
  "GateRpcClient_onConnection conn ch = ch\<lparr>ch_conn := Some conn\<rparr>"

subsection \<open>Forwarding\<close>

definition pushKeys :: "(gate_request \<Rightarrow> string) \<Rightarrow> 32 word \<Rightarrow> string \<Rightarrow> string list \<Rightarrow> string \<Rightarrow> ('m, 'q) gate_channel \<Rightarrow>
    (Buffer \<times> ('m, 'q) gate_channel) result" where
  "pushKeys ser operation server keys msg ch = GateRpcClient_PushMsg (ser (PushMsgReq keys operation 1 (mk_proto msg))) (Some ()) ch"

definition broadcastRoom :: "(gate_request \<Rightarrow> string) \<Rightarrow> string \<Rightarrow> string \<Rightarrow> ('m, 'q) gate_channel \<Rightarrow> (Buffer \<times> ('m, 'q) gate_channel) result" where
  "broadcastRoom ser room msg ch = GateRpcClient_BroadcastRoom (ser (BroadcastRoomReq room 1 (mk_proto msg))) None ch"

definition broadcast :: "(gate_request \<Rightarrow> string) \<Rightarrow> 32 word \<Rightarrow> string \<Rightarrow> 32 word \<Rightarrow> ('m, 'q) gate_channel \<Rightarrow> (Buffer \<times> ('m, 'q) gate_channel) result" where
  "broadcast ser operation msg speed ch = GateRpcClient_Broadcast (ser (BroadcastReq operation speed 1 (mk_proto msg))) None ch"

definition one_frame :: "(Buffer \<times> ('m, 'q) gate_channel) result \<Rightarrow> (Buffer list \<times> ('m, 'q) gate_channel) result" where
  "one_frame res = rbind res (\<lambda>(b, ch). Inr ([b], ch))"

definition job_push :: "(gate_request \<Rightarrow> string) \<Rightarrow> push_msg \<Rightarrow> ('m, 'q) gate_channel \<Rightarrow> (Buffer list \<times> ('m, 'q) gate_channel) result" where
  "job_push ser m ch = (case push_type m of
     PUSH \<Rightarrow> one_frame (pushKeys ser (push_operation m) (push_server m) (push_keys m) (push_body m) ch)
   | ROOM \<Rightarrow> one_frame (broadcastRoom ser (push_room m) (push_body m) ch)
   | BROADCAST \<Rightarrow> one_frame (broadcast ser (push_operation m) (push_body m) (push_speed m) ch)
   | OtherType t \<Rightarrow> Inr ([], ch))"

definition HandleKafkaMessage :: "(gate_request \<Rightarrow> string) \<Rightarrow> (string \<Rightarrow> push_msg option) \<Rightarrow> kafka_message \<Rightarrow> ('m, 'q) gate_channel \<Rightarrow>
    (Buffer list \<times> ('m, 'q) gate_channel) result" where
  "HandleKafkaMessage ser parse message ch = (case message_err message of
     ERR_NO_ERROR \<Rightarrow> (case parse (message_payload message) of Some msg \<Rightarrow> job_push ser msg ch | None \<Rightarrow> Inr ([], ch))
   | _ \<Rightarrow> Inr ([], ch))"

subsection \<open>The consumer\<close>

record 'k rdkafka =
  rd_create :: "(string \<times> string) list \<Rightarrow> 'k option"    \<comment> \<open>from the settings; \<open>None\<close> is the null pointer\<close>
  rd_subscribe :: "string list \<Rightarrow> 'k \<Rightarrow> 'k"
  rd_consume :: "'k \<Rightarrow> kafka_message \<times> 'k"
  rd_close :: "'k \<Rightarrow> 'k"

record 'k KafkaConsumer =
  consumer_topic :: "string list"
  consumer_brokers :: string
  consumer_handle :: "'k option"

definition SubTopic :: "'k rdkafka \<Rightarrow> string \<Rightarrow> 'k KafkaConsumer \<Rightarrow> 'k KafkaConsumer result" where
  "SubTopic K topic kc = (let kc = kc\<lparr>consumer_topic := consumer_topic kc @ [topic]\<rparr> in
     case consumer_handle kc of None \<Rightarrow> Inl NullDereference
     | Some h \<Rightarrow> Inr (kc\<lparr>consumer_handle := Some (rd_subscribe K (consumer_topic kc) h)\<rparr>))"

definition mkKafkaConsumer :: "'k rdkafka \<Rightarrow> string \<Rightarrow> string \<Rightarrow> 'k KafkaConsumer result" where
  "mkKafkaConsumer K brokers topic = SubTopic K topic \<lparr>consumer_topic = [], consumer_brokers = brokers,
     consumer_handle = rd_create K [(''metadata.broker.list'', brokers), (''group.id'', ''test'')]\<rparr>"

definition consumer_Start :: "'k rdkafka \<Rightarrow> (kafka_message \<Rightarrow> 's \<Rightarrow> ('b list \<times> 's) result) \<Rightarrow> 'k KafkaConsumer \<Rightarrow> 's \<Rightarrow>
    ('b list \<times> 'k KafkaConsumer \<times> 's) result" where
  "consumer_Start K messagecb kc s = (case consumer_handle kc of None \<Rightarrow> Inl NullDereference
     | Some h \<Rightarrow> let (msg, h) = rd_consume K h in rbind (messagecb msg s) (\<lambda>(outs, s). Inr (outs, kc\<lparr>consumer_handle := Some h\<rparr>, s)))"

definition consumer_Stop :: "'k rdkafka \<Rightarrow> 'k KafkaConsumer \<Rightarrow> 'k KafkaConsumer result" where
  "consumer_Stop K kc = (case consumer_handle kc of None \<Rightarrow> Inl NullDereference
     | Some h \<Rightarrow> Inr (kc\<lparr>consumer_handle := Some (rd_close K h)\<rparr>))"

subsection \<open>The server\<close>

record ('k, 'm, 'q) JobServer =
  rpcclient :: "('m, 'q) gate_channel"
  kafkaconsumer :: "'k KafkaConsumer"

definition mkJobServer :: "'k rdkafka \<Rightarrow> string \<Rightarrow> string \<Rightarrow> ('k, 'm, 'q) JobServer result" where
  "mkJobServer K brokers topic = rbind (mkKafkaConsumer K brokers topic) (\<lambda>kc. Inr \<lparr>rpcclient = mkRpcChannel None, kafkaconsumer = kc\<rparr>)"

definition StartConsum :: "'k rdkafka \<Rightarrow> (gate_request \<Rightarrow> string) \<Rightarrow> (string \<Rightarrow> push_msg option) \<Rightarrow> ('k, 'm, 'q) JobServer \<Rightarrow>
    (Buffer list \<times> ('k, 'm, 'q) JobServer) result" where
  "StartConsum K ser parse js = rbind (consumer_Start K (HandleKafkaMessage ser parse) (kafkaconsumer js) (rpcclient js)) (\<lambda>(outs, kc, ch).
     Inr (outs, js\<lparr>rpcclient := ch, kafkaconsumer := kc\<rparr>))"

text \<open>The loop of \<^verbatim>\<open>main\<close>, until the signal comes after \<open>n\<close> rounds.\<close>

fun job_loop :: "nat \<Rightarrow> 'k rdkafka \<Rightarrow> (gate_request \<Rightarrow> string) \<Rightarrow> (string \<Rightarrow> push_msg option) \<Rightarrow> ('k, 'm, 'q) JobServer \<Rightarrow>
    (Buffer list \<times> ('k, 'm, 'q) JobServer) result" where
  "job_loop 0 K ser parse js = Inr ([], js)"
| "job_loop (Suc n) K ser parse js = rbind (StartConsum K ser parse js) (\<lambda>(outs1, js).
     rbind (job_loop n K ser parse js) (\<lambda>(outs2, js). Inr (outs1 @ outs2, js)))"

subsection \<open>What reaches the gate\<close>

fun gate_method :: "gate_request \<Rightarrow> string" where
  "gate_method (PushMsgReq _ _ _ _) = ''PushMsg''"
| "gate_method (BroadcastRoomReq _ _ _) = ''BroadcastRoom''"
| "gate_method (BroadcastReq _ _ _ _) = ''Broadcast''"

text \<open>The request a message of the topic asks for.\<close>

definition job_request :: "(string \<Rightarrow> push_msg option) \<Rightarrow> kafka_message \<Rightarrow> gate_request option" where
  "job_request parse message = (if message_err message \<noteq> ERR_NO_ERROR then None else
     case parse (message_payload message) of None \<Rightarrow> None
     | Some m \<Rightarrow> (case push_type m of
         PUSH \<Rightarrow> Some (PushMsgReq (push_keys m) (push_operation m) 1 (mk_proto (push_body m)))
       | ROOM \<Rightarrow> Some (BroadcastRoomReq (push_room m) 1 (mk_proto (push_body m)))
       | BROADCAST \<Rightarrow> Some (BroadcastReq (push_operation m) (push_speed m) 1 (mk_proto (push_body m)))
       | OtherType t \<Rightarrow> None))"

abbreviation gate_frame :: "(gate_request \<Rightarrow> string) \<Rightarrow> 64 word \<Rightarrow> gate_request \<Rightarrow> rpc_frame" where
  "gate_frame ser i q \<equiv> request_frame i ''gate.Gate'' (gate_method q) (ser q)"

lemma HandleKafkaMessage_none: "job_request parse m = None \<Longrightarrow> HandleKafkaMessage ser parse m ch = Inr ([], ch)"
  by (auto simp: job_request_def HandleKafkaMessage_def job_push_def split: kafka_error.splits option.splits push_type.splits if_splits)

lemma HandleKafkaMessage_call:
  assumes "job_request parse m = Some q" "ch_conn ch = Some c" "rpc_valid (gate_frame ser 0 q)"
  shows "\<exists>b ch'. HandleKafkaMessage ser parse m ch = Inr ([b], ch') \<and> ch_conn ch' = Some c \<and> ch_id ch' = ch_id ch + 1 \<and>
     buf_inv b \<and> content b = rpc_encode (gate_frame ser (ch_id ch) q)"
proof -
  obtain d where "HandleKafkaMessage ser parse m ch = one_frame (CallMethod ''gate.Gate'' (gate_method q) (ser q) (Some ()) d ch)"
    using assms(1)
    by (auto simp: job_request_def HandleKafkaMessage_def job_push_def pushKeys_def broadcastRoom_def broadcast_def GateRpcClient_PushMsg_def
        GateRpcClient_BroadcastRoom_def GateRpcClient_Broadcast_def split: kafka_error.splits option.splits push_type.splits if_splits)
  moreover obtain b where "CallMethod ''gate.Gate'' (gate_method q) (ser q) (Some ()) d ch = Inr (b, ch\<lparr>ch_id := ch_id ch + 1,
      outstandings := (outstandings ch)(ch_id ch \<mapsto> \<lparr>oc_response = Some (), oc_done = d\<rparr>)\<rparr>)"
    "buf_inv b" "content b = rpc_encode (gate_frame ser (ch_id ch) q)"
    using CallMethod_Inr [OF assms(2,3), of "Some ()" d] by blast
  ultimately show ?thesis using assms(2) by (simp add: one_frame_def)
qed

text \<open>The messages a consumer returns in \<open>n\<close> rounds.\<close>

fun consumed :: "nat \<Rightarrow> 'k rdkafka \<Rightarrow> 'k \<Rightarrow> kafka_message list" where
  "consumed 0 K h = []"
| "consumed (Suc n) K h = (let (m, h) = rd_consume K h in m # consumed n K h)"

text \<open>What the gate's channel does with the frames, one after the other.\<close>

fun gate_receives :: "nat \<Rightarrow> ('r, 'd, 'm, 'q) RpcChannel \<Rightarrow> Buffer list \<Rightarrow> ('m \<times> 'q) list result" where
  "gate_receives c server [] = Inr []"
| "gate_receives c server (b # bs) = rbind (rpc_transfer b) (\<lambda>evs.
     rbind (gate_receives c server bs) (\<lambda>qs.
     Inr (concat (map (\<lambda>ev. case onRpcMessage (\<lambda>_ _ _. None) (Some c) ev server of
            Inr ([Dispatched m q name], _) \<Rightarrow> [(m, q)] | _ \<Rightarrow> []) evs) @ qs)))"

text \<open>What protobuf promises of the gate's service for a request: its method is found by name, as the codec hands it over, and the parser of the
  method inverts the serialiser.\<close>

definition gate_rpc :: "(gate_request \<Rightarrow> string) \<Rightarrow> (string, gate_request) Service \<Rightarrow> gate_request \<Rightarrow> bool" where
  "gate_rpc ser svc q \<longleftrightarrow> FindMethodByName svc (gate_method q @ [NUL]) = Some (gate_method q) \<and>
     parse_request svc (gate_method q) (ser q) (int (length (ser q))) = Some q"

definition gate_side :: "(string, gate_request) Service \<Rightarrow> nat \<Rightarrow> (unit, unit, string, gate_request) RpcChannel" where
  "gate_side svc c = onConnection [''gate.Gate'' \<mapsto> svc] c"

lemma frame_received:
  assumes "gate_rpc ser svc q" "rpc_valid (gate_frame ser 0 q)" "i < 2 ^ 63" "content b = rpc_encode (gate_frame ser i q)"
  shows "gate_receives c (gate_side svc c) (b # bs) =
    rbind (gate_receives c (gate_side svc c) bs) (\<lambda>qs. Inr ((gate_method q, q) # qs))"
proof -
  have "rpc_valid (gate_frame ser i q)" using assms(2) by (simp add: rpc_valid_def rpc_len_def request_frame_def)
  from rpc_transfer_frame [OF this assms(4)] have
    t: "rpc_transfer b = Inr [RpcMessage False i ''gate.Gate'' (gate_method q @ [NUL]) (ser q) (int (length (ser q)))]"
    by (simp add: deliver_request [OF assms(3)])
  show ?thesis using assms(1) by (simp add: t gate_rpc_def onRpcMessage_def on_request_def gate_side_def onConnection_def mkRpcChannel_def)
qed

lemma job_loop_forwards:
  assumes "ch_conn (rpcclient js) = Some c" "consumer_handle (kafkaconsumer js) = Some h" "unat (ch_id (rpcclient js)) + n \<le> 2 ^ 63"
    and "\<forall>q \<in> set (List.map_filter (job_request parse) (consumed n K h)). gate_rpc ser svc q \<and> rpc_valid (gate_frame ser 0 q)"
  shows "\<exists>bs js'. job_loop n K ser parse js = Inr (bs, js') \<and>
     gate_receives c' (gate_side svc c') bs =
       Inr (map (\<lambda>q. (gate_method q, q)) (List.map_filter (job_request parse) (consumed n K h)))"
  using assms
proof (induction n arbitrary: js h)
  case (Suc n)
  obtain m h1 where m: "rd_consume K h = (m, h1)" by fastforce
  have c: "consumed (Suc n) K h = m # consumed n K h1" by (simp add: m)
  let ?qs = "List.map_filter (job_request parse) (consumed n K h1)"
  have valid: "gate_rpc ser svc q \<and> rpc_valid (gate_frame ser 0 q)" if "q \<in> set ?qs \<or> job_request parse m = Some q" for q
    using Suc.prems(4) that unfolding c by (auto simp: List.map_filter_simps split: option.splits)
  show ?case
  proof (cases "job_request parse m")
    case None
    let ?js = "js\<lparr>rpcclient := rpcclient js, kafkaconsumer := (kafkaconsumer js)\<lparr>consumer_handle := Some h1\<rparr>\<rparr>"
    have "StartConsum K ser parse js = Inr ([], ?js)"
      by (simp add: StartConsum_def consumer_Start_def Suc.prems(2) m HandleKafkaMessage_none [OF None])
    moreover obtain bs js' where "job_loop n K ser parse ?js = Inr (bs, js')" "gate_receives c' (gate_side svc c') bs =
       Inr (map (\<lambda>q. (gate_method q, q)) (List.map_filter (job_request parse) (consumed n K h1)))"
      using Suc.IH [of ?js h1] Suc.prems(1,3) valid by force
    ultimately show ?thesis using c None by (simp add: List.map_filter_simps)
  next
    case (Some q)
    have v: "gate_rpc ser svc q" "rpc_valid (gate_frame ser 0 q)" using valid Some by simp_all
    obtain b ch' where b: "HandleKafkaMessage ser parse m (rpcclient js) = Inr ([b], ch')" "ch_conn ch' = Some c" "ch_id ch' = ch_id (rpcclient js) + 1"
      "content b = rpc_encode (gate_frame ser (ch_id (rpcclient js)) q)"
      using HandleKafkaMessage_call [where ser = ser, OF Some Suc.prems(1) v(2)] by auto
    let ?js = "js\<lparr>rpcclient := ch', kafkaconsumer := (kafkaconsumer js)\<lparr>consumer_handle := Some h1\<rparr>\<rparr>"
    have "StartConsum K ser parse js = Inr ([b], ?js)" by (simp add: StartConsum_def consumer_Start_def Suc.prems(2) m b(1))
    moreover have id: "unat (ch_id ch') = unat (ch_id (rpcclient js)) + 1" "ch_id (rpcclient js) < 2 ^ 63"
      using Suc.prems(3) b(3) by (simp_all add: unat_word_ariths(1) word_less_nat_alt)
    moreover obtain bs js' where bs: "job_loop n K ser parse ?js = Inr (bs, js')" "gate_receives c' (gate_side svc c') bs =
       Inr (map (\<lambda>q. (gate_method q, q)) (List.map_filter (job_request parse) (consumed n K h1)))"
      using Suc.IH [of ?js h1] Suc.prems(3) b(2) id(1) valid by force
    moreover note frame_received [where ser = ser and q = q and c = c' and bs = bs, OF v id(2) b(4)]
    ultimately show ?thesis using c Some by (simp add: List.map_filter_simps)
  qed
qed (simp add: List.map_filter_simps)


definition sample_kafka :: "kafka_message list rdkafka" where
  "sample_kafka = \<lparr>rd_create = (\<lambda>_. Some []), rd_subscribe = (\<lambda>_ h. h),
     rd_consume = (\<lambda>h. case h of [] \<Rightarrow> (\<lparr>message_err = ERR__TIMED_OUT, message_payload = []\<rparr>, []) | m # h \<Rightarrow> (m, h)), rd_close = (\<lambda>h. h)\<rparr>"

definition sample_parse :: "string \<Rightarrow> push_msg option" where
  "sample_parse s = (if s = ''m'' then Some (mk_push_msg\<lparr>push_keys := [''k''], push_body := ''hi''\<rparr>) else None)"

definition sample_request :: gate_request where
  "sample_request = PushMsgReq [''k''] 0 1 (mk_proto ''hi'')"

definition sample_service :: "(string, gate_request) Service" where
  "sample_service = \<lparr>full_name = ''gate.Gate'', FindMethodByName = (\<lambda>s. Some (butlast s)),
     parse_request = (\<lambda>m data n. if data = ''q'' then Some sample_request else None)\<rparr>"


end
