(* ===== verification/LogicKeys.thy ===== *)
theory LogicKeys
  imports LogicModel JsonStrings
begin

text \<open>
  The keys of the logic server: what number \<^const>\<open>generateKey\<close> makes of the time, the server and the sequence number, that it always
  returns while the clock goes on, and that no key is given twice.
\<close>

lemma key_id_value:
  assumes "unat sq < 4096"
  shows "unat (key_id t sid sq) = (unat t mod 2 ^ 42) * 2 ^ 22 + (unat sid mod 1024) * 2 ^ 12 + unat sq"
proof -
  have a: "unat (t AND 0x3FFFFFFFFFF) = unat t mod 2 ^ 42" using and_mask_nat [of "unat t" 42] by (simp add: unsigned_and_eq)
  have b: "unat (sid AND 0x3FF) = unat sid mod 1024" using and_mask_nat [of "unat sid" 10] by (simp add: unsigned_and_eq)
  have ta: "(unat t mod 2 ^ 42) * 2 ^ 22 < 2 ^ 64" by simp
  have p: "unat (push_bit 22 (t AND 0x3FFFFFFFFFF)) = (unat t mod 2 ^ 42) * 2 ^ 22"
    unfolding unsigned_push_bit_eq a by (simp add: push_bit_eq_mult take_bit_nat_eq_self)
  have q': "unat (push_bit 12 (sid AND 0x3FF)) = (unat sid mod 1024) * 2 ^ 12"
    unfolding unsigned_push_bit_eq b by (simp add: push_bit_eq_mult take_bit_nat_eq_self)
  have q: "unat (ucast (push_bit 12 (sid AND 0x3FF)) :: 64 word) = (unat sid mod 1024) * 2 ^ 12"
    unfolding unsigned_ucast_eq q' by (simp add: take_bit_nat_eq_self)
  have s: "unat (ucast sq :: 64 word) = unat sq" unfolding unsigned_ucast_eq using assms by (simp add: take_bit_nat_eq_self)
  have o1: "(unat t mod 2 ^ 42) * 2 ^ 22 OR (unat sid mod 1024) * 2 ^ 12 = (unat t mod 2 ^ 42) * 2 ^ 22 + (unat sid mod 1024) * 2 ^ 12"
    using or_shift_nat [of "(unat sid mod 1024) * 2 ^ 12" 22 "unat t mod 2 ^ 42"] by (simp add: push_bit_eq_mult or.commute)
  let ?hi = "(unat t mod 2 ^ 42) * 2 ^ 10 + unat sid mod 1024"
  have pb: "push_bit 12 x = x * 4096" for x :: nat by (simp add: push_bit_eq_mult)
  have hi: "(unat t mod 2 ^ 42) * 2 ^ 22 + (unat sid mod 1024) * 2 ^ 12 = push_bit 12 ?hi" unfolding pb by (simp add: distrib_right)
  have o2: "push_bit 12 ?hi OR unat sq = unat sq + ?hi * 2 ^ 12"
    using or_shift_nat [of "unat sq" 12 ?hi] assms by (simp add: or.commute)
  have "unat (key_id t sid sq) = push_bit 12 ?hi OR unat sq" unfolding key_id_def unsigned_or_eq p q s o1 hi by (rule refl)
  then show ?thesis unfolding o2 by simp
qed

lemma and_4095_less: "unat (x AND 0xFFF :: 16 word) < 4096"
  using and_mask_nat [of "unat x" 12] by (simp add: unsigned_and_eq)

lemma seq_step:
  assumes "unat x < 4096" "(x + 1) AND 0xFFF \<noteq> (0 :: 16 word)"
  shows "unat x < unat ((x + 1) AND 0xFFF)"
proof -
  have u: "unat (x + 1) = unat x + 1" using assms(1) by (simp add: unat_add_lem [THEN iffD1] unat_word_ariths)
  have m: "unat ((x + 1) AND 0xFFF) = (unat x + 1) mod 4096" using and_mask_nat [of "unat (x + 1)" 12] u by (simp add: unsigned_and_eq)
  have "(unat x + 1) mod 4096 \<noteq> 0" using assms(2) m by (metis unsigned_0 word_unat_eq_iff)
  then show ?thesis using assms(1) m by (cases "unat x = 4095") simp_all
qed

subsection \<open>Waiting\<close>

lemma wait_tick_returns:
  assumes "clock j \<noteq> lastt" "pos \<le> j"
  shows "\<exists>i. pos \<le> i \<and> clock i \<noteq> lastt \<and> wait_tick clock lastt lastt pos = Some (clock i, i + 1)"
  using assms(2)
proof (induction "j - pos" arbitrary: pos)
  case 0
  then have "pos = j" by simp
  then have "wait_tick clock lastt lastt pos = Some (clock j, j + 1)" using assms(1) by (subst wait_tick.simps, subst wait_tick.simps) auto
  then show ?case using \<open>pos = j\<close> assms(1) by blast
next
  case (Suc n)
  show ?case
  proof (cases "clock pos = lastt")
    case True
    then have "wait_tick clock lastt lastt pos = wait_tick clock lastt lastt (pos + 1)" by (subst wait_tick.simps) simp
    moreover have "n = j - (pos + 1)" "pos + 1 \<le> j" using Suc.hyps(2) by simp_all
    ultimately show ?thesis using Suc.hyps(1) [of "pos + 1"] by (metis Suc_leD Suc_eq_plus1)
  next
    case False
    then have "wait_tick clock lastt lastt pos = Some (clock pos, pos + 1)" by (subst wait_tick.simps, subst wait_tick.simps) auto
    then show ?thesis using False by blast
  qed
qed

subsection \<open>One key\<close>

text \<open>A clock that never stands still for ever, and does not go back while it shows less than 42 bits of milliseconds (139 years after
  1970).\<close>

definition good_clock :: "(nat \<Rightarrow> 64 word) \<Rightarrow> bool" where
  "good_clock clock \<longleftrightarrow> (\<forall>i. \<exists>j > i. clock j \<noteq> clock i) \<and> (\<forall>i j. i \<le> j \<longrightarrow> unat (clock j) < 2 ^ 42 \<longrightarrow> unat (clock i) \<le> unat (clock j))"

definition keys_inv :: "(nat \<Rightarrow> 64 word) \<Rightarrow> 'c LogicServer \<Rightarrow> bool" where
  "keys_inv clock s \<longleftrightarrow> unat (seqID s) < 4096 \<and> (case lastTimestamp s of None \<Rightarrow> True | Some t \<Rightarrow> \<exists>i < clock_pos s. clock i = t)"

text \<open>The number of the last key.\<close>

definition last_id :: "'c LogicServer \<Rightarrow> nat" where
  "last_id s = (case lastTimestamp s of None \<Rightarrow> 0 | Some t \<Rightarrow> unat (key_id t (logic_serverid s) (seqID s)))"

lemma later_differs:
  assumes "good_clock clock"
  obtains j where "pos \<le> j" "clock j \<noteq> t"
proof -
  obtain j where "pos < j" "clock j \<noteq> clock pos" using assms unfolding good_clock_def by blast
  then show ?thesis using that [of j] that [of pos] by (cases "clock pos = t") auto
qed

text \<open>What a call does: it takes a reading not before the ones it has taken, and a sequence number that is new for this reading.\<close>

definition key_step :: "(nat \<Rightarrow> 64 word) \<Rightarrow> 'c LogicServer \<Rightarrow> 'c LogicServer \<Rightarrow> bool" where
  "key_step clock s s' \<longleftrightarrow> keys_inv clock s' \<and> logic_serverid s' = logic_serverid s \<and>
     (\<exists>i \<ge> clock_pos s. lastTimestamp s' = Some (clock i) \<and>
        (\<forall>t. lastTimestamp s = Some t \<longrightarrow> t = clock i \<longrightarrow> unat (seqID s) < unat (seqID s')))"

lemma generateKey_step:
  assumes "good_clock clock" "keys_inv clock s"
  shows "\<exists>s'. generateKey clock s = Some (dec_of_nat (last_id s'), s') \<and> key_step clock s s'"
proof -
  define lastt pos where lp: "lastt = (case lastTimestamp s of None \<Rightarrow> clock (clock_pos s) | Some t \<Rightarrow> t)"
    "pos = (case lastTimestamp s of None \<Rightarrow> clock_pos s + 1 | Some t \<Rightarrow> clock_pos s)"
  have pos: "clock_pos s \<le> pos" "\<exists>i < pos. clock i = lastt"
    using assms(2) by (auto simp: lp keys_inv_def split: option.splits)
  have g: "generateKey clock s = (case (if lastt = clock pos then
             (let sq = (seqID s + 1) AND 0xFFF in
              if sq = 0 then map_option (\<lambda>(t, pos). (sq, t, pos)) (wait_tick clock lastt (clock pos) (pos + 1)) else Some (sq, clock pos, pos + 1))
           else Some (0, clock pos, pos + 1)) of
       None \<Rightarrow> None
     | Some (sq, timestamp, pos) \<Rightarrow>
         Some (dec_of_nat (unat (key_id timestamp (logic_serverid s) sq)), s\<lparr>lastTimestamp := Some timestamp, seqID := sq, clock_pos := pos\<rparr>))"
    by (simp add: generateKey_def lp Let_def split: option.split)
  have sq: "unat (seqID s) < 4096" using assms(2) by (simp add: keys_inv_def)
  have finish: ?thesis if e: "generateKey clock s = Some (dec_of_nat (unat (key_id (clock i) (logic_serverid s) q)),
      s\<lparr>lastTimestamp := Some (clock i), seqID := q, clock_pos := i + 1\<rparr>)" and i: "clock_pos s \<le> i" and q: "unat q < 4096"
      "lastTimestamp s = Some (clock i) \<Longrightarrow> unat (seqID s) < unat q" for i q
  proof (intro exI conjI)
    let ?s = "s\<lparr>lastTimestamp := Some (clock i), seqID := q, clock_pos := i + 1\<rparr>"
    show "generateKey clock s = Some (dec_of_nat (last_id ?s), ?s)" using e by (simp add: last_id_def)
    have "keys_inv clock ?s" using q(1) by (auto simp: keys_inv_def)
    then show "key_step clock s ?s" using i q(2) by (auto simp: key_step_def)
  qed
  consider (new) "lastt \<noteq> clock pos" | (same) "lastt = clock pos" "(seqID s + 1) AND 0xFFF \<noteq> 0"
    | (full) "lastt = clock pos" "(seqID s + 1) AND 0xFFF = 0" by blast
  then show ?thesis
  proof cases
    case new
    show ?thesis by (rule finish [of pos 0]) (use new pos(1) in \<open>auto simp: g lp split: option.splits\<close>)
  next
    case same
    show ?thesis
      by (rule finish [of pos "(seqID s + 1) AND 0xFFF"]) (use same pos(1) seq_step [OF sq same(2)] in \<open>auto simp: g Let_def and_4095_less\<close>)
  next
    case full
    obtain j where j: "pos + 1 \<le> j" "clock j \<noteq> lastt" by (rule later_differs [OF assms(1)])
    obtain i where i: "pos + 1 \<le> i" "clock i \<noteq> lastt" "wait_tick clock lastt lastt (pos + 1) = Some (clock i, i + 1)"
      using wait_tick_returns [of clock j lastt "pos + 1"] j by blast
    show ?thesis by (rule finish [of i 0]) (use full pos(1) i in \<open>auto simp: g Let_def lp split: option.splits\<close>)
  qed
qed

lemma last_id_less:
  assumes "good_clock clock" "keys_inv clock s" "key_step clock s s'" "lastTimestamp s = Some t" "lastTimestamp s' = Some t'" "unat t' < 2 ^ 42"
  shows "unat t \<le> unat t'" "last_id s < last_id s'"
proof -
  obtain i where i: "i \<ge> clock_pos s" "t' = clock i" "t = t' \<Longrightarrow> unat (seqID s) < unat (seqID s')"
    using assms(3-5) by (auto simp: key_step_def)
  obtain i0 where i0: "i0 < clock_pos s" "clock i0 = t" using assms(2,4) by (auto simp: keys_inv_def)
  have "i0 \<le> i" using i(1) i0(1) by simp
  then show le: "unat t \<le> unat t'" using assms(1,6) i(2) i0(2) unfolding good_clock_def by blast
  have q: "unat (seqID s) < 4096" "unat (seqID s') < 4096" using assms(2,3) by (auto simp: keys_inv_def key_step_def)
  have sid: "logic_serverid s' = logic_serverid s" using assms(3) by (simp add: key_step_def)
  have "unat t < 2 ^ 42" using le assms(6) by linarith
  then have t: "unat t mod 2 ^ 42 = unat t" "unat t' mod 2 ^ 42 = unat t'" using assms(6) mod_less by blast+
  define m where "m = unat (logic_serverid s) mod 1024"
  have m: "m < 1024" by (simp add: m_def)
  have v: "last_id s = unat t * 2 ^ 22 + m * 2 ^ 12 + unat (seqID s)" "last_id s' = unat t' * 2 ^ 22 + m * 2 ^ 12 + unat (seqID s')"
    by (simp_all only: last_id_def assms(4,5) option.case key_id_value [OF q(1)] key_id_value [OF q(2)] t sid m_def)
  show "last_id s < last_id s'"
  proof (cases "t = t'")
    case True
    then show ?thesis using v i(3) by simp
  next
    case False
    then have "unat t \<noteq> unat t'" by (simp add: word_unat_eq_iff)
    then have "unat t + 1 \<le> unat t'" using le by linarith
    then have "(unat t + 1) * 2 ^ 22 \<le> unat t' * 2 ^ 22" by (rule mult_le_mono1)
    then show ?thesis unfolding v using m q(1) by simp
  qed
qed

subsection \<open>Runs\<close>

fun key_run :: "(nat \<Rightarrow> 64 word) \<Rightarrow> nat \<Rightarrow> 'c LogicServer \<Rightarrow> (string list \<times> 'c LogicServer) option" where
  "key_run clock 0 s = Some ([], s)"
| "key_run clock (Suc n) s = (case generateKey clock s of None \<Rightarrow> None | Some (k, s) \<Rightarrow>
     (case key_run clock n s of None \<Rightarrow> None | Some (ks, s) \<Rightarrow> Some (k # ks, s)))"

lemma key_run_increasing:
  assumes "good_clock clock" "keys_inv clock s"
  shows "\<exists>ids s'. key_run clock n s = Some (map dec_of_nat ids, s') \<and> length ids = n \<and>
     (\<forall>t t'. lastTimestamp s = Some t \<longrightarrow> lastTimestamp s' = Some t' \<longrightarrow> unat t' < 2 ^ 42 \<longrightarrow>
        unat t \<le> unat t' \<and> sorted_wrt (<) (last_id s # ids)) \<and>
     (n \<noteq> 0 \<longrightarrow> (\<forall>t'. lastTimestamp s' = Some t' \<longrightarrow> unat t' < 2 ^ 42 \<longrightarrow> sorted_wrt (<) ids)) \<and>
     (\<forall>x \<in> set ids. x div 2 ^ 12 mod 1024 = unat (logic_serverid s) mod 1024)"
  using assms(2)
proof (induction n arbitrary: s)
  case (Suc n)
  obtain s1 where s1: "generateKey clock s = Some (dec_of_nat (last_id s1), s1)" "key_step clock s s1"
    using generateKey_step [OF assms(1) Suc.prems] by blast
  have inv1: "keys_inv clock s1" and sid: "logic_serverid s1 = logic_serverid s" using s1(2) by (simp_all add: key_step_def)
  obtain t1 where t1: "lastTimestamp s1 = Some t1" using s1(2) by (auto simp: key_step_def)
  obtain ids s' where r: "key_run clock n s1 = Some (map dec_of_nat ids, s')" "length ids = n"
    "\<And>t'. lastTimestamp s' = Some t' \<Longrightarrow> unat t' < 2 ^ 42 \<Longrightarrow> unat t1 \<le> unat t' \<and> sorted_wrt (<) (last_id s1 # ids)"
    "\<forall>x \<in> set ids. x div 2 ^ 12 mod 1024 = unat (logic_serverid s) mod 1024"
    using Suc.IH [OF inv1] t1 sid by auto
  have q: "unat (seqID s1) < 4096" using inv1 by (simp add: keys_inv_def)
  have "last_id s1 = (unat t1 mod 2 ^ 42) * 2 ^ 22 + (unat (logic_serverid s) mod 1024) * 2 ^ 12 + unat (seqID s1)"
    by (simp add: last_id_def t1 key_id_value [OF q] sid)
  then have "last_id s1 div 2 ^ 12 = (unat t1 mod 2 ^ 42) * 1024 + unat (logic_serverid s) mod 1024"
    using q by (simp add: div_add1_eq [of "_ * 4194304 + _"] ) 
  then have d: "last_id s1 div 2 ^ 12 mod 1024 = unat (logic_serverid s) mod 1024" by simp
  have first: "unat t \<le> unat t' \<and> last_id s < last_id s1" if "lastTimestamp s = Some t" "lastTimestamp s' = Some t'" "unat t' < 2 ^ 42" for t t'
    using last_id_less [OF assms(1) Suc.prems s1(2) that(1) t1] r(3) [OF that(2,3)] that(3) by simp
  have "key_run clock (Suc n) s = Some (map dec_of_nat (last_id s1 # ids), s')" using s1(1) r(1) by simp
  then show ?case using r(2-4) first d by (intro exI [of _ "last_id s1 # ids"] exI [of _ s']) fastforce
qed simp


definition sample_clock :: "nat \<Rightarrow> 64 word" where
  "sample_clock i = (if i < 5 then of_nat i else of_nat (2 ^ 42 + i mod 2))"

lemma sample_clock_good: "good_clock sample_clock"
proof -
  have u: "unat (of_nat n :: 64 word) = n" if "n < 2 ^ 64" for n using that unfolding unsigned_of_nat by (simp add: take_bit_nat_eq_self)
  have v: "unat (sample_clock i) = (if i < 5 then i else 2 ^ 42 + i mod 2)" for i
  proof -
    have "i mod 2 < 2" by simp
    then have "2 ^ 42 + i mod 2 < (2 :: nat) ^ 64" by simp
    then have "unat (of_nat (2 ^ 42 + i mod 2) :: 64 word) = 2 ^ 42 + i mod 2" by (rule u)
    moreover have "unat (of_nat i :: 64 word) = i" if "i < 5" using that by (intro u) simp
    ultimately show ?thesis unfolding sample_clock_def by simp
  qed
  have "\<exists>j > i. sample_clock j \<noteq> sample_clock i" for i
  proof (cases "i < 4")
    case True
    then have "unat (sample_clock (i + 1)) \<noteq> unat (sample_clock i)" by (simp add: v)
    then show ?thesis by (intro exI [of _ "i + 1"]) auto
  next
    case False
    then have "unat (sample_clock (i + 1)) \<noteq> unat (sample_clock i)" by (cases "i = 4") (simp add: v, simp add: v, presburger)
    then show ?thesis by (intro exI [of _ "i + 1"]) auto
  qed
  moreover have "unat (sample_clock i) \<le> unat (sample_clock j)" if "i \<le> j" "unat (sample_clock j) < 2 ^ 42" for i j
    using that unfolding v by (simp split: if_splits)
  ultimately show ?thesis unfolding good_clock_def by blast
qed

definition sample_logic :: "32 word \<Rightarrow> 'c LogicServer" where
  "sample_logic sid = \<lparr>logic_serverid = sid, lastTimestamp = None, seqID = 0, clock_pos = 0, push_redis = mkRedisClient ''127.0.0.1'' 6379 [] 0,
     service_redis = mkRedisClient ''127.0.0.1'' 6379 [] 0, kafkaproducer = \<lparr>producer_topic = ''cppim'', producer_created = True\<rparr>\<rparr>"


end
