(* ===== verification/LogicPush.thy ===== *)
theory LogicPush
  imports LogicModel "HOL-Library.Multiset"
begin

text \<open>
  Registration and pushing of the logic server on a Redis server that behaves as documented: what \<^const>\<open>addServerMap\<close> stores, which keys a push
  to users finds and how it groups them, and where a push by keys and the shared callback go wrong.
\<close>

subsection \<open>Words\<close>

lemma dec_of_nat_plain: "plain_word (dec_of_nat n)"
proof -
  have "c \<noteq> CHR '' ''" "c \<noteq> CHR ''%''" "c \<noteq> CHR 0x00" if "c \<in> set (dec_of_nat n)" for c
    using that dec_of_nat_digits [of n] by (auto simp: is_base_digit_def digit_val_def list_all_iff)
  then show ?thesis using dec_of_nat_nonempty by (auto simp: plain_word_def)
qed

lemma plain_word_append: "plain_word u \<Longrightarrow> plain_word v \<Longrightarrow> plain_word (u @ v)"
  by (auto simp: plain_word_def)

lemma keyMidServer_plain: "plain_word (keyMidServer mid)"
  unfolding keyMidServer_def dec_of_int_def
  by (intro plain_word_append) (simp add: plain_word_def, use dec_of_nat_plain in \<open>auto simp: plain_word_def\<close>)

lemma keyKeyServer_plain: "plain_word key \<Longrightarrow> plain_word (keyKeyServer key)"
  unfolding keyKeyServer_def by (intro plain_word_append) (simp_all add: plain_word_def)

lemma key_names_differ: "keyMidServer mid \<noteq> keyKeyServer key" "keyKeyServer key \<noteq> keyMidServer mid"
  by (simp_all add: keyMidServer_def keyKeyServer_def)

lemma dec_of_int_inj: "dec_of_int i = dec_of_int j \<Longrightarrow> i = j"
proof -
  have hd: "hd (dec_of_nat n) \<noteq> CHR ''-''" for n
    using dec_of_nat_digits [of n] dec_of_nat_nonempty [of n] by (cases "dec_of_nat n") (auto simp: is_base_digit_def digit_val_def)
  assume "dec_of_int i = dec_of_int j"
  then show "i = j" using hd [of "nat i"] hd [of "nat j"] dec_of_nat_nonempty
    by (auto simp: dec_of_int_def split: if_splits dest!: dec_of_nat_inj) (metis list.sel(1))+
qed

subsection \<open>Registration\<close>

text \<open>The store after \<^const>\<open>addServerMap\<close>.\<close>

definition registered :: "32 word \<Rightarrow> string \<Rightarrow> string \<Rightarrow> store \<Rightarrow> store" where
  "registered mid key server st = st\<lparr>strs := (strs st)(keyKeyServer key \<mapsto> server),
     hashes := (hashes st)(keyMidServer mid \<mapsto> AList.update key server (hash_of st (keyMidServer mid)), keyKeyServer key := None)\<rparr>"

lemma addServerMap_documented:
  assumes "redis_documented H view queue" "client_ready H queue r" "plain_word key" "plain_word server"
    and "strs (view w) (keyMidServer mid) = None"
  obtains r' w' where "addServerMap H mid key server (r, w) = Inr (r', w')" "client_ready H queue r'" "view w' = registered mid key server (view w)"
proof -
  let ?cmds = "[[''HSET'', keyMidServer mid, key, server], [''EXPIRE'', keyMidServer mid, dec_of_nat (30 * 60)],
    [''SET'', keyKeyServer key, server], [''EXPIRE'', keyKeyServer key, dec_of_nat (30 * 60)]]"
  have c: "addServerMap H mid key server (r, w) = PipeLine H (map command_text ?cmds) (r, w)" by (simp add: addServerMap_def command_text_def)
  have p: "plain_word ''HSET''" "plain_word ''EXPIRE''" "plain_word ''SET''" by (simp_all add: plain_word_def)
  have "list_all (\<lambda>ws. ws \<noteq> [] \<and> list_all plain_word ws) ?cmds"
    using assms(3,4) keyMidServer_plain keyKeyServer_plain [OF assms(3)] dec_of_nat_plain p by simp
  from PipeLine_documented [OF assms(1) this assms(2), of w] obtain r' w' where r': "PipeLine H (map command_text ?cmds) (r, w) = Inr (r', w')"
    "client_ready H queue r'" "view w' = exec_all ?cmds (view w)" .
  have "exec_all ?cmds (view w) = registered mid key server (view w)"
    using assms(5) by (simp add: redis_exec_def registered_def fun_upd_twist [OF key_names_differ(1)])
  then show ?thesis using that r' c by simp
qed

subsection \<open>Grouping by server\<close>

text \<open>An order in which a map is iterated has every key once.\<close>

definition iteration_order :: "(string list \<Rightarrow> string list) \<Rightarrow> bool" where
  "iteration_order ord \<longleftrightarrow> (\<forall>ks. mset (ord ks) = mset ks)"

lemma iteration_orderD: "iteration_order ord \<Longrightarrow> set (ord ks) = set ks" "iteration_order ord \<Longrightarrow> distinct (ord ks) = distinct ks"
  unfolding iteration_order_def by (metis mset_eq_setD, metis mset_eq_imp_distinct_iff)

lemma map_of_server_push:
  "map_of (server_push sv k m) q = (if q = sv then Some (case map_of m sv of None \<Rightarrow> [k] | Some ks \<Rightarrow> ks @ [k]) else map_of m q)"
  by (cases "map_of m sv") (auto simp: server_push_def map_add_def update_conv' split: option.splits)

lemma distinct_server_push: "distinct (map fst m) \<Longrightarrow> distinct (map fst (server_push sv k m))"
  by (auto simp: server_push_def map_of_eq_None_iff distinct_update split: option.splits)

lemma group_by_server:
  fixes f :: "string \<Rightarrow> string"
  defines "g \<equiv> \<lambda>ks. fold (\<lambda>k m. server_push (f k) k m) ks []"
  shows "distinct (map fst (g ks))"
    and "map_of (g ks) sv = (let l = filter (\<lambda>k. f k = sv) ks in if l = [] then None else Some l)"
proof (induction ks rule: rev_induct)
  case (snoc k ks)
  { case 1 show ?case using snoc by (simp add: g_def distinct_server_push) }
  { case 2 show ?case using snoc by (auto simp: g_def map_of_server_push Let_def) }
qed (simp_all add: g_def)

lemma groups_by_server:
  fixes f :: "string \<Rightarrow> string"
  assumes "g = fold (\<lambda>k m. server_push (f k) k m) ks []"
  shows "distinct (map fst g)" and "set (map fst g) = f ` set ks" and "sv \<in> f ` set ks \<Longrightarrow> map_of g sv = Some (filter (\<lambda>k. f k = sv) ks)"
proof -
  have g: "map_of g sv = (if filter (\<lambda>k. f k = sv) ks = [] then None else Some (filter (\<lambda>k. f k = sv) ks))" for sv
    using group_by_server(2) [of f ks sv] by (simp add: assms Let_def)
  show "distinct (map fst g)" unfolding assms by (rule group_by_server(1))
  have "sv \<in> set (map fst g) \<longleftrightarrow> sv \<in> f ` set ks" for sv
  proof -
    have "sv \<in> set (map fst g) \<longleftrightarrow> map_of g sv \<noteq> None" by (simp add: map_of_eq_None_iff)
    also have "\<dots> \<longleftrightarrow> filter (\<lambda>k. f k = sv) ks \<noteq> []" unfolding g by simp
    finally show ?thesis by (auto simp: filter_empty_conv)
  qed
  then show "set (map fst g) = f ` set ks" by blast
  show "map_of g sv = Some (filter (\<lambda>k. f k = sv) ks)" if "sv \<in> f ` set ks" using that unfolding g by (auto simp: filter_empty_conv)
qed

subsection \<open>Push to users\<close>

text \<open>The keys of the users and their servers; a later user of the list wins.\<close>

fun users_keys :: "store \<Rightarrow> 32 word list \<Rightarrow> string \<Rightarrow> string option" where
  "users_keys st [] = Map.empty"
| "users_keys st (mid # mids) = map_of (hash_of st (keyMidServer mid)) ++ users_keys st mids"

lemma map_of_assign_all:
  "map_of (fold (\<lambda>k m. AList.update k (f k) m) ks m0) = map_of m0 ++ (\<lambda>k. if k \<in> set ks then Some (f k) else None)"
  by (induction ks arbitrary: m0) (auto simp: update_conv' map_add_def fun_eq_iff split: option.splits)

lemma map_of_keys: "(\<lambda>k. if k \<in> set (map fst m) then Some (the (map_of m k)) else None) = map_of m"
proof
  fix k
  show "(if k \<in> set (map fst m) then Some (the (map_of m k)) else None) = map_of m k"
    using map_of_eq_None_iff [of m k] by (cases "map_of m k") simp_all
qed

lemma distinct_assign_all: "distinct (map fst m0) \<Longrightarrow> distinct (map fst (fold (\<lambda>k m. AList.update k (f k) m) ks m0))"
  by (induction ks arbitrary: m0) (auto simp: distinct_update)

lemma collect_mids_documented:
  assumes "redis_documented H view queue" "client_ready H queue r" "iteration_order ord"
    and "\<forall>mid \<in> set mids. strs (view w) (keyMidServer mid) = None" "distinct (map fst ks)"
  shows "\<exists>ks' r' w'. collect_mids H ord mids ks (r, w) = Inr (ks', r', w') \<and> distinct (map fst ks') \<and>
     map_of ks' = map_of ks ++ users_keys (view w) mids \<and> client_ready H queue r' \<and> view w' = view w"
  using assms(2,4,5)
proof (induction mids arbitrary: ks r w)
  case (Cons mid mids)
  obtain m r1 w1 where m: "HGetAll H (keyMidServer mid) (r, w) = Inr (m, r1, w1)" "map_of m = map_of (hash_of (view w) (keyMidServer mid))"
    "client_ready H queue r1" "view w1 = view w"
    by (rule HGetAll_documented [OF assms(1) Cons.prems(1), of w "keyMidServer mid"]) (use Cons.prems(2) in auto)
  define ks1 where "ks1 = fold (\<lambda>k m'. AList.update k (the (map_of m k)) m') (ord (map fst m)) ks"
  have "map_of ks1 = map_of ks ++ map_of m"
    unfolding ks1_def map_of_assign_all iteration_orderD(1) [OF assms(3)] map_of_keys ..
  moreover have "distinct (map fst ks1)" unfolding ks1_def by (rule distinct_assign_all [OF Cons.prems(3)])
  ultimately obtain ks' r' w' where "collect_mids H ord mids ks1 (r1, w1) = Inr (ks', r', w')" "distinct (map fst ks')"
    "map_of ks' = (map_of ks ++ map_of m) ++ users_keys (view w) mids" "client_ready H queue r'" "view w' = view w"
    using Cons.IH [OF m(3), of w1 ks1] Cons.prems(2) m(4) by auto
  then show ?case using m(1,2) ks1_def by simp
qed auto

text \<open>The record for one server.\<close>

definition push_to :: "KafkaProducer \<Rightarrow> (push_msg \<Rightarrow> string) \<Rightarrow> 32 word \<Rightarrow> string \<Rightarrow> nat option \<Rightarrow> string \<times> string list \<Rightarrow> kafka_record" where
  "push_to p ser op msg cb sk = \<lparr>kafka_topic = producer_topic p,
     kafka_payload = ser (mk_push_msg\<lparr>push_type := PUSH, push_operation := op, push_server := fst sk, push_keys := snd sk, push_body := msg\<rparr>),
     kafka_opaque = cb\<rparr>"

lemma push_servers_all:
  assumes "producer_created p" "\<forall>sv \<in> set svs. \<exists>ks. map_of m sv = Some ks \<and> ks \<noteq> []"
  shows "push_servers ser m svs op msg cb p = Inr (map (\<lambda>sv. push_to p ser op msg cb (sv, the (map_of m sv))) svs)"
  using assms(2)
proof (induction svs)
  case (Cons sv svs)
  then obtain k ks where "map_of m sv = Some (k # ks)" by (auto simp: neq_Nil_conv)
  then show ?case using Cons assms(1) by (simp add: logic_PushMsg_def Produce_def push_to_def Let_def)
qed simp

lemma PushMsgByMids_records:
  assumes "redis_documented H view queue" "client_ready H queue (push_redis s)" "iteration_order ord" "producer_created (kafkaproducer s)"
    and "\<forall>mid \<in> set mids. strs (view w) (keyMidServer mid) = None"
  obtains groups r' w' where "PushMsgByMids H ser ord mids op msg cb s w =
       Inr (map (push_to (kafkaproducer s) ser op msg cb) groups, s\<lparr>push_redis := r'\<rparr>, w')" "client_ready H queue r'" "view w' = view w"
     "distinct (map fst groups)" "set (map fst groups) = ran (users_keys (view w) mids)"
     "\<And>sv ks. (sv, ks) \<in> set groups \<Longrightarrow> ks \<noteq> [] \<and> distinct ks \<and> set ks = {k. users_keys (view w) mids k = Some sv}"
proof -
  obtain ks r' w' where k: "collect_mids H ord mids [] (push_redis s, w) = Inr (ks, r', w')" "distinct (map fst ks)"
    "map_of ks = users_keys (view w) mids" "client_ready H queue r'" "view w' = view w"
    using collect_mids_documented [OF assms(1-3,5), of "[]"] by auto
  define os where "os = ord (map fst ks)"
  have os: "set os = dom (users_keys (view w) mids)" "distinct os"
    using iteration_orderD [OF assms(3), of "map fst ks"] k(2) by (simp_all add: os_def k(3) [symmetric] dom_map_of_conv_image_fst)
  define g where "g = fold (\<lambda>x m. server_push (the (map_of ks x)) x m) os []"
  note g = groups_by_server [OF g_def]
  define u where "u = users_keys (view w) mids"
  have ku: "map_of ks = u" and osu: "set os = dom u" using k(3) os(1) by (simp_all add: u_def)
  have sel: "set (filter (\<lambda>x. the (u x) = sv) os) = {x. u x = Some sv}" for sv
    unfolding set_filter osu by auto
  have image: "(\<lambda>x. the (u x)) ` set os = ran u" unfolding osu ran_def by force
  define svs where "svs = ord (map fst g)"
  have svs: "set svs = ran u" "distinct svs" using iteration_orderD [OF assms(3), of "map fst g"] g(1,2) image by (simp_all add: svs_def ku)
  define groups where "groups = map (\<lambda>sv. (sv, the (map_of g sv))) svs"
  have some: "\<exists>l. map_of g sv = Some l \<and> l \<noteq> [] \<and> distinct l \<and> set l = {x. u x = Some sv}" if "sv \<in> set svs" for sv
  proof -
    have "sv \<in> ran u" using that svs(1) by simp
    then have "map_of g sv = Some (filter (\<lambda>x. the (u x) = sv) os)" "{x. u x = Some sv} \<noteq> {}"
      using g(3) [of sv] image by (simp add: ku, simp add: ran_def)
    then show ?thesis using sel [of sv] os(2) by (metis distinct_filter empty_set)
  qed
  have "push_servers ser g svs op msg cb (kafkaproducer s) = Inr (map (push_to (kafkaproducer s) ser op msg cb) groups)"
    using push_servers_all [OF assms(4), of svs g] some unfolding groups_def map_map comp_def by blast
  then have "PushMsgByMids H ser ord mids op msg cb s w = Inr (map (push_to (kafkaproducer s) ser op msg cb) groups, s\<lparr>push_redis := r'\<rparr>, w')"
    using k(1) unfolding PushMsgByMids_def by (simp add: os_def [symmetric] g_def [symmetric] svs_def [symmetric])
  moreover have "map fst groups = svs" by (simp add: groups_def comp_def)
  moreover have "l \<noteq> [] \<and> distinct l \<and> set l = {x. u x = Some sv}" if "(sv, l) \<in> set groups" for sv l
    using that some unfolding groups_def by force
  ultimately show ?thesis using that [of groups r' w'] k(4,5) svs unfolding u_def by auto
qed

text \<open>C15: a push to users finds, on a Redis server that behaves as documented, every key under which one of the users is registered, and hands
  Kafka one record per server: each key is in the record of its server and in no other, once, and no record is empty.\<close>

theorem mids_push_each_key_once:
  assumes "redis_documented H view queue" "client_ready H queue (push_redis s)" "iteration_order ord" "producer_created (kafkaproducer s)"
    and "\<forall>mid \<in> set mids. strs (view w) (keyMidServer mid) = None"
  shows "\<exists>groups s' w'. PushMsgByMids H ser ord mids op msg cb s w = Inr (map (push_to (kafkaproducer s) ser op msg cb) groups, s', w') \<and>
     view w' = view w \<and> distinct (map fst groups) \<and> (\<forall>(sv, ks) \<in> set groups. ks \<noteq> [] \<and> distinct ks) \<and>
     (\<forall>k sv. users_keys (view w) mids k = Some sv \<longleftrightarrow> (\<exists>ks. (sv, ks) \<in> set groups \<and> k \<in> set ks))"
proof -
  obtain groups r' w' where g: "PushMsgByMids H ser ord mids op msg cb s w =
       Inr (map (push_to (kafkaproducer s) ser op msg cb) groups, s\<lparr>push_redis := r'\<rparr>, w')" "view w' = view w"
     "distinct (map fst groups)" "set (map fst groups) = ran (users_keys (view w) mids)"
     "\<And>sv ks. (sv, ks) \<in> set groups \<Longrightarrow> ks \<noteq> [] \<and> distinct ks \<and> set ks = {k. users_keys (view w) mids k = Some sv}"
    using PushMsgByMids_records [OF assms] by metis
  have "users_keys (view w) mids k = Some sv \<longleftrightarrow> (\<exists>ks. (sv, ks) \<in> set groups \<and> k \<in> set ks)" for k sv
  proof
    assume k: "users_keys (view w) mids k = Some sv"
    then have "sv \<in> set (map fst groups)" using g(4) by (auto simp: ran_def)
    then obtain ks where "(sv, ks) \<in> set groups" by auto
    then show "\<exists>ks. (sv, ks) \<in> set groups \<and> k \<in> set ks" using g(5) k by blast
  qed (use g(5) in blast)
  then show ?thesis using g by blast
qed

definition sample_store :: store where
  "sample_store = \<lparr>strs = (\<lambda>_. None), hashes = [keyMidServer 5 \<mapsto> [(''k1'', ''g1''), (''k2'', ''g2'')], keyMidServer 6 \<mapsto> [(''k3'', ''g1'')]]\<rparr>"

definition connected_client :: "string list list RedisClient" where
  "connected_client = (mkRedisClient ''127.0.0.1'' 6379 [] 0)\<lparr>context_ptr := Some []\<rparr>"

definition connected_logic :: "string list list LogicServer" where
  "connected_logic = \<lparr>logic_serverid = 1, lastTimestamp = None, seqID = 0, clock_pos = 0, push_redis = connected_client,
     service_redis = connected_client, kafkaproducer = \<lparr>producer_topic = ''cppim'', producer_created = True\<rparr>\<rparr>"

lemma connected_client_ready: "client_ready local_redis (\<lambda>c. c) connected_client"
  by (simp add: client_ready_def connected_client_def mkRedisClient_def local_redis_def)

lemma sample_push_ok:
  "client_ready local_redis (\<lambda>c. c) (push_redis connected_logic)" "iteration_order (\<lambda>ks. ks)" "producer_created (kafkaproducer connected_logic)"
  using connected_client_ready by (simp_all add: connected_logic_def iteration_order_def)

lemma sample_store_mids: "\<forall>mid \<in> set mids. strs sample_store (keyMidServer mid) = None"
  by (simp add: sample_store_def)

lemma sample_mids: "keyMidServer 5 = ''mid_5''" "keyMidServer 6 = ''mid_6''"
  by code_simp+

theorem mids_push_each_key_once_witness:
  "\<exists>groups s' w'. PushMsgByMids local_redis push_body (\<lambda>ks. ks) [5, 6] 9 ''hi'' None connected_logic sample_store =
       Inr (map (push_to (kafkaproducer connected_logic) push_body 9 ''hi'' None) groups, s', w') \<and>
     (\<exists>ks. (''g1'', ks) \<in> set groups \<and> ''k3'' \<in> set ks) \<and> (\<exists>ks. (''g2'', ks) \<in> set groups \<and> ''k2'' \<in> set ks)"
proof -
  have u: "users_keys sample_store [5, 6] ''k3'' = Some ''g1''" "users_keys sample_store [5, 6] ''k2'' = Some ''g2''"
    by (simp_all add: sample_store_def hash_of_def sample_mids)
  obtain groups s' w' where "PushMsgByMids local_redis push_body (\<lambda>ks. ks) [5, 6] 9 ''hi'' None connected_logic sample_store =
       Inr (map (push_to (kafkaproducer connected_logic) push_body 9 ''hi'' None) groups, s', w')"
     "\<forall>k sv. users_keys sample_store [5, 6] k = Some sv \<longleftrightarrow> (\<exists>ks. (sv, ks) \<in> set groups \<and> k \<in> set ks)"
    using mids_push_each_key_once [OF local_redis_documented sample_push_ok sample_store_mids, of push_body "[5, 6]" 9 "''hi''" None]
    by (elim exE conjE) (rule that, assumption+)
  then show ?thesis using u by (intro exI [of _ groups] exI [of _ s'] exI [of _ w'] conjI) simp_all
qed

subsection \<open>The shared callback\<close>

lemma deliver_reports_shared:
  assumes "kafka_opaque r = Some c" "kafka_opaque r' = Some c"
  shows "deliver_reports (r # r' # rs) {} = Inl UseAfterFree"
  using assms by (simp add: dr_cb_def)

text \<open>C27: \<^verbatim>\<open>PushMsgByMids\<close> gives every record the same callback, and the delivery report of each record runs and deletes it. When the users are
  registered on one server the request is answered once; on two servers the second report uses the callback after it has been deleted.\<close>

theorem mids_push_reports:
  assumes "redis_documented H view queue" "client_ready H queue (push_redis s)" "iteration_order ord" "producer_created (kafkaproducer s)"
    and "\<forall>mid \<in> set mids. strs (view w) (keyMidServer mid) = None"
  shows "\<exists>outs s' w'. PushMsgByMids H ser ord mids op msg (Some c) s w = Inr (outs, s', w') \<and>
     deliver_reports outs {} = (let n = card (ran (users_keys (view w) mids)) in
       if n = 0 then Inr ([], {}) else if n = 1 then Inr ([c], {c}) else Inl UseAfterFree)"
proof -
  obtain groups r' w' where g: "PushMsgByMids H ser ord mids op msg (Some c) s w =
       Inr (map (push_to (kafkaproducer s) ser op msg (Some c)) groups, s\<lparr>push_redis := r'\<rparr>, w')"
     "distinct (map fst groups)" "set (map fst groups) = ran (users_keys (view w) mids)"
    using PushMsgByMids_records [OF assms] by metis
  have n: "card (ran (users_keys (view w) mids)) = length groups" using distinct_card [OF g(2)] g(3) by simp
  have o: "kafka_opaque (push_to (kafkaproducer s) ser op msg (Some c) x) = Some c" for x by (simp add: push_to_def)
  have "deliver_reports (map (push_to (kafkaproducer s) ser op msg (Some c)) groups) {} =
      (if length groups = 0 then Inr ([], {}) else if length groups = 1 then Inr ([c], {c}) else Inl UseAfterFree)"
    by (cases groups rule: remdups_adj.cases) (simp_all add: dr_cb_def o)
  then show ?thesis using g(1) n by (simp add: Let_def)
qed

theorem mids_push_reports_witness:
  "\<exists>outs s' w'. PushMsgByMids local_redis push_body (\<lambda>ks. ks) [5] 9 ''hi'' (Some 0) connected_logic sample_store = Inr (outs, s', w') \<and>
     deliver_reports outs {} = Inl UseAfterFree"
proof -
  have "users_keys sample_store [5] = [''k2'' \<mapsto> ''g2'', ''k1'' \<mapsto> ''g1'']" by (simp add: sample_store_def hash_of_def sample_mids)
  then have n: "card (ran (users_keys sample_store [5])) = 2" by (simp add: ran_map_upd)
  show ?thesis using mids_push_reports [OF local_redis_documented sample_push_ok sample_store_mids, of push_body "[5]" 9 "''hi''" 0]
    unfolding n by (simp add: Let_def)
qed

subsection \<open>Push by keys\<close>

lemma set_update_subset: "set (AList.update k v m) \<subseteq> insert (k, v) (set m)"
  by (induction m) auto

lemma server_push_keys:
  assumes "\<And>q ks. (q, ks) \<in> set m \<Longrightarrow> set ks \<subseteq> K" "k \<in> K" "(q, ks) \<in> set (server_push sv k m)"
  shows "set ks \<subseteq> K"
proof (cases "map_of m sv")
  case None
  then show ?thesis using assms by (auto simp: server_push_def)
next
  case (Some l)
  then have "(q, ks) = (sv, l @ [k]) \<or> (q, ks) \<in> set m" using assms(3) set_update_subset [of sv "l @ [k]" m] by (auto simp: server_push_def)
  then show ?thesis using assms(1) [OF map_of_SomeD [OF Some]] assms(1) [of q ks] assms(2) by auto
qed

lemma group_replies_keys:
  assumes "group_replies replies cmd m = Inr m'" "\<And>q ks. (q, ks) \<in> set m \<Longrightarrow> set ks \<subseteq> K" "set cmd \<subseteq> K" "(q, ks) \<in> set m'"
  shows "set ks \<subseteq> K"
  using assms
proof (induction replies cmd m rule: group_replies.induct)
  case (3 reply replies c cmd m)
  have "set ks \<subseteq> K" if "(q, ks) \<in> set (server_push reply c m)" for q ks
    by (rule server_push_keys [OF _ _ that]) (use 3 in auto)
  then show ?case using 3 by auto
qed auto

lemma push_servers_keys:
  "push_servers ser m svs op msg cb p = Inr outs \<Longrightarrow> r \<in> set outs \<Longrightarrow>
     \<exists>sv \<in> set svs. the (map_of m sv) \<noteq> [] \<and> r = push_to p ser op msg cb (sv, the (map_of m sv))"
proof (induction svs arbitrary: outs)
  case (Cons sv svs)
  then show ?case by (cases "the (map_of m sv)") (auto simp: logic_PushMsg_def Produce_def push_to_def Let_def result_simps split: sum.splits if_splits)
qed simp

text \<open>Whatever Redis answers, the keys of the records are the names of the Redis entries, not the keys of the clients.\<close>

lemma PushMsgByKeys_keys:
  assumes "iteration_order ord" "PushMsgByKeys H ser ord keys op msg s w = Inr (outs, s', w')" "r \<in> set outs"
  shows "\<exists>sv ks. r = push_to (kafkaproducer s) ser op msg None (sv, ks) \<and> set ks \<subseteq> keyKeyServer ` set keys"
proof -
  obtain reply r1 w1 m where m: "group_replies reply (map keyKeyServer keys) [] = Inr m"
    "push_servers ser m (ord (map fst m)) op msg None (kafkaproducer s) = Inr outs"
    using assms(2) by (auto simp: PushMsgByKeys_def Let_def result_simps split: sum.splits)
  from push_servers_keys [OF m(2) assms(3)] obtain sv where sv: "sv \<in> set (map fst m)" "r = push_to (kafkaproducer s) ser op msg None (sv, the (map_of m sv))"
    using iteration_orderD(1) [OF assms(1)] by auto
  then obtain l where l: "map_of m sv = Some l" by (cases "map_of m sv") (auto simp: map_of_eq_None_iff)
  have "set l \<subseteq> keyKeyServer ` set keys"
    by (rule group_replies_keys [OF m(1) _ _ map_of_SomeD [OF l]]) auto
  then show ?thesis using sv(2) l by auto
qed

text \<open>C0: \<^verbatim>\<open>PushMsgByKeys\<close> pairs the replies of \<^verbatim>\<open>MGET\<close> with the keys by position, but the client drops the replies for keys that are not
  registered. When the first of two keys is offline, the record for the server of the second one names the first one; and what it names is the
  name of the Redis entry, not the key.\<close>

theorem keys_push_misaligned:
  assumes "redis_documented H view queue" "client_ready H queue (push_redis s)" "iteration_order ord" "producer_created (kafkaproducer s)"
    and "strs (view w) (keyKeyServer a) = None" "strs (view w) (keyKeyServer b) = Some sv"
  shows "\<exists>s' w'. PushMsgByKeys H ser ord [a, b] op msg s w = Inr ([push_to (kafkaproducer s) ser op msg None (sv, [''key_'' @ a])], s', w')"
proof -
  obtain r' w' where "MGet H [keyKeyServer a, keyKeyServer b] (push_redis s, w) =
      Inr (List.map_filter (strs (view w)) [keyKeyServer a, keyKeyServer b], r', w')"
    by (rule MGet_documented [OF assms(1,2)])
  then have "MGet H [keyKeyServer a, keyKeyServer b] (push_redis s, w) = Inr ([sv], r', w')" using assms(5,6) by (simp add: List.map_filter_def)
  moreover have "mset (ord [sv]) = {#sv#}" using assms(3) by (simp add: iteration_order_def)
  then have "ord [sv] = [sv]" by (simp add: mset_single_iff)
  ultimately show ?thesis using assms(4)
    by (simp add: PushMsgByKeys_def server_push_def logic_PushMsg_def Produce_def push_to_def keyKeyServer_def)
qed

theorem keys_push_misaligned_witness:
  "\<exists>s' w'. PushMsgByKeys local_redis push_body (\<lambda>ks. ks) [''1'', ''2''] 9 ''hi'' connected_logic (sample_store\<lparr>strs := [''key_2'' \<mapsto> ''g1'']\<rparr>) =
     Inr ([push_to (kafkaproducer connected_logic) push_body 9 ''hi'' None (''g1'', [''key_1''])], s', w')"
  using keys_push_misaligned [OF local_redis_documented sample_push_ok, of "sample_store\<lparr>strs := [''key_2'' \<mapsto> ''g1'']\<rparr>" "''1''" "''2''" "''g1''" push_body 9 "''hi''"]
  by (simp add: keyKeyServer_def)

end
