(* ===== verification/LogicRegistry.thy ===== *)
theory LogicRegistry
  imports LogicKeys LogicPush JsonRoundtrip
begin

text \<open>
  What the RPC service of the logic server keeps in Redis: for every user the keys of the sessions that are logged in, each with its gate.
  Logging in, the heartbeat and logging out are shown to implement this table over every sequence of calls.
\<close>

subsection \<open>Tokens\<close>

text \<open>A token the service accs: an object with a number \<^verbatim>\<open>mid\<close>, a string \<^verbatim>\<open>room_id\<close> and an array of numbers \<^verbatim>\<open>accepts\<close>.\<close>

definition login_token :: "string \<Rightarrow> 32 word \<Rightarrow> string \<Rightarrow> 32 word list \<Rightarrow> bool" where
  "login_token token mid room accs \<longleftrightarrow> (\<exists>m v a. json_parse token True = Inr (JObject m) \<and>
     map_of m ''mid'' = Some v \<and> is_number v \<and> get_int v = Inr mid \<and>
     map_of m ''room_id'' = Some (JString room) \<and> map_of m ''accepts'' = Some a \<and> get_ints a = Inr accs)"

lemma generateKey_frame:
  assumes "generateKey clock s = Some (k, s')"
  shows "service_redis s' = service_redis s" "push_redis s' = push_redis s" "kafkaproducer s' = kafkaproducer s"
  using assms by (auto simp: generateKey_def Let_def split: option.splits if_splits prod.splits)

lemma logic_Connect_login:
  assumes "login_token token mid room accs" "generateKey clock s = Some (key, s1)"
  shows "logic_Connect H clock server token s w = Some (rbind (addServerMap H mid key server (service_redis s, w)) (\<lambda>(r, w).
     Inr (\<lparr>reply_mid = scast mid, reply_key = key, reply_room = room, reply_accepts = accs\<rparr>, s1\<lparr>service_redis := r\<rparr>, w)))"
proof -
  obtain m v a where t: "json_parse token True = Inr (JObject m)" "map_of m ''mid'' = Some v" "is_number v" "get_int v = Inr mid"
    "map_of m ''room_id'' = Some (JString room)" "map_of m ''accepts'' = Some a" "get_ints a = Inr accs"
    using assms(1) unfolding login_token_def by blast
  obtain u j' where u: "json_index ''server'' (JObject m) = Inr (u, j')" using json_index_defined by blast
  obtain m' where m': "j' = JObject m'" "map_of m' ''mid'' = Some v" by (rule json_index_other [OF u _ t(2)]) auto
  show ?thesis unfolding logic_Connect_def t(1) using t(2-7) u m' assms(2)
    by (simp add: jbind_def json_find_def json_index_present get_string_def mk_reply_def Let_def generateKey_frame(1) [OF assms(2)])
qed

subsection \<open>The table of sessions\<close>

definition sessions_of :: "store \<Rightarrow> 32 word \<Rightarrow> string \<Rightarrow> string option" where
  "sessions_of st mid = map_of (hash_of st (keyMidServer mid))"

definition store_inv :: "store \<Rightarrow> bool" where
  "store_inv st \<longleftrightarrow> (\<forall>mid. strs st (keyMidServer mid) = None)"

lemma keyMidServer_inj: "keyMidServer mid = keyMidServer mid' \<longleftrightarrow> mid = mid'"
  by (auto simp: keyMidServer_def signed_word_eqI dest!: dec_of_int_inj)

lemma registered_sessions:
  "sessions_of (registered mid key server st) = (sessions_of st)(mid := (sessions_of st mid)(key \<mapsto> server))"
  by (rule ext) (simp add: sessions_of_def registered_def hash_of_def keyMidServer_inj key_names_differ update_conv')

lemma registered_inv: "store_inv st \<Longrightarrow> store_inv (registered mid key server st)"
  by (simp add: store_inv_def registered_def key_names_differ)

text \<open>The store after \<^verbatim>\<open>HDEL\<close> and \<^verbatim>\<open>DEL\<close>.\<close>

definition unregistered :: "32 word \<Rightarrow> string \<Rightarrow> store \<Rightarrow> store" where
  "unregistered mid key st = exec_all [[''HDEL'', keyMidServer mid, key], [''DEL'', keyKeyServer key]] st"

lemma unregistered_sessions:
  assumes "store_inv st"
  shows "sessions_of (unregistered mid key st) = (sessions_of st)(mid := (sessions_of st mid)(key := None))" "store_inv (unregistered mid key st)"
proof -
  have none: "strs st (keyMidServer mid) = None" using assms by (simp add: store_inv_def)
  let ?h = "hash_of st (keyMidServer mid)"
  have st: "unregistered mid key st = st\<lparr>strs := (strs st)(keyKeyServer key := None),
     hashes := (hashes st)(keyMidServer mid := (if AList.delete key ?h = [] then None else Some (AList.delete key ?h)), keyKeyServer key := None)\<rparr>"
    by (simp add: unregistered_def redis_exec_def none)
  have "hash_of (unregistered mid key st) (keyMidServer q) = (if q = mid then AList.delete key ?h else hash_of st (keyMidServer q))" for q
    unfolding st by (auto simp: hash_of_def keyMidServer_inj key_names_differ)
  then show "sessions_of (unregistered mid key st) = (sessions_of st)(mid := (sessions_of st mid)(key := None))"
    by (intro ext) (simp add: sessions_of_def delete_conv)
  show "store_inv (unregistered mid key st)" using assms
    by (simp add: store_inv_def unregistered_def redis_exec_def key_names_differ)
qed

subsection \<open>Calls\<close>

lemma words_plain: "plain_word ''EXPIRE''" "plain_word ''HDEL''" "plain_word ''DEL''"
  by (simp_all add: plain_word_def)

lemma logic_Heartbeat_documented:
  assumes "redis_documented H view queue" "client_ready H queue (service_redis s)" "plain_word key"
  obtains r' w' where "logic_Heartbeat H mid key s w = Inr (s\<lparr>service_redis := r'\<rparr>, w')" "client_ready H queue r'" "view w' = view w"
proof -
  let ?cmds = "[[''EXPIRE'', keyMidServer (ucast mid), dec_of_nat (30 * 60)], [''EXPIRE'', keyKeyServer key, dec_of_nat (30 * 60)]]"
  have "list_all (\<lambda>ws. ws \<noteq> [] \<and> list_all plain_word ws) ?cmds"
    using keyMidServer_plain keyKeyServer_plain [OF assms(3)] dec_of_nat_plain words_plain by simp
  from PipeLine_documented [OF assms(1) this assms(2), of w] obtain r' w' where r': "PipeLine H (map command_text ?cmds) (service_redis s, w) = Inr (r', w')"
    "client_ready H queue r'" "view w' = exec_all ?cmds (view w)" .
  have "exec_all ?cmds (view w) = view w" by (simp add: redis_exec_def)
  then show ?thesis using that [of r' w'] r' by (simp add: logic_Heartbeat_def command_text_def)
qed

lemma logic_Disconnect_documented:
  assumes "redis_documented H view queue" "client_ready H queue (service_redis s)" "plain_word key"
  obtains r' w' where "logic_Disconnect H mid key s w = Inr (s\<lparr>service_redis := r'\<rparr>, w')" "client_ready H queue r'"
    "view w' = unregistered (ucast mid) key (view w)"
proof -
  let ?cmds = "[[''HDEL'', keyMidServer (ucast mid), key], [''DEL'', keyKeyServer key]]"
  have "list_all (\<lambda>ws. ws \<noteq> [] \<and> list_all plain_word ws) ?cmds"
    using keyMidServer_plain keyKeyServer_plain [OF assms(3)] assms(3) words_plain by simp
  from PipeLine_documented [OF assms(1) this assms(2), of w] obtain r' w' where r': "PipeLine H (map command_text ?cmds) (service_redis s, w) = Inr (r', w')"
    "client_ready H queue r'" "view w' = exec_all ?cmds (view w)" .
  then show ?thesis using that [of r' w'] by (simp add: logic_Disconnect_def command_text_def unregistered_def)
qed

text \<open>Sequences of calls. The reply of a login is what the caller gets.\<close>

datatype logic_ev = Login string string | Beat "64 word" string | Logout "64 word" string

definition logic_step :: "('c, 'w) hiredis \<Rightarrow> (nat \<Rightarrow> 64 word) \<Rightarrow> logic_ev \<Rightarrow> 'c LogicServer \<Rightarrow> 'w \<Rightarrow>
    (LogicReply option \<times> 'c LogicServer \<times> 'w) result option" where
  "logic_step H clock e s w = (case e of
     Login server token \<Rightarrow> map_option (\<lambda>res. rbind res (\<lambda>(r, s, w). Inr (Some r, s, w))) (logic_Connect H clock server token s w)
   | Beat mid key \<Rightarrow> Some (rbind (logic_Heartbeat H mid key s w) (\<lambda>(s, w). Inr (None, s, w)))
   | Logout mid key \<Rightarrow> Some (rbind (logic_Disconnect H mid key s w) (\<lambda>(s, w). Inr (None, s, w))))"

fun logic_run :: "('c, 'w) hiredis \<Rightarrow> (nat \<Rightarrow> 64 word) \<Rightarrow> logic_ev list \<Rightarrow> 'c LogicServer \<Rightarrow> 'w \<Rightarrow>
    (LogicReply option list \<times> 'c LogicServer \<times> 'w) result option" where
  "logic_run H clock [] s w = Some (Inr ([], s, w))"
| "logic_run H clock (e # es) s w = (case logic_step H clock e s w of
     None \<Rightarrow> None
   | Some (Inl f) \<Rightarrow> Some (Inl f)
   | Some (Inr (r, s, w)) \<Rightarrow> map_option (\<lambda>res. rbind res (\<lambda>(rs, s, w). Inr (r # rs, s, w))) (logic_run H clock es s w))"

fun good_ev :: "logic_ev \<Rightarrow> bool" where
  "good_ev (Login server token) \<longleftrightarrow> plain_word server \<and> (\<exists>mid room accs. login_token token mid room accs)"
| "good_ev (Beat mid key) \<longleftrightarrow> plain_word key"
| "good_ev (Logout mid key) \<longleftrightarrow> plain_word key"

text \<open>The specification.\<close>

fun table_step :: "logic_ev \<times> LogicReply option \<Rightarrow> (32 word \<Rightarrow> string \<Rightarrow> string option) \<Rightarrow> (32 word \<Rightarrow> string \<Rightarrow> string option)" where
  "table_step (Login server token, Some r) tab = (let mid = ucast (reply_mid r) in tab(mid := (tab mid)(reply_key r \<mapsto> server)))"
| "table_step (Logout mid key, _) tab = tab(ucast mid := (tab (ucast mid))(key := None))"
| "table_step _ tab = tab"

text \<open>What the user of a reply relies on: it carries what the token says.\<close>

fun reply_ok :: "logic_ev \<times> LogicReply option \<Rightarrow> bool" where
  "reply_ok (Login server token, ro) \<longleftrightarrow> (\<exists>r. ro = Some r \<and>
     (\<forall>mid room accs. login_token token mid room accs \<longrightarrow> reply_mid r = scast mid \<and> reply_room r = room \<and> reply_accepts r = accs))"
| "reply_ok (_, ro) \<longleftrightarrow> ro = None"

definition logic_ready :: "('c, 'w) hiredis \<Rightarrow> ('w \<Rightarrow> store) \<Rightarrow> ('c \<Rightarrow> string list list) \<Rightarrow> (nat \<Rightarrow> 64 word) \<Rightarrow> 'c LogicServer \<Rightarrow> 'w \<Rightarrow> bool" where
  "logic_ready H view queue clock s w \<longleftrightarrow> client_ready H queue (service_redis s) \<and> store_inv (view w) \<and> keys_inv clock s"

lemma login_token_unique:
  "login_token token mid room accs \<Longrightarrow> login_token token mid' room' accs' \<Longrightarrow> mid = mid' \<and> room = room' \<and> accs = accs'"
  by (auto simp: login_token_def)

lemma ucast_scast_32: "ucast (scast (x :: 32 word) :: 64 word) = x"
  by transfer (simp add: take_bit_signed_take_bit)

lemma logic_step_table:
  assumes "redis_documented H view queue" "good_clock clock" "logic_ready H view queue clock s w" "good_ev e"
  shows "\<exists>r s' w'. logic_step H clock e s w = Some (Inr (r, s', w')) \<and> logic_ready H view queue clock s' w' \<and> reply_ok (e, r) \<and>
     push_redis s' = push_redis s \<and> kafkaproducer s' = kafkaproducer s \<and>
     sessions_of (view w') = table_step (e, r) (sessions_of (view w))"
proof (cases e)
  case (Login server token)
  obtain mid room accs where t: "login_token token mid room accs" and sv: "plain_word server" using assms(4) Login by auto
  have inv: "client_ready H queue (service_redis s)" "store_inv (view w)" "keys_inv clock s" using assms(3) by (auto simp: logic_ready_def)
  obtain s1 where g: "generateKey clock s = Some (dec_of_nat (last_id s1), s1)" "keys_inv clock s1"
    using generateKey_step [OF assms(2) inv(3)] by (auto simp: key_step_def)
  obtain r' w' where a: "addServerMap H mid (dec_of_nat (last_id s1)) server (service_redis s, w) = Inr (r', w')" "client_ready H queue r'"
    "view w' = registered mid (dec_of_nat (last_id s1)) server (view w)"
    by (rule addServerMap_documented [OF assms(1) inv(1) dec_of_nat_plain sv, of w mid]) (use inv(2) in \<open>auto simp: store_inv_def\<close>)
  let ?r = "\<lparr>reply_mid = scast mid, reply_key = dec_of_nat (last_id s1), reply_room = room, reply_accepts = accs\<rparr>"
  have "logic_step H clock e s w = Some (Inr (Some ?r, s1\<lparr>service_redis := r'\<rparr>, w'))"
    by (simp add: logic_step_def Login logic_Connect_login [OF t g(1)] a(1))
  moreover have "logic_ready H view queue clock (s1\<lparr>service_redis := r'\<rparr>) w'"
    using a(2,3) registered_inv [OF inv(2)] g(2) by (simp add: logic_ready_def keys_inv_def split: option.splits)
  moreover have "reply_ok (e, Some ?r)" using login_token_unique [OF t] by (auto simp: Login)
  moreover have "sessions_of (view w') = table_step (e, Some ?r) (sessions_of (view w))"
    by (simp add: Login a(3) registered_sessions ucast_scast_32 Let_def)
  ultimately show ?thesis using generateKey_frame [OF g(1)]
    by (intro exI [of _ "Some ?r"] exI [of _ "s1\<lparr>service_redis := r'\<rparr>"] exI [of _ w'] conjI) simp_all
next
  case (Beat mid key)
  have inv: "client_ready H queue (service_redis s)" "plain_word key" using assms(3,4) Beat by (auto simp: logic_ready_def)
  obtain r' w' where "logic_Heartbeat H mid key s w = Inr (s\<lparr>service_redis := r'\<rparr>, w')" "client_ready H queue r'" "view w' = view w"
    by (rule logic_Heartbeat_documented [OF assms(1) inv])
  then show ?thesis using assms(3) by (simp add: logic_step_def Beat logic_ready_def keys_inv_def split: option.splits)
next
  case (Logout mid key)
  have inv: "client_ready H queue (service_redis s)" "plain_word key" "store_inv (view w)" using assms(3,4) Logout by (auto simp: logic_ready_def)
  obtain r' w' where "logic_Disconnect H mid key s w = Inr (s\<lparr>service_redis := r'\<rparr>, w')" "client_ready H queue r'"
    "view w' = unregistered (ucast mid) key (view w)"
    by (rule logic_Disconnect_documented [OF assms(1) inv(1,2)])
  then show ?thesis using assms(3) unregistered_sessions [OF inv(3)] by (simp add: logic_step_def Logout logic_ready_def keys_inv_def split: option.splits)
qed

lemma logic_run_table:
  assumes "redis_documented H view queue" "good_clock clock" "logic_ready H view queue clock s w" "list_all good_ev es"
  shows "\<exists>rs s' w'. logic_run H clock es s w = Some (Inr (rs, s', w')) \<and> length rs = length es \<and> logic_ready H view queue clock s' w' \<and>
     push_redis s' = push_redis s \<and> kafkaproducer s' = kafkaproducer s \<and> list_all reply_ok (zip es rs) \<and>
     sessions_of (view w') = fold table_step (zip es rs) (sessions_of (view w))"
  using assms(3,4)
proof (induction es arbitrary: s w)
  case (Cons e es)
  obtain r s1 w1 where 1: "logic_step H clock e s w = Some (Inr (r, s1, w1))" "logic_ready H view queue clock s1 w1" "reply_ok (e, r)"
    "push_redis s1 = push_redis s" "kafkaproducer s1 = kafkaproducer s" "sessions_of (view w1) = table_step (e, r) (sessions_of (view w))"
    using logic_step_table [OF assms(1,2) Cons.prems(1), of e] Cons.prems(2) by auto
  obtain rs s' w' where "logic_run H clock es s1 w1 = Some (Inr (rs, s', w'))" "length rs = length es" "logic_ready H view queue clock s' w'"
    "push_redis s' = push_redis s1" "kafkaproducer s' = kafkaproducer s1" "list_all reply_ok (zip es rs)"
    "sessions_of (view w') = fold table_step (zip es rs) (sessions_of (view w1))"
    using Cons.IH [OF 1(2)] Cons.prems(2) by auto
  then show ?case using 1 by (intro exI [of _ "r # rs"] exI [of _ s'] exI [of _ w']) simp
qed simp


lemma sample_token: "\<exists>token. login_token token 123 ''live://1000'' [1000]"
proof -
  let ?v = "JObject [(''accepts'', JArray [JUnsigned 1000]), (''mid'', JUnsigned 123), (''room_id'', JString ''live://1000'')]"
  have "json_wf ?v" by (simp add: utf8_ok_def)
  moreover have "dump_options_ok (- 1) (CHR '' '')" by (simp add: dump_options_ok_def)
  ultimately obtain T where "read_value T = Some (?v, [])" using dump_is_text by blast
  then have "json_parse T True = Inr ?v" by (rule parse_of_text)
  then have "login_token T 123 ''live://1000'' [1000]" unfolding login_token_def
    by (intro exI conjI) (assumption | simp add: get_int_def get_ints_def jbind_def)+
  then show ?thesis by blast
qed

lemma empty_store_ready: "logic_ready local_redis (\<lambda>w. w) (\<lambda>c. c) clock connected_logic empty_store"
  using connected_client_ready by (simp add: logic_ready_def connected_logic_def store_inv_def empty_store_def keys_inv_def)


end
