(* ===== verification/Delivery.thy ===== *)
theory Delivery
  imports JobModel LogicRegistry
begin

text \<open>
  From a push request at the logic server to the clients at the gate: what the handlers make of the query, what the job server makes of the
  records, and what the gate's service sends for the requests.
\<close>

subsection \<open>The query\<close>

lemma stoi_dec_of_int: "stoi (dec_of_int (sint (x :: 32 word))) = Inr (sint x)"
proof -
  have b: "- (2 ^ 31) \<le> sint x" "sint x < 2 ^ 31" using sint_greater_eq [of x] sint_less [of x] by simp_all
  have "parse_int (dec_of_int (sint x)) = Some (sint x)"
  proof (cases "sint x < 0")
    case True
    have "c_sign (dropWhile c_isspace (CHR ''-'' # dec_of_nat n)) = (True, dec_of_nat n)" for n by (simp add: c_isspace_def c_sign_def Let_def)
    then show ?thesis using True
      by (simp add: dec_of_int_def parse_int_def takeWhile_dec_of_nat dec_of_nat_nonempty base_value_dec_of_nat)
  qed (simp add: dec_of_int_def parse_int_dec)
  then show ?thesis using b by (simp add: stoi_def)
qed

lemma stoi_all_words: "stoi_all (map (\<lambda>x. dec_of_int (sint x)) xs) = Inr xs"
  by (induction xs) (simp_all add: stoi_dec_of_int)

lemma dec_of_int_chars: "c \<in> set (dec_of_int i) \<Longrightarrow> c = CHR ''-'' \<or> is_base_digit 10 c"
  using dec_of_nat_digits by (auto simp: dec_of_int_def list_all_iff split: if_splits)

lemma dec_of_int_no_comma: "CHR '','' \<notin> set (dec_of_int i)"
proof -
  have "\<not> is_base_digit 10 CHR '',''" by code_simp
  then show ?thesis using dec_of_int_chars [of "CHR '',''" i] by auto
qed

lemma dec_of_int_nonempty: "dec_of_int i \<noteq> []"
  by (simp add: dec_of_int_def dec_of_nat_nonempty)

definition mids_query :: "32 word list \<Rightarrow> string" where
  "mids_query mids = join '','' (map (\<lambda>x. dec_of_int (sint x)) mids)"

lemma split_mids_query:
  assumes "mids \<noteq> []"
  shows "split (mids_query mids) '','' = map (\<lambda>x. dec_of_int (sint x)) mids"
proof -
  let ?ts = "map (\<lambda>x. dec_of_int (sint x)) mids"
  have "\<forall>t \<in> set ?ts. CHR '','' \<notin> set t" using dec_of_int_no_comma by auto
  moreover have "?ts \<noteq> [[]]" using dec_of_int_nonempty by (cases mids) auto
  ultimately show ?thesis unfolding mids_query_def using split_join [of ?ts "CHR '',''"] assms by simp
qed

lemma PushMsgByMidsHandler_query:
  assumes "getQuery ''operation'' request = Inr (dec_of_int (sint op))" "op \<noteq> 0" "getQuery ''mids'' request = Inr (mids_query mids)" "mids \<noteq> []"
    and "PushMsgByMids H ser ord mids op (req_body request) (Some cb) (lw_server x) (lw_outside x) = Inr (outs, s', w')"
  shows "PushMsgByMidsHandler H ser ord cb request response x =
     Inr ([], response, x\<lparr>lw_server := s', lw_outside := w', lw_produced := lw_produced x @ outs\<rparr>)"
  using assms by (simp add: PushMsgByMidsHandler_def query_int_def stoi_dec_of_int split_mids_query stoi_all_words pushed_def)

subsection \<open>At the gate\<close>

text \<open>The service of the gate (\<^verbatim>\<open>GateServiceImpl\<close>).\<close>

fun gate_dispatch :: "gate_request \<Rightarrow> GateServer \<Rightarrow> gate_out list" where
  "gate_dispatch (PushMsgReq keys op ver msg) g = PushMsg keys msg g"
| "gate_dispatch (BroadcastRoomReq room ver msg) g = BroadcastRoom room msg g"
| "gate_dispatch (BroadcastReq op speed ver msg) g = Broadcast msg g"

definition gate_serves :: "(string \<times> gate_request) list \<Rightarrow> GateServer \<Rightarrow> gate_out list" where
  "gate_serves cs g = concat (map (\<lambda>(m, q). gate_dispatch q g) cs)"

context gate_service
begin

lemma push_append: "push (ks @ ks') msg g = push ks msg g @ push ks' msg g"
proof (induction ks)
  case (Cons k ks)
  then show ?case using push_cons [of k ks msg g] push_cons [of k "ks @ ks'" msg g] by simp
qed (simp add: push_nil)

lemma push_concat: "push (concat kss) msg g = concat (map (\<lambda>ks. push ks msg g) kss)"
  by (induction kss) (simp_all add: push_nil push_append)

lemma push_distinct:
  assumes "rel p g" "distinct ks" "inj (to_client msg)"
  shows "distinct (push ks msg g)"
  using assms(2)
proof (induction ks)
  case (Cons k ks)
  have "with_key p k \<inter> (\<Union>k \<in> set ks. with_key p k) = {}" using Cons.prems by (auto simp: with_key_def)
  then have "to_client msg ` with_key p k \<inter> to_client msg ` (\<Union>k \<in> set ks. with_key p k) = {}"
    using assms(3) by (simp add: image_Int [symmetric])
  then show ?case using push_one [OF assms(1), of k msg] push_set [OF assms(1), of ks msg] Cons
    by (subst push_cons) simp
qed (simp add: push_nil)

end

subsection \<open>Records to requests\<close>

text \<open>The message of Kafka for a record, and the push message in it.\<close>

definition kafka_delivers :: "kafka_record \<Rightarrow> kafka_message" where
  "kafka_delivers r = \<lparr>message_err = ERR_NO_ERROR, message_payload = kafka_payload r\<rparr>"

definition push_message :: "32 word \<Rightarrow> string \<Rightarrow> string \<Rightarrow> string list \<Rightarrow> push_msg" where
  "push_message op msg sv ks = mk_push_msg\<lparr>push_type := PUSH, push_operation := op, push_server := sv, push_keys := ks, push_body := msg\<rparr>"

lemma push_to_payload: "kafka_payload (push_to pr ser op msg cb (sv, ks)) = ser (push_message op msg sv ks)"
  by (simp add: push_to_def push_message_def)

lemma job_request_push:
  assumes "parse (ser (push_message op msg sv ks)) = Some (push_message op msg sv ks)"
  shows "job_request parse (kafka_delivers (push_to pr ser op msg cb (sv, ks))) = Some (PushMsgReq ks op 1 (mk_proto msg))"
  using assms by (simp add: job_request_def kafka_delivers_def push_to_payload) (simp add: push_message_def mk_push_msg_def)

text \<open>Kafka hands the consumer the records and nothing else but notices such as time-outs.\<close>

definition kafka_hands :: "'k rdkafka \<Rightarrow> 'k \<Rightarrow> nat \<Rightarrow> kafka_record list \<Rightarrow> bool" where
  "kafka_hands K h n rs \<longleftrightarrow> filter (\<lambda>m. message_err m = ERR_NO_ERROR) (consumed n K h) = map kafka_delivers rs"

lemma map_filter_errors: "List.map_filter (job_request parse) ms = List.map_filter (job_request parse) (filter (\<lambda>m. message_err m = ERR_NO_ERROR) ms)"
proof (induction ms)
  case (Cons m ms)
  have "message_err m \<noteq> ERR_NO_ERROR \<Longrightarrow> job_request parse m = None" by (simp add: job_request_def)
  then show ?case using Cons by (auto simp: List.map_filter_simps split: option.splits)
qed simp

lemma requests_of_records:
  assumes "kafka_hands K h n (map (push_to pr ser op msg cb) groups)"
    and "\<forall>(sv, ks) \<in> set groups. parse (ser (push_message op msg sv ks)) = Some (push_message op msg sv ks)"
  shows "List.map_filter (job_request parse) (consumed n K h) = map (\<lambda>(sv, ks). PushMsgReq ks op 1 (mk_proto msg)) groups"
proof -
  have "List.map_filter (job_request parse) (map kafka_delivers (map (push_to pr ser op msg cb) groups)) = map (\<lambda>(sv, ks). PushMsgReq ks op 1 (mk_proto msg)) groups"
    using assms(2)
  proof (induction groups)
    case (Cons sk groups)
    then show ?case using job_request_push [of parse ser op msg "fst sk" "snd sk" pr cb] by (cases sk) (simp add: List.map_filter_simps)
  qed (simp add: List.map_filter_simps)
  then show ?thesis using assms(1) map_filter_errors [of parse "consumed n K h"] by (simp add: kafka_hands_def)
qed

lemma gate_serves_push:
  "gate_serves (map (\<lambda>q. (gate_method q, q)) (map (\<lambda>(sv, ks). PushMsgReq ks op ver msg) groups)) g = PushMsg (concat (map snd groups)) msg g"
  unfolding gate.push_concat gate_serves_def map_map by (rule arg_cong [where f = concat]) (auto simp: comp_def split: prod.splits)

lemma distinct_groups:
  assumes "distinct (map fst groups)" "\<And>sv ks. (sv, ks) \<in> set groups \<Longrightarrow> distinct ks \<and> set ks = {k. u k = Some sv}"
  shows "distinct (concat (map snd groups))"
  using assms
proof (induction groups)
  case (Cons sk groups)
  obtain sv ks where sk: "sk = (sv, ks)" by fastforce
  have here: "distinct ks" "set ks = {k. u k = Some sv}" using Cons.prems(2) [of sv ks] sk by auto
  have "u k \<noteq> Some sv" if k: "k \<in> set (concat (map snd groups))" for k
  proof -
    obtain sv' ks' where m: "(sv', ks') \<in> set groups" "k \<in> set ks'" using k by auto
    then have "u k = Some sv'" using Cons.prems(2) [of sv' ks'] by auto
    moreover have "sv' \<noteq> sv" using m(1) Cons.prems(1) sk by force
    ultimately show ?thesis by simp
  qed
  moreover have "distinct (concat (map snd groups))" using Cons by auto
  ultimately show ?case using here sk by auto
qed simp

text \<open>What becomes of the records of a push when the job server has consumed them.\<close>

lemma groups_delivered:
  assumes "gate_rel p g" "ch_conn (rpcclient js) = Some c" "unat (ch_id (rpcclient js)) + n \<le> 2 ^ 63"
    and "consumer_handle (kafkaconsumer js) = Some h" "kafka_hands K h n (map (push_to pr ser op msg cb) groups)"
    and "distinct (map fst groups)" "set (map fst groups) = ran u" "\<And>sv ks. (sv, ks) \<in> set groups \<Longrightarrow> distinct ks \<and> set ks = {k. u k = Some sv}"
    and "\<And>sv ks. sv \<in> ran u \<Longrightarrow> set ks \<subseteq> dom u \<Longrightarrow> distinct ks \<Longrightarrow> parse (ser (push_message op msg sv ks)) = Some (push_message op msg sv ks)"
    and "\<And>ks q. set ks \<subseteq> dom u \<Longrightarrow> distinct ks \<Longrightarrow> q = PushMsgReq ks op 1 (mk_proto msg) \<Longrightarrow> gate_rpc gser svc q \<and> rpc_valid (gate_frame gser 0 q)"
  shows "\<exists>bs js' cs. job_loop n K gser parse js = Inr (bs, js') \<and> gate_receives c' (gate_side svc c') bs = Inr cs \<and>
     distinct (gate_serves cs g) \<and> set (gate_serves cs g) = {ClientSend s 9 0 msg | s k r sv. online p s = Some (k, r) \<and> u k = Some sv}"
proof -
  let ?ks = "concat (map snd groups)"
  have fsts: "sv \<in> ran u \<longleftrightarrow> (\<exists>ks. (sv, ks) \<in> set groups)" for sv unfolding assms(7) [symmetric] by force
  have in_u: "sv \<in> ran u" "set ks \<subseteq> dom u" "distinct ks" if "(sv, ks) \<in> set groups" for sv ks
    using that assms(8) [OF that] fsts by auto
  have keys: "set ?ks = dom u"
  proof (rule set_eqI)
    fix k
    have "k \<in> set ?ks \<longleftrightarrow> (\<exists>sv ks. (sv, ks) \<in> set groups \<and> k \<in> set ks)" by (force simp: Bex_def)
    also have "\<dots> \<longleftrightarrow> (\<exists>sv. (\<exists>ks. (sv, ks) \<in> set groups) \<and> u k = Some sv)" using assms(8) by blast
    also have "\<dots> \<longleftrightarrow> k \<in> dom u" unfolding fsts [symmetric] by (auto simp: ran_def)
    finally show "k \<in> set ?ks \<longleftrightarrow> k \<in> dom u" .
  qed
  have dist: "distinct ?ks" by (rule distinct_groups [where u = u, OF assms(6) assms(8)])
  have run: "\<exists>bs js' cs. job_loop n K gser parse js = Inr (bs, js') \<and> gate_receives c' (gate_side svc c') bs = Inr cs \<and>
      gate_serves cs g = PushMsg ?ks (mk_proto msg) g"
  proof -
    have q: "List.map_filter (job_request parse) (consumed n K h) = map (\<lambda>(sv, ks). PushMsgReq ks op 1 (mk_proto msg)) groups"
      by (rule requests_of_records [OF assms(5)]) (use in_u assms(9) in blast)
    have "\<forall>q \<in> set (List.map_filter (job_request parse) (consumed n K h)). gate_rpc gser svc q \<and> rpc_valid (gate_frame gser 0 q)"
    proof
      fix q assume "q \<in> set (List.map_filter (job_request parse) (consumed n K h))"
      then obtain sv ks where "(sv, ks) \<in> set groups" "q = PushMsgReq ks op 1 (mk_proto msg)" unfolding q by auto
      then show "gate_rpc gser svc q \<and> rpc_valid (gate_frame gser 0 q)" by (intro assms(10) [of ks]) (rule in_u, assumption)+
    qed
    from job_loop_forwards [OF assms(2) assms(4) assms(3) this, of c'] obtain bs js' where "job_loop n K gser parse js = Inr (bs, js')"
      "gate_receives c' (gate_side svc c') bs = Inr (map (\<lambda>q. (gate_method q, q)) (map (\<lambda>(sv, ks). PushMsgReq ks op 1 (mk_proto msg)) groups))"
      unfolding q by blast
    then show ?thesis by (intro exI conjI) (assumption, assumption, rule gate_serves_push)
  qed
  have "distinct (PushMsg ?ks (mk_proto msg) g)" by (rule gate.push_distinct [OF assms(1) dist inj_to_client])
  moreover have "set (PushMsg ?ks (mk_proto msg) g) = {ClientSend s 9 0 msg | s k r sv. online p s = Some (k, r) \<and> u k = Some sv}"
    unfolding gate.push_set [OF assms(1)] keys by (auto simp: with_key_def to_client_def mk_proto_def dom_def)
  ultimately show ?thesis using run by (elim exE conjE) (intro exI conjI, assumption+, simp_all)
qed

subsection \<open>A concrete system\<close>

text \<open>User 5 is registered with one key, which session 3 of the gate has.\<close>

definition demo_store :: store where
  "demo_store = \<lparr>strs = (\<lambda>_. None), hashes = (\<lambda>k. if k = ''mid_5'' then Some [(''k1'', ''g1'')] else None)\<rparr>"

definition demo_world :: "(string list list, store) logic_world" where
  "demo_world = \<lparr>lw_server = connected_logic, lw_outside = demo_store, lw_produced = []\<rparr>"

definition demo_request :: HttpRequest where
  "demo_request = (mkHttpRequest False)\<lparr>querys := [(''operation'', ''4''), (''mids'', ''5'')], req_body := ''hi''\<rparr>"

definition demo_ser :: "push_msg \<Rightarrow> string" where
  "demo_ser m = (if push_keys m = [] then ''e'' else ''k'')"

definition demo_parse :: "string \<Rightarrow> push_msg option" where
  "demo_parse s = Some (push_message 4 ''hi'' ''g1'' (if s = ''e'' then [] else [''k1'']))"

definition demo_gser :: "gate_request \<Rightarrow> string" where
  "demo_gser q = (if q = PushMsgReq [] 4 1 (mk_proto ''hi'') then ''e'' else ''k'')"

definition demo_service :: "(string, gate_request) Service" where
  "demo_service = \<lparr>full_name = ''gate.Gate'', FindMethodByName = (\<lambda>s. Some (butlast s)),
     parse_request = (\<lambda>m data n. Some (PushMsgReq (if data = ''e'' then [] else [''k1'']) 4 1 (mk_proto ''hi'')))\<rparr>"

definition demo_job :: "(kafka_message list, string, gate_request) JobServer" where
  "demo_job = \<lparr>rpcclient = mkRpcChannel (Some 0), kafkaconsumer = \<lparr>consumer_topic = [''cppim''], consumer_brokers = [],
     consumer_handle = Some [\<lparr>message_err = ERR__TIMED_OUT, message_payload = []\<rparr>, \<lparr>message_err = ERR_NO_ERROR, message_payload = ''k''\<rparr>]\<rparr>\<rparr>"

definition demo_gate :: GateServer where
  "demo_gate = snd (HandleConnect \<lparr>reply_mid = 5, reply_key = ''k1'', reply_room = ''r''\<rparr> 3 (logic_onConnection (mkGateServer ''g1'')))"

definition demo_presence :: presence where
  "demo_presence = presence_step (Authenticated 3 \<lparr>reply_mid = 5, reply_key = ''k1'', reply_room = ''r''\<rparr>) nobody"

lemma demo_produced:
  "map_sum (\<lambda>e. ()) (\<lambda>(outs, r, x). lw_produced x) (PushMsgByMidsHandler local_redis demo_ser (\<lambda>ks. ks) 0 demo_request response demo_world) =
     Inr [\<lparr>kafka_topic = ''cppim'', kafka_payload = ''k'', kafka_opaque = Some 0\<rparr>]"
  by code_simp


lemma demo_gate_rel: "gate_rel demo_presence demo_gate"
  unfolding demo_presence_def demo_gate_def by (rule connect_rel [OF gate_rel_fresh]) (simp add: nobody_def)

lemma demo_users: "users_keys demo_store [5] = [''k1'' \<mapsto> ''g1'']"
  by (simp add: demo_store_def hash_of_def sample_mids)

lemma demo_keys: "set ks \<subseteq> {''k1''} \<Longrightarrow> distinct ks \<Longrightarrow> ks = [] \<or> ks = [''k1'']"
  by (cases ks rule: remdups_adj.cases) auto

lemma demo_parse_inverts:
  assumes "sv \<in> ran [''k1'' \<mapsto> ''g1'']" "set ks \<subseteq> dom [''k1'' \<mapsto> ''g1'']" "distinct ks"
  shows "demo_parse (demo_ser (push_message 4 ''hi'' sv ks)) = Some (push_message 4 ''hi'' sv ks)"
proof -
  have "sv = ''g1''" "ks = [] \<or> ks = [''k1'']" using assms demo_keys [of ks] by simp_all
  then show ?thesis by (elim disjE) (simp_all add: demo_parse_def demo_ser_def push_message_def)
qed

lemma demo_rpc:
  assumes "set ks \<subseteq> dom [''k1'' \<mapsto> ''g1'']" "distinct ks" "q = PushMsgReq ks 4 1 (mk_proto ''hi'')"
  shows "gate_rpc demo_gser demo_service q \<and> rpc_valid (gate_frame demo_gser 0 q)"
proof -
  have "ks = [] \<or> ks = [''k1'']" using assms demo_keys [of ks] by simp
  then show ?thesis unfolding assms(3)
    by (elim disjE) (simp_all add: gate_rpc_def demo_service_def demo_gser_def request_frame_def rpc_valid_def rpc_len_def)
qed

lemma demo_queries:
  "getQuery ''operation'' demo_request = Inr (dec_of_int (sint (4 :: 32 word)))" "getQuery ''mids'' demo_request = Inr (mids_query [5])"
  "req_body demo_request = ''hi''"
  by code_simp+

lemma demo_handed:
  "\<exists>h. consumer_handle (kafkaconsumer demo_job) = Some h \<and>
     kafka_hands sample_kafka h 2 [\<lparr>kafka_topic = ''cppim'', kafka_payload = ''k'', kafka_opaque = Some 0\<rparr>]"
  by (simp add: demo_job_def kafka_hands_def sample_kafka_def numeral_2_eq_2 kafka_delivers_def)

text \<open>The keys the logic server gives out are numbers, the names of the Redis entries are not.\<close>

lemma key_is_no_number: "keyKeyServer k \<noteq> dec_of_nat n"
proof
  assume "keyKeyServer k = dec_of_nat n"
  then have "list_all (is_base_digit 10) (keyKeyServer k)" using dec_of_nat_digits [of n] by simp
  then have "is_base_digit 10 CHR ''k''" by (simp add: keyKeyServer_def)
  moreover have "\<not> is_base_digit 10 CHR ''k''" by code_simp
  ultimately show False by simp
qed

end
