(* ===== verification/Spec2Isabelle.thy ===== *)
theory Spec2Isabelle
  imports TcpServerModel JsonTypes Delivery
begin

text \<open>
Verification of cppim, a C++ instant-messaging back end.

  \<^bold>\<open>The program.\<close> Three servers share a network, RPC and HTTP layer. Clients keep a TCP connection to the \<^emph>\<open>gate\<close> server
  (\<^verbatim>\<open>src/gateserver\<close>); it forwards logins and heartbeats by RPC to the \<^emph>\<open>logic\<close> server (\<^verbatim>\<open>src/logicserver\<close>), which gives out session keys and keeps
  in Redis which key is at which gate. A push request reaches the logic server over HTTP; the logic server looks the keys up, groups them by gate and
  hands the messages to Kafka. The \<^emph>\<open>job\<close> server (\<^verbatim>\<open>src/jobserver\<close>) consumes them and calls the gate by RPC, which sends them to its clients.

  \<^bold>\<open>Conventions.\<close> Bytes are characters, a \<^verbatim>\<open>std::string\<close> is a \<^typ>\<open>string\<close>, an integer of w bits is a word of that width wherever it can wrap, and an
  int or nat where the code keeps it in range. Code that can fail returns \<open>fault + 'a\<close> (theory \<open>Prelude\<close>), where \<open>fault\<close> has one constructor for
  each way C++ leaves the path (failed assertion, exception, null dereference, access out of bounds, use after free); the JSON library returns \<open>json_error + 'a\<close>.
  Objects are records, operations take the object and return it changed, together with what they emit. Libraries that are not in the repository (asio,
  protobuf, hiredis, librdkafka, the clock) are parameters; what a theorem needs of them is a named hypothesis, and its witness instantiates it.

  \<^bold>\<open>The theories.\<close>

  \<^item> \<open>Prelude\<close>, \<open>StdMap\<close>, \<open>Common\<close>: faults and their bind, C number parsing and decimal printing, ordered maps; \<^verbatim>\<open>src/common/util.hpp\<close> (split is the
    inverse of join) and \<^verbatim>\<open>EndianTransfer.h\<close>.
  \<^item> \<open>ByteQueue\<close> (locale \<open>byte_queue\<close>: what a buffer promises), \<open>BufferModel\<close> (\<^verbatim>\<open>src/common/Buffer.h\<close>, interpreted as \<open>bq\<close> and \<open>hq\<close>; every sequence of
    operations refines a plain byte queue).
  \<^item> \<open>Framing\<close> (locale \<open>framed_stream\<close>: an incremental decoder of a stream of frames), \<open>RpcCodec\<close> (\<^verbatim>\<open>src/rpc/RpcCodec.cc\<close>) and \<open>ClientCodec\<close>
    (\<^verbatim>\<open>src/gateserver/ClientCodec.h\<close>), its two interpretations: round trips, independence of how the stream is cut, and what happens on bad lengths.
  \<^item> \<open>Loops\<close>, \<open>SessionModel\<close>, \<open>TcpServerModel\<close> (\<^verbatim>\<open>src/net\<close>): loops, the session with its completion handlers and locks, acceptor and server. Sending
    loses and reorders nothing under any interleaving when writes complete, reading delivers every frame; partial writes, write errors and reconnects.
  \<^item> \<open>RpcChannelModel\<close>, \<open>RpcCalls\<close> (\<^verbatim>\<open>src/rpc/RpcChannel.cc\<close>, \<^verbatim>\<open>RpcServer.cc\<close>): matching of responses to calls, dispatch, the round trip of a call.
  \<^item> \<open>GateModel\<close> (\<^verbatim>\<open>src/gateserver/GateServer.cc\<close>, \<^verbatim>\<open>GateServiceImpl.cc\<close>, \<^verbatim>\<open>UserSession.h\<close>): the tables implement the table of who is online (locale
    \<open>gate_service\<close>, interpreted as \<open>gate\<close>), and histories that leave stale or refused sessions in them.
  \<^item> \<open>HttpModel\<close>, \<open>HttpParser\<close>, \<open>HttpServerModel\<close> (\<^verbatim>\<open>src/http\<close>): messages, the incremental parser and serving; \<open>RateModel\<close> (\<^verbatim>\<open>src/rate\<close>): the adaptive limiter
    in front of the handlers, with the floating-point steps as rounded reals.
  \<^item> \<open>JsonLexer\<close>, \<open>JsonParser\<close>, \<open>JsonDump\<close>, \<open>JsonAccess\<close>: the parts of \<^verbatim>\<open>src/opt/nlohmann/json.hpp\<close> the program uses. \<open>JsonTokens\<close>, \<open>JsonGrammar\<close> show
    that parsing is exactly the grammar of the format, \<open>JsonNumbers\<close>, \<open>JsonStrings\<close>, \<open>JsonEscape\<close>, \<open>JsonRoundtrip\<close> that dumping stays in its buffers and is
    inverted by parsing, \<open>JsonTypes\<close> what values the parser can return.
  \<^item> \<open>RedisModel\<close> (\<^verbatim>\<open>src/redis/RedisClient.cc\<close>), \<open>RedisStore\<close>: the client over the hiredis interface, and the documented behaviour of a Redis server
    with a client that is connected to it.
  \<^item> \<open>LogicModel\<close> (\<^verbatim>\<open>src/logicserver\<close>): key generation, the RPC service, the push operations and their HTTP handlers, the delivery reports of Kafka.
    \<open>LogicKeys\<close>: keys are unique; \<open>LogicRegistry\<close>: the service implements the table of sessions; \<open>LogicPush\<close>: which records a push produces.
  \<^item> \<open>JobModel\<close> (\<^verbatim>\<open>src/jobserver\<close>): consuming and forwarding over the RPC channel; \<open>Delivery\<close>: what the records of the logic server become at the gate.
    The theorems that span all servers are in this theory.

  \<^bold>\<open>Bounds and fuel.\<close> Loops are recursive functions with a termination proof, on the bytes left where the source advances through a buffer; the wait for
  the clock in \<^verbatim>\<open>generateKey\<close> is a \<open>partial_function\<close>, and its theorem shows that it returns. The main loop of the job server runs a given number of rounds,
  and its theorem holds for every number. Bounds in theorems are those of the code: frames of at most 64 MB, client packets of at most 65520 bytes of body, call
  numbers below 2^63 (the highest bit marks a response), indentation of at most 512, 42 bits of milliseconds in a key.

  \<^bold>\<open>Not modelled.\<close> The text of a floating-point number in the JSON serializer is a parameter of \<open>JsonDump\<close>. The parts of json.hpp the program does not use
  (binary formats, pointers, patches, iterators, comments, callbacks) are left out. Logging (\<^verbatim>\<open>src/common/log.*\<close>, \<^verbatim>\<open>hourly_file_sink.h\<close>, \<^verbatim>\<open>src/opt/spdlog\<close>) has no effect
  on the other components and is left out of their models. The \<^verbatim>\<open>main\<close> functions read the configuration with \<^verbatim>\<open>src/opt/cpptoml\<close> and start the servers;
  only the loop of the job server is modelled. \<^verbatim>\<open>src/http/HttpClient.h\<close> includes a file that is not in the repository. \<^verbatim>\<open>src/client\<close> and \<^verbatim>\<open>src/test\<close> are
  programs for manual tests. \<^verbatim>\<open>src/protocol/*.pb.*\<close> is generated by protobuf from the two proto files, whose messages are records and
  datatypes here. Destructors and memory that is only freed are left out except where an object is used after it has been deleted.
\<close>





end
